(* ===== verification/Prelude.thy ===== *)
theory Prelude
  imports Main "HOL-Library.Word" "HOL-Library.Product_Lexorder" "HOL-Library.List_Lexorder"
    "HOL-Library.Char_ord"
begin

text \<open>
  Shared vocabulary of the development: the machine integers of the Rust sources, the
  iterator adaptors the sources use on lists (\<open>unique\<close> and \<open>interleave\<close> of itertools,
  \<open>unwrap_or\<close> on options) and the generic lemmas about them that the component theories
  rest on.  Lengths and indices (\<open>usize\<close>) are natural numbers; every narrowing cast
  (\<open>as u16\<close>, \<open>as u32\<close>, \<open>as u64\<close>) is written out with \<open>of_nat\<close> into the word type, so that the
  truncation the code performs is the truncation the model performs.
\<close>

type_synonym u8 = "8 word"
type_synonym u16 = "16 word"
type_synonym u32 = "32 word"
type_synonym u64 = "64 word"

text \<open>\<open>std::time::Duration\<close> in nanoseconds; \<open>as_millis\<close> truncates.\<close>

type_synonym duration = nat

definition from_millis :: "nat \<Rightarrow> duration" where
  "from_millis n = n * 1000000"

definition as_millis :: "duration \<Rightarrow> nat" where
  "as_millis d = d div 1000000"

lemma as_millis_from_millis [simp]: "as_millis (from_millis n) = n"
  by (simp add: as_millis_def from_millis_def)

text \<open>
  A duration has 64 bits of seconds: \<open>Duration * u32\<close> panics, in every build, when the product is longer
  than \<open>Duration::MAX\<close>.  The code only ever doubles.
\<close>

definition duration_max :: duration where
  "duration_max = 2 ^ 64 * 1000000000 - 1"

definition dur_double :: "duration \<Rightarrow> duration option" where
  "dur_double d = (if d * 2 \<le> duration_max then Some (d * 2) else None)"

lemma dur_double_simps [simp]:
  "dur_double d = Some k \<longleftrightarrow> d * 2 \<le> duration_max \<and> k = d * 2" "dur_double d = None \<longleftrightarrow> \<not> d * 2 \<le> duration_max"
  by (auto simp: dur_double_def)

lemma small_duration: "n \<le> 9000000000000000000000000000 \<Longrightarrow> n * 2 \<le> duration_max"
  by (simp add: duration_max_def)

named_theorems step_defs \<open>definitions of handlers, unfolded in preservation proofs\<close>
named_theorems inv_defs \<open>invariants, unfolded in preservation proofs\<close>

subsection \<open>Options\<close>

definition unwrap_or :: "'a option \<Rightarrow> 'a \<Rightarrow> 'a" where
  "unwrap_or x d = (case x of Some v \<Rightarrow> v | None \<Rightarrow> d)"

lemma unwrap_or_simps [simp]:
  "unwrap_or (Some v) d = v" "unwrap_or None d = d"
  by (simp_all add: unwrap_or_def)

lemma option_eqI: "(\<And>v. x = Some v \<longleftrightarrow> y = Some v) \<Longrightarrow> x = y"
  by (metis not_None_eq)

definition opt_filter :: "('a \<Rightarrow> bool) \<Rightarrow> 'a option \<Rightarrow> 'a option" where
  "opt_filter p x = (case x of Some v \<Rightarrow> (if p v then Some v else None) | None \<Rightarrow> None)"

lemma opt_filter_simps [simp]:
  "opt_filter p None = None" "opt_filter p (Some v) = (if p v then Some v else None)"
  by (simp_all add: opt_filter_def)

subsection \<open>Outcomes\<close>

text \<open>
  How a handler ends when its effects before a panic matter: the effects it has had, in order, and then
  its new state, a panic, or a loop that does not end.
\<close>

datatype 's ending = Done (done_state: 's) | Panic | Diverge

type_synonym ('e, 's) outcome = "'e list \<times> 's ending"

definition and_then :: "('e, 's) outcome \<Rightarrow> ('s \<Rightarrow> ('e, 't) outcome) \<Rightarrow> ('e, 't) outcome" where
  "and_then r f =
     (case snd r of
        Done s \<Rightarrow> (fst r @ fst (f s), snd (f s))
      | Panic \<Rightarrow> (fst r, Panic)
      | Diverge \<Rightarrow> (fst r, Diverge))"

lemma and_then_simps [simp]:
  "and_then (out, Done s) f = (out @ fst (f s), snd (f s))" "and_then (out, Panic) f = (out, Panic)"
  "and_then (out, Diverge) f = (out, Diverge)"
  by (simp_all add: and_then_def)

lemma and_then_Done_iff:
  "and_then r f = (out, Done t) \<longleftrightarrow> (\<exists>out1 s out2. r = (out1, Done s) \<and> f s = (out2, Done t) \<and> out = out1 @ out2)"
  by (cases r; cases "snd r") (auto simp: and_then_def prod_eq_iff)

lemma and_then_DoneE:
  assumes "and_then r f = (out, Done t)"
  obtains out1 s out2 where "r = (out1, Done s)" "f s = (out2, Done t)" "out = out1 @ out2"
  using assms by (auto simp: and_then_Done_iff)

definition of_option :: "'s option \<Rightarrow> ('e, 's) outcome" where
  "of_option x = ([], case x of Some s \<Rightarrow> Done s | None \<Rightarrow> Panic)"

lemma of_option_simps [simp]: "of_option (Some s) = ([], Done s)" "of_option None = ([], Panic)"
  by (simp_all add: of_option_def)

subsection \<open>Iterator adaptors\<close>

text \<open>\<open>Itertools::unique\<close>: an element is produced only the first time it occurs.\<close>

fun unique_seen :: "'a set \<Rightarrow> 'a list \<Rightarrow> 'a list" where
  "unique_seen seen [] = []"
| "unique_seen seen (x # xs) =
     (if x \<in> seen then unique_seen seen xs else x # unique_seen (insert x seen) xs)"

definition unique :: "'a list \<Rightarrow> 'a list" where
  "unique xs = unique_seen {} xs"

lemma set_unique_seen: "set (unique_seen seen xs) = set xs - seen"
  by (induction xs arbitrary: seen) auto

lemma distinct_unique_seen: "distinct (unique_seen seen xs)"
  by (induction xs arbitrary: seen) (auto simp: set_unique_seen)

lemma set_unique [simp]: "set (unique xs) = set xs"
  by (simp add: unique_def set_unique_seen)

lemma distinct_unique [simp]: "distinct (unique xs)"
  by (simp add: unique_def distinct_unique_seen)

lemma length_unique: "length (unique xs) = card (set xs)"
  using distinct_card[OF distinct_unique[of xs]] by simp

lemma unique_Nil [simp]: "unique [] = []"
  by (simp add: unique_def)

lemma unique_Cons: "unique (x # xs) = x # unique_seen {x} xs"
  by (simp add: unique_def)

lemma unique_seen_append:
  "unique_seen seen (xs @ ys) = unique_seen seen xs @ unique_seen (seen \<union> set xs) ys"
  by (induction xs arbitrary: seen) (auto simp: insert_absorb)

lemma unique_append: "unique (xs @ ys) = unique xs @ unique_seen (set xs) ys"
  by (simp add: unique_def unique_seen_append)

lemma unique_seen_id: "distinct xs \<Longrightarrow> set xs \<inter> seen = {} \<Longrightarrow> unique_seen seen xs = xs"
  by (induction xs arbitrary: seen) auto

lemma unique_snoc: "unique (xs @ [y]) = (if y \<in> set xs then unique xs else unique xs @ [y])"
  by (simp add: unique_append)

lemma append_Cons_unique:
  "a @ x # c = b @ x # d \<Longrightarrow> x \<notin> set a \<Longrightarrow> x \<notin> set b \<Longrightarrow> a = b \<and> c = d"
  by (induction a arbitrary: b) (auto simp: Cons_eq_append_conv append_eq_Cons_conv)

text \<open>Where an element stands in the deduplicated sequence: after the distinct elements that
  precede its first occurrence.\<close>

lemma take_unique_iff:
  assumes "x \<notin> set ys"
  shows "x \<in> set (take n (unique (ys @ x # zs))) \<longleftrightarrow> card (set ys) < n"
proof -
  have u: "unique (ys @ x # zs) = unique ys @ x # unique_seen (insert x (set ys)) zs"
    using assms by (simp add: unique_append)
  have d: "distinct (unique (ys @ x # zs))" by simp
  show ?thesis
  proof (cases "card (set ys) < n")
    case True
    then show ?thesis by (simp add: u length_unique take_Cons' )
  next
    case False
    then have "take n (unique (ys @ x # zs)) = take n (unique ys)"
      by (simp add: u length_unique)
    with assms False show ?thesis by (metis in_set_takeD set_unique)
  qed
qed

text \<open>\<open>Itertools::interleave\<close>: alternate the two sequences, then the rest of the longer one.\<close>

function interleave :: "'a list \<Rightarrow> 'a list \<Rightarrow> 'a list" where
  "interleave [] ys = ys"
| "interleave (x # xs) ys = x # interleave ys xs"
  by pat_completeness auto
termination
  by (relation "measure (\<lambda>(xs, ys). length xs + length ys)") auto

lemma length_interleave [simp]: "length (interleave xs ys) = length xs + length ys"
  by (induction xs ys rule: interleave.induct) auto

lemma sum_list_interleave:
  "sum_list (interleave xs ys) = sum_list xs + sum_list (ys :: 'a::comm_monoid_add list)"
  by (induction xs ys rule: interleave.induct) (auto simp: ac_simps)

lemma map_interleave: "map f (interleave xs ys) = interleave (map f xs) (map f ys)"
  by (induction xs ys rule: interleave.induct) auto

subsection \<open>Words\<close>

lemma unat_add_one: "r \<noteq> - 1 \<Longrightarrow> unat (r + 1 :: 'a::len word) = Suc (unat r)"
proof -
  assume "r \<noteq> - 1"
  then have "1 + r \<noteq> 0" by (metis add.commute add_eq_0_iff)
  then show ?thesis by (metis add.commute unatSuc)
qed

lemma word_less_add_one: "r \<noteq> - 1 \<Longrightarrow> r < r + (1 :: 'a::len word)"
  by (simp add: word_less_nat_alt unat_add_one)

lemma not_Some_unit [simp]: "x \<noteq> Some () \<longleftrightarrow> x = None"
  by (cases x) auto

end
