(* ===== verification/Remoting.thy ===== *)
theory Remoting
  imports Prelude
begin

text \<open>
  Addresses (core/remoting.rs, core/actor.rs, core/actor_ref.rs): hosts, sockets, actor identifiers,
  destinations and actor references.  The unified type of an application is a type variable \<open>'u\<close>;
  the constant \<open>Case::VARIANT\<close> of a message type is passed as the value of \<open>'u\<close> it denotes, and
  \<open>UnifiedType::has_interface\<close> as a relation on \<open>'u\<close>.  Host, socket and identifier derive \<open>Ord\<close> in
  the sources: variants in declaration order, fields lexicographically.
\<close>

datatype ip_addr = V4 u32 | V6 "128 word"

datatype host = DNS string | IP ip_addr

datatype socket = Socket (sock_host: host) (sock_udp: u16) (sock_tcp: u16)

instantiation ip_addr :: linorder
begin

fun less_eq_ip_addr :: "ip_addr \<Rightarrow> ip_addr \<Rightarrow> bool" where
  "less_eq_ip_addr (V4 a) (V4 b) = (a \<le> b)"
| "less_eq_ip_addr (V4 a) (V6 b) = True"
| "less_eq_ip_addr (V6 a) (V4 b) = False"
| "less_eq_ip_addr (V6 a) (V6 b) = (a \<le> b)"

definition less_ip_addr :: "ip_addr \<Rightarrow> ip_addr \<Rightarrow> bool" where
  "less_ip_addr x y \<longleftrightarrow> x \<le> y \<and> \<not> y \<le> x"

instance
proof
  fix x y z :: ip_addr
  show "(x < y) = (x \<le> y \<and> \<not> y \<le> x)" by (simp add: less_ip_addr_def)
  show "x \<le> x" by (cases x) auto
  show "x \<le> y \<Longrightarrow> y \<le> z \<Longrightarrow> x \<le> z" by (cases x; cases y; cases z) auto
  show "x \<le> y \<Longrightarrow> y \<le> x \<Longrightarrow> x = y" by (cases x; cases y) auto
  show "x \<le> y \<or> y \<le> x" by (cases x; cases y) auto
qed

end

instantiation host :: linorder
begin

fun less_eq_host :: "host \<Rightarrow> host \<Rightarrow> bool" where
  "less_eq_host (DNS a) (DNS b) = (a \<le> b)"
| "less_eq_host (DNS a) (IP b) = True"
| "less_eq_host (IP a) (DNS b) = False"
| "less_eq_host (IP a) (IP b) = (a \<le> b)"

definition less_host :: "host \<Rightarrow> host \<Rightarrow> bool" where
  "less_host x y \<longleftrightarrow> x \<le> y \<and> \<not> y \<le> x"

instance
proof
  fix x y z :: host
  show "(x < y) = (x \<le> y \<and> \<not> y \<le> x)" by (simp add: less_host_def)
  show "x \<le> x" by (cases x) auto
  show "x \<le> y \<Longrightarrow> y \<le> z \<Longrightarrow> x \<le> z" by (cases x; cases y; cases z) auto
  show "x \<le> y \<Longrightarrow> y \<le> x \<Longrightarrow> x = y" by (cases x; cases y) auto
  show "x \<le> y \<or> y \<le> x" by (cases x; cases y) auto
qed

end

instantiation socket :: linorder
begin

definition less_eq_socket :: "socket \<Rightarrow> socket \<Rightarrow> bool" where
  "less_eq_socket x y \<longleftrightarrow>
     (sock_host x, sock_udp x, sock_tcp x) \<le> (sock_host y, sock_udp y, sock_tcp y)"

definition less_socket :: "socket \<Rightarrow> socket \<Rightarrow> bool" where
  "less_socket x y \<longleftrightarrow> x \<le> y \<and> \<not> y \<le> x"

instance
proof
  fix x y z :: socket
  show "(x < y) = (x \<le> y \<and> \<not> y \<le> x)" by (simp add: less_socket_def)
  show "x \<le> x" by (simp add: less_eq_socket_def)
  show "x \<le> y \<Longrightarrow> y \<le> z \<Longrightarrow> x \<le> z" unfolding less_eq_socket_def by (rule order_trans)
  show "x \<le> y \<Longrightarrow> y \<le> x \<Longrightarrow> x = y"
    unfolding less_eq_socket_def by (drule (1) order_antisym) (auto intro: socket.expand)
  show "x \<le> y \<or> y \<le> x" unfolding less_eq_socket_def by (rule linear)
qed

end

text \<open>\<open>Host::from\<close>; the parser of IP addresses is a parameter.\<close>

definition host_from :: "(string \<Rightarrow> ip_addr option) \<Rightarrow> string \<Rightarrow> host" where
  "host_from parse_ip s = (case parse_ip s of Some ip \<Rightarrow> IP ip | None \<Rightarrow> DNS s)"

definition socket_new :: "host \<Rightarrow> u16 \<Rightarrow> u16 \<Rightarrow> socket" where
  "socket_new host udp tcp = Socket host udp tcp"

definition socket_default :: socket where
  "socket_default = Socket (IP (V4 0)) 0 0"

subsection \<open>Identifiers, destinations and references\<close>

datatype 'u actor_id = Actor_Id (recv_type: 'u) (actor_name: string)

definition actor_id_new :: "'u \<Rightarrow> string \<Rightarrow> 'u actor_id" where
  "actor_id_new variant_R s = Actor_Id variant_R s"

datatype 'u destination = Destination (dest_name: "'u actor_id") (dest_interface: 'u)

record ('u, 'l) actor_ref =
  ref_socket :: socket
  ref_dest :: "'u destination"
  ref_local :: "'l option"

text \<open>\<open>Destination::new::<S>\<close> for the interface \<open>I\<close>: the variants of \<open>S\<close> and of \<open>I\<close>.\<close>

definition destination_new :: "'u \<Rightarrow> 'u \<Rightarrow> string \<Rightarrow> 'u destination" where
  "destination_new variant_S variant_I s = Destination (Actor_Id variant_S s) variant_I"

definition destination_valid :: "('u \<Rightarrow> 'u \<Rightarrow> bool) \<Rightarrow> 'u \<Rightarrow> 'u destination \<Rightarrow> bool" where
  "destination_valid has_interface variant_I d = has_interface (recv_type (dest_name d)) variant_I"

definition actor_ref_new :: "'u \<Rightarrow> 'u \<Rightarrow> string \<Rightarrow> socket \<Rightarrow> ('u, 'l) actor_ref" where
  "actor_ref_new variant_S variant_I s sock =
     \<lparr>ref_socket = sock, ref_dest = destination_new variant_S variant_I s, ref_local = None\<rparr>"

text \<open>Equality of references ignores the local half.\<close>

definition actor_ref_eq :: "('u, 'l) actor_ref \<Rightarrow> ('u, 'l) actor_ref \<Rightarrow> bool" where
  "actor_ref_eq a b \<longleftrightarrow> ref_socket a = ref_socket b \<and> ref_dest a = ref_dest b"

end
