(* ===== verification/Ordered_Map.thy ===== *)
theory Ordered_Map
  imports Prelude
begin

text \<open>
  Key-ordered finite maps.  The sources keep ordered maps in three containers with the same
  documented contract, a finite map iterated in ascending key order: \<open>std::collections::BTreeMap\<close>
  (the gossip states), \<open>im::OrdMap\<close> (the device CRDT) and \<open>rpds::RedBlackTreeMap\<close> (the node ring).
  They are modelled by one type, the strictly sorted association lists, so that equality of
  values is equality of the maps and iteration order is the list order.
\<close>

abbreviation sorted_keys :: "('k::linorder \<times> 'v) list \<Rightarrow> bool" where
  "sorted_keys xs \<equiv> sorted_wrt (<) (map fst xs)"

typedef (overloaded) ('k, 'v) omap = "{xs :: ('k::linorder \<times> 'v) list. sorted_keys xs}"
  morphisms entries Abs_omap
  by (rule exI[of _ "[]"]) simp

setup_lifting type_definition_omap

lemma entries_sorted [simp, intro]: "sorted_keys (entries m)"
  using entries[of m] by simp

lemma entries_distinct [simp, intro]: "distinct (map fst (entries m))"
  using strict_sorted_iff entries_sorted by blast

fun al_insert :: "'k::linorder \<Rightarrow> 'v \<Rightarrow> ('k \<times> 'v) list \<Rightarrow> ('k \<times> 'v) list" where
  "al_insert k v [] = [(k, v)]"
| "al_insert k v (e # es) =
     (if fst e < k then e # al_insert k v es
      else if fst e = k then (k, v) # es
      else (k, v) # e # es)"

lemma al_insert_keys: "fst ` set (al_insert k v es) = insert k (fst ` set es)"
  by (induction es) auto

lemma al_insert_sorted: "sorted_keys es \<Longrightarrow> sorted_keys (al_insert k v es)"
proof (induction es)
  case Nil
  then show ?case by simp
next
  case (Cons e es)
  have "\<forall>x \<in> fst ` set (al_insert k v es). x = k \<or> x \<in> fst ` set es"
    by (simp add: al_insert_keys)
  with Cons show ?case
    by fastforce
qed

lemma filter_sorted_keys: "sorted_keys es \<Longrightarrow> sorted_keys (filter p es)"
  by (induction es) auto

lemma map_of_al_insert:
  "sorted_keys es \<Longrightarrow> map_of (al_insert k v es) = (map_of es)(k \<mapsto> v)"
  by (induction es) (auto simp: fun_eq_iff)

lift_definition om_empty :: "('k::linorder, 'v) omap" is "[]" by simp

lift_definition om_get :: "('k::linorder, 'v) omap \<Rightarrow> 'k \<Rightarrow> 'v option" is map_of .

lift_definition om_insert :: "'k::linorder \<Rightarrow> 'v \<Rightarrow> ('k, 'v) omap \<Rightarrow> ('k, 'v) omap" is al_insert
  by (rule al_insert_sorted)

lift_definition om_remove :: "'k::linorder \<Rightarrow> ('k, 'v) omap \<Rightarrow> ('k, 'v) omap" is
  "\<lambda>k. filter (\<lambda>e. fst e \<noteq> k)"
  by (rule filter_sorted_keys)

definition om_keys :: "('k::linorder, 'v) omap \<Rightarrow> 'k list" where
  "om_keys m = map fst (entries m)"

definition om_is_empty :: "('k::linorder, 'v) omap \<Rightarrow> bool" where
  "om_is_empty m \<longleftrightarrow> entries m = []"

definition om_of_list :: "('k::linorder \<times> 'v) list \<Rightarrow> ('k, 'v) omap" where
  "om_of_list es = fold (\<lambda>e m. om_insert (fst e) (snd e) m) es om_empty"

definition om_union_with ::
    "('v \<Rightarrow> 'v \<Rightarrow> 'v) \<Rightarrow> ('k::linorder, 'v) omap \<Rightarrow> ('k, 'v) omap \<Rightarrow> ('k, 'v) omap" where
  "om_union_with f a b =
     fold (\<lambda>e m. case om_get m (fst e) of
             None \<Rightarrow> om_insert (fst e) (snd e) m
           | Some w \<Rightarrow> om_insert (fst e) (f w (snd e)) m) (entries b) a"

lemma map_of_filter_fst: "map_of (filter (\<lambda>e. fst e \<noteq> k) es) k' = (if k' = k then None else map_of es k')"
  by (induction es) auto

lemma entries_simps [simp]:
  "entries om_empty = []"
  "entries (om_insert k v m) = al_insert k v (entries m)"
  "entries (om_remove k m) = filter (\<lambda>e. fst e \<noteq> k) (entries m)"
  by (transfer, simp)+

lemma om_get_entries: "om_get m k = map_of (entries m) k"
  by transfer simp

lemma om_get_simps [simp]:
  "om_get om_empty k = None"
  "om_get (om_insert k v m) k' = (if k' = k then Some v else om_get m k')"
  "om_get (om_remove k m) k' = (if k' = k then None else om_get m k')"
  by (auto simp: om_get_entries map_of_al_insert map_of_filter_fst split: if_splits)

lemma al_of_keys: "distinct (map fst es) \<Longrightarrow> map (\<lambda>k. (k, the (map_of es k))) (map fst es) = es"
proof -
  assume d: "distinct (map fst es)"
  have "map (\<lambda>e. (fst e, the (map_of es (fst e)))) es = es"
    by (rule map_idI) (use d in auto)
  then show ?thesis by (simp add: comp_def)
qed

lemma om_eqI: "(\<And>k. om_get a k = om_get b k) \<Longrightarrow> a = b"
proof -
  assume "\<And>k. om_get a k = om_get b k"
  then have m: "map_of (entries a) = map_of (entries b)"
    by (simp add: om_get_entries fun_eq_iff)
  then have "set (map fst (entries a)) = set (map fst (entries b))"
    using dom_map_of_conv_image_fst[of "entries a"] dom_map_of_conv_image_fst[of "entries b"] by simp
  then have "map fst (entries a) = map fst (entries b)"
    using strict_sorted_equal[OF entries_sorted entries_sorted] by metis
  with m have "entries a = entries b"
    using al_of_keys[OF entries_distinct, of a] al_of_keys[OF entries_distinct, of b] by simp
  then show "a = b" by (simp add: entries_inject)
qed

lemma om_eq_iff: "a = b \<longleftrightarrow> (\<forall>k. om_get a k = om_get b k)"
  using om_eqI by blast

lemma om_in_entries_iff: "(k, v) \<in> set (entries m) \<longleftrightarrow> om_get m k = Some v"
  by (simp add: om_get_entries)

lemma set_om_keys: "set (om_keys m) = {k. om_get m k \<noteq> None}"
  by (simp add: om_keys_def om_get_entries map_of_eq_None_iff)

lemma distinct_om_keys [simp]: "distinct (om_keys m)"
  by (simp add: om_keys_def)

lemma om_is_empty_iff: "om_is_empty m \<longleftrightarrow> m = om_empty"
  by (metis om_is_empty_def entries_inject entries_simps(1))

lemma om_insert_not_empty [simp]: "om_insert k v m \<noteq> om_empty"
  by (metis om_get_simps(1,2) option.distinct(1))

subsection \<open>Unions and literals\<close>

lemma om_get_fold_insert:
  "om_get (fold (\<lambda>e m. om_insert (fst e) (snd e) m) es m) k =
     (case map_of (rev es) k of None \<Rightarrow> om_get m k | Some v \<Rightarrow> Some v)"
  by (induction es arbitrary: m) (auto simp: map_add_def split: option.splits)

lemma om_get_of_list: "om_get (om_of_list es) k = map_of (rev es) k"
  by (simp add: om_of_list_def om_get_fold_insert split: option.splits)

lemma om_get_fold_union:
  "distinct (map fst es) \<Longrightarrow>
   om_get (fold (\<lambda>e m. case om_get m (fst e) of
             None \<Rightarrow> om_insert (fst e) (snd e) m
           | Some w \<Rightarrow> om_insert (fst e) (f w (snd e)) m) es a) k =
     (case (om_get a k, map_of es k) of
        (Some x, Some y) \<Rightarrow> Some (f x y)
      | (Some x, None) \<Rightarrow> Some x
      | (None, y) \<Rightarrow> y)"
proof (induction es arbitrary: a)
  case Nil
  then show ?case by (simp split: option.splits)
next
  case (Cons e es)
  then have d: "distinct (map fst es)" and nin: "map_of es (fst e) = None"
    by (auto simp: map_of_eq_None_iff)
  show ?case
    by (auto simp: Cons.IH[OF d] nin split: option.splits)
qed

lemma om_get_union_with:
  "om_get (om_union_with f a b) k =
     (case (om_get a k, om_get b k) of
        (Some x, Some y) \<Rightarrow> Some (f x y)
      | (Some x, None) \<Rightarrow> Some x
      | (None, y) \<Rightarrow> y)"
  unfolding om_union_with_def by (subst om_get_fold_union) (auto simp: om_get_entries)
end
