(* ===== verification/Members.thy ===== *)
theory Members
  imports Remoting Ordered_Map
begin

text \<open>
  Cluster members, cluster events and the configurations (cluster/utils.rs).  A member is
  identified by socket, identifier and number of virtual nodes; \<open>Ord\<close> is derived, fields in
  declaration order, and the hand-written \<open>PartialEq\<close> compares all three fields.
\<close>

datatype member = Member (m_socket: socket) (m_id: u64) (m_vnodes: u32)

instantiation member :: linorder
begin

definition less_eq_member :: "member \<Rightarrow> member \<Rightarrow> bool" where
  "less_eq_member x y \<longleftrightarrow> (m_socket x, m_id x, m_vnodes x) \<le> (m_socket y, m_id y, m_vnodes y)"

definition less_member :: "member \<Rightarrow> member \<Rightarrow> bool" where
  "less_member x y \<longleftrightarrow> x \<le> y \<and> \<not> y \<le> x"

instance
proof
  fix x y z :: member
  show "(x < y) = (x \<le> y \<and> \<not> y \<le> x)" by (simp add: less_member_def)
  show "x \<le> x" by (simp add: less_eq_member_def)
  show "x \<le> y \<Longrightarrow> y \<le> z \<Longrightarrow> x \<le> z" unfolding less_eq_member_def by (rule order_trans)
  show "x \<le> y \<Longrightarrow> y \<le> x \<Longrightarrow> x = y"
    unfolding less_eq_member_def by (drule (1) order_antisym) (auto intro: member.expand)
  show "x \<le> y \<or> y \<le> x" unfolding less_eq_member_def by (rule linear)
qed

end

definition member_eq :: "member \<Rightarrow> member \<Rightarrow> bool" where
  "member_eq a b =
     (if m_id a \<noteq> m_id b then False
      else if m_socket a \<noteq> m_socket b then False
      else m_vnodes a = m_vnodes b)"

definition default_member :: member where
  "default_member = Member (socket_new (IP (V4 0)) 0 0) 0 0"

lemma member_eq_iff [simp]: "member_eq a b \<longleftrightarrow> a = b"
  by (cases a; cases b) (auto simp: member_eq_def)

datatype cluster_event =
  Alone member | Joined member | Added member | Removed member | Left_Cluster

definition event_end :: "cluster_event \<Rightarrow> bool" where
  "event_end e = (case e of Alone _ \<Rightarrow> True | Joined _ \<Rightarrow> True | Left_Cluster \<Rightarrow> True | _ \<Rightarrow> False)"

record cluster_config =
  gossip_timeout :: duration
  gossip_disperse :: nat
  ping_timeout :: duration
  num_pings :: nat
  hb_interval :: duration
  seed_nodes :: "socket set"
  replication_factor :: nat
  vnodes :: u32
  double :: bool

definition default_cluster_config :: cluster_config where
  "default_cluster_config =
     \<lparr>gossip_timeout = from_millis 1000, gossip_disperse = 1, ping_timeout = from_millis 300, num_pings = 5,
      hb_interval = from_millis 50, seed_nodes = {}, replication_factor = 2, vnodes = 1, double = False\<rparr>"

end
