(* ===== verification/Node_Ring.thy ===== *)
theory Node_Ring
  imports Members "HOL-Library.AList"
begin

text \<open>
  The consistent-hashing ring (cluster/node_ring.rs).  The ring is an ordered map from positions
  (\<open>u64\<close>) to a pair of a flag, true for the position that a member's own hash gives, and the
  member.  The hash function of the crate wyhash and its generator \<open>wyrng\<close> are parameters: \<open>hash\<close>
  is \<open>hash_code\<close> at the hashed type and \<open>wyrng key\<close> is the value that \<open>wyrng(&mut key)\<close> returns,
  which the sources always assign back to the key.
\<close>

record node_ring =
  ring :: "(u64, bool \<times> member) omap"
  rep_factor :: nat

definition ring_new :: "nat \<Rightarrow> node_ring" where
  "ring_new rep = \<lparr>ring = om_empty, rep_factor = rep\<rparr>"

definition range_from :: "u64 \<Rightarrow> (u64, 'v) omap \<Rightarrow> (u64 \<times> 'v) list" where
  "range_from key m = filter (\<lambda>e. key \<le> fst e) (entries m)"

definition range_to :: "u64 \<Rightarrow> (u64, 'v) omap \<Rightarrow> (u64 \<times> 'v) list" where
  "range_to key m = filter (\<lambda>e. fst e < key) (entries m)"

text \<open>\<open>range(key..).chain(range(..key))\<close>: all positions, clockwise from \<open>key\<close>.\<close>

definition clockwise :: "u64 \<Rightarrow> (u64, 'v) omap \<Rightarrow> (u64 \<times> 'v) list" where
  "clockwise key m = range_from key m @ range_to key m"

abbreviation entry_member :: "u64 \<times> bool \<times> member \<Rightarrow> member" where
  "entry_member e \<equiv> snd (snd e)"

definition managers :: "('h \<Rightarrow> u64) \<Rightarrow> node_ring \<Rightarrow> 'h \<Rightarrow> nat \<Rightarrow> member list" where
  "managers hash r item num = take num (unique (map entry_member (clockwise (hash item) (ring r))))"

definition is_manager :: "(member \<Rightarrow> u64) \<Rightarrow> node_ring \<Rightarrow> member \<Rightarrow> member \<Rightarrow> bool" where
  "is_manager hash r manager target =
     list_ex (\<lambda>e. member_eq (entry_member e) manager)
       (take (rep_factor r) (drop 1 (clockwise (hash target) (ring r))))"

definition contains :: "(member \<Rightarrow> u64) \<Rightarrow> node_ring \<Rightarrow> member \<Rightarrow> bool" where
  "contains hash r m =
     (opt_filter (\<lambda>e. member_eq m (snd e)) (om_get (ring r) (hash m)) \<noteq> None)"

definition node_managers :: "(member \<Rightarrow> u64) \<Rightarrow> node_ring \<Rightarrow> member \<Rightarrow> member list option" where
  "node_managers hash r m =
     (if \<not> contains hash r m then None
      else Some (drop 1 (managers hash r m (rep_factor r + 1))))"

fun vnode_keys :: "(u64 \<Rightarrow> u64) \<Rightarrow> u64 \<Rightarrow> nat \<Rightarrow> u64 list" where
  "vnode_keys wyrng key 0 = []"
| "vnode_keys wyrng key (Suc n) = key # vnode_keys wyrng (wyrng key) n"

text \<open>
  The scan of one span in \<open>charges\<close>: \<open>uniq\<close> is the linked map from members to the flag, \<open>i\<close> counts
  its keys, and a new member after \<open>rep_factor\<close> of them ends the loop.  Only the set of collected
  members is used by the callers, so the position of a re-inserted key is not tracked.
\<close>

fun charge_scan ::
    "nat \<Rightarrow> nat \<Rightarrow> (member \<times> bool) list \<Rightarrow> (u64 \<times> bool \<times> member) list \<Rightarrow> (member \<times> bool) list" where
  "charge_scan rep i uniq [] = uniq"
| "charge_scan rep i uniq ((_, first, mbr) # span) =
     (case map_of uniq mbr of
        Some b \<Rightarrow> charge_scan rep i (AList.update mbr (first \<or> b) uniq) span
      | None \<Rightarrow>
          (if i = rep then uniq
           else charge_scan rep (i + 1) (AList.update mbr first uniq) span))"

definition charges_at :: "node_ring \<Rightarrow> member \<Rightarrow> u64 \<Rightarrow> member list" where
  "charges_at r m key =
     (let span = takeWhile (\<lambda>e. \<not> member_eq (entry_member e) m)
                   (rev (range_to key (ring r)) @ rev (range_from key (ring r)));
          uniq = charge_scan (rep_factor r) 0 [] span
      in map fst (filter snd uniq))"

definition charges ::
    "(member \<Rightarrow> u64) \<Rightarrow> (u64 \<Rightarrow> u64) \<Rightarrow> node_ring \<Rightarrow> member \<Rightarrow> member list option" where
  "charges hash wyrng r m =
     (if \<not> contains hash r m then None
      else Some (concat (map (charges_at r m) (vnode_keys wyrng (hash m) (unat (m_vnodes m))))))"

fun insert_vnodes ::
    "(u64 \<Rightarrow> u64) \<Rightarrow> member \<Rightarrow> nat \<Rightarrow> u64 \<Rightarrow> (u64, bool \<times> member) omap \<Rightarrow> (u64, bool \<times> member) omap" where
  "insert_vnodes wyrng item 0 key m = m"
| "insert_vnodes wyrng item (Suc n) key m =
     (let key' = wyrng key in insert_vnodes wyrng item n key' (om_insert key' (False, item) m))"

definition ring_insert :: "(member \<Rightarrow> u64) \<Rightarrow> (u64 \<Rightarrow> u64) \<Rightarrow> member \<Rightarrow> node_ring \<Rightarrow> node_ring" where
  "ring_insert hash wyrng item r =
     (let key = hash item in
      r\<lparr>ring := insert_vnodes wyrng item (unat (m_vnodes item) - 1) key
                  (om_insert key (True, item) (ring r))\<rparr>)"

fun remove_vnodes ::
    "(u64 \<Rightarrow> u64) \<Rightarrow> nat \<Rightarrow> u64 \<Rightarrow> u32 \<Rightarrow> (u64, 'v) omap \<Rightarrow> u32 \<times> (u64, 'v) omap" where
  "remove_vnodes wyrng 0 key removed m = (removed, m)"
| "remove_vnodes wyrng (Suc n) key removed m =
     remove_vnodes wyrng n (wyrng key)
       (removed + (if om_get m key \<noteq> None then 1 else 0)) (om_remove key m)"

definition ring_remove ::
    "(member \<Rightarrow> u64) \<Rightarrow> (u64 \<Rightarrow> u64) \<Rightarrow> member \<Rightarrow> node_ring \<Rightarrow> (u32 + unit) \<times> node_ring" where
  "ring_remove hash wyrng item r =
     (let res = remove_vnodes wyrng (max 1 (unat (m_vnodes item))) (hash item) 0 (ring r);
          removed = fst res
      in (if removed = m_vnodes item then Inr () else Inl removed, r\<lparr>ring := snd res\<rparr>))"

subsection \<open>Walking the ring\<close>

lemma set_clockwise [simp]: "set (clockwise key m) = set (entries m)"
  by (auto simp: clockwise_def range_from_def range_to_def)

lemma rev_clockwise: "rev (range_to key m) @ rev (range_from key m) = rev (clockwise key m)"
  by (simp add: clockwise_def)

lemma distinct_clockwise: "distinct (map fst (clockwise key m))"
proof -
  have "distinct (map fst (filter p (entries m)))" for p
    using entries_distinct by (rule distinct_map_filter)
  then show ?thesis
    by (auto simp: clockwise_def range_from_def range_to_def)
qed

lemma sorted_filter_cut:
  assumes "sorted_keys es" "\<And>x y. x < y \<Longrightarrow> Q y \<Longrightarrow> Q x"
  shows "filter (\<lambda>e. R (fst e)) es =
     filter (\<lambda>e. R (fst e) \<and> Q (fst e)) es @ filter (\<lambda>e. R (fst e) \<and> \<not> Q (fst e)) es"
  using assms(1)
proof (induction es)
  case Nil
  show ?case by simp
next
  case (Cons e es)
  have "filter (\<lambda>e. R (fst e) \<and> Q (fst e)) es = []" if "\<not> Q (fst e)"
    using Cons.prems that assms(2)[of "fst e"] by (auto simp: filter_empty_conv)
  with Cons show ?case by auto
qed

lemma sorted_filter_split:
  assumes "sorted_keys es" "a \<le> (b :: u64)"
  shows "filter (\<lambda>e. a \<le> fst e) es = filter (\<lambda>e. a \<le> fst e \<and> fst e < b) es @ filter (\<lambda>e. b \<le> fst e) es"
    and "filter (\<lambda>e. fst e < b) es = filter (\<lambda>e. fst e < a) es @ filter (\<lambda>e. a \<le> fst e \<and> fst e < b) es"
proof -
  have "(a \<le> x \<and> \<not> x < b) = (b \<le> x)" "(x < b \<and> x < a) = (x < a)" "(x < b \<and> \<not> x < a) = (a \<le> x \<and> x < b)" for x
    using assms(2) by auto
  then show "filter (\<lambda>e. a \<le> fst e) es = filter (\<lambda>e. a \<le> fst e \<and> fst e < b) es @ filter (\<lambda>e. b \<le> fst e) es"
    and "filter (\<lambda>e. fst e < b) es = filter (\<lambda>e. fst e < a) es @ filter (\<lambda>e. a \<le> fst e \<and> fst e < b) es"
    using sorted_filter_cut[OF assms(1), of "\<lambda>x. x < b" "\<lambda>x. a \<le> x"]
      sorted_filter_cut[OF assms(1), of "\<lambda>x. x < a" "\<lambda>x. x < b"] by simp_all
qed

lemma sorted_filter_from:
  "sorted_keys es \<Longrightarrow> (k, v) \<in> set es \<Longrightarrow> \<exists>rest. filter (\<lambda>e. k \<le> fst e) es = (k, v) # rest"
proof (induction es)
  case Nil
  then show ?case by simp
next
  case (Cons e es)
  show ?case
  proof (cases "e = (k, v)")
    case True
    then show ?thesis by simp
  next
    case False
    with Cons.prems have "(k, v) \<in> set es" by auto
    with Cons.prems have "fst e < k" by force
    then have "\<not> k \<le> fst e" by simp
    with Cons \<open>(k, v) \<in> set es\<close> show ?thesis by simp
  qed
qed

text \<open>Two positions cut the circle into two arcs.\<close>

lemma clockwise_arcs:
  assumes "p \<noteq> k"
  obtains P K where "clockwise p m = P @ K" "clockwise k m = K @ P"
    "\<forall>e \<in> set P. fst e \<noteq> k" "\<forall>e \<in> set K. fst e \<noteq> p"
proof (cases "p < k")
  case True
  show ?thesis
  proof (rule that)
    show "clockwise p m = filter (\<lambda>e. p \<le> fst e \<and> fst e < k) (entries m)
            @ (range_from k m @ range_to p m)"
      using sorted_filter_split(1)[OF entries_sorted, of p k m] True
      by (simp add: clockwise_def range_from_def range_to_def)
    show "clockwise k m = (range_from k m @ range_to p m)
            @ filter (\<lambda>e. p \<le> fst e \<and> fst e < k) (entries m)"
      using sorted_filter_split(2)[OF entries_sorted, of p k m] True
      by (simp add: clockwise_def range_from_def range_to_def)
  qed (use True in \<open>auto simp: range_from_def range_to_def\<close>)
next
  case False
  with assms have lt: "k < p" by simp
  show ?thesis
  proof (rule that)
    show "clockwise p m = (range_from p m @ range_to k m)
            @ filter (\<lambda>e. k \<le> fst e \<and> fst e < p) (entries m)"
      using sorted_filter_split(2)[OF entries_sorted, of k p m] lt
      by (simp add: clockwise_def range_from_def range_to_def)
    show "clockwise k m = filter (\<lambda>e. k \<le> fst e \<and> fst e < p) (entries m)
            @ (range_from p m @ range_to k m)"
      using sorted_filter_split(1)[OF entries_sorted, of k p m] lt
      by (simp add: clockwise_def range_from_def range_to_def)
  qed (use lt in \<open>auto simp: range_from_def range_to_def\<close>)
qed

lemma clockwise_head:
  assumes "om_get m k = Some v"
  obtains rest where "clockwise k m = (k, v) # rest" "\<forall>e \<in> set rest. fst e \<noteq> k"
proof -
  have kin: "(k, v) \<in> set (entries m)" using assms by (simp add: om_in_entries_iff)
  then obtain rest where r: "range_from k m = (k, v) # rest"
    using sorted_filter_from[OF entries_sorted] by (force simp: range_from_def)
  then have "clockwise k m = (k, v) # (rest @ range_to k m)"
    by (simp add: clockwise_def)
  moreover have "\<forall>e \<in> set (rest @ range_to k m). fst e \<noteq> k"
    using distinct_clockwise[of k m] calculation by (auto simp: image_iff)
  ultimately show ?thesis by (rule that)
qed


subsection \<open>Virtual node positions\<close>

definition num_vnodes :: "member \<Rightarrow> nat" where
  "num_vnodes m = max 1 (unat (m_vnodes m))"

definition vnode_key :: "(member \<Rightarrow> u64) \<Rightarrow> (u64 \<Rightarrow> u64) \<Rightarrow> member \<Rightarrow> nat \<Rightarrow> u64" where
  "vnode_key hash wyrng m i = (wyrng ^^ i) (hash m)"

lemma vnode_key_0 [simp]: "vnode_key hash wyrng m 0 = hash m"
  by (simp add: vnode_key_def)

lemma vnode_keys_eq: "vnode_keys wyrng key n = map (\<lambda>i. (wyrng ^^ i) key) [0..<n]"
proof (induction n arbitrary: key)
  case 0
  show ?case by simp
next
  case (Suc n)
  have "map (\<lambda>i. (wyrng ^^ i) key) [0..<Suc n] = key # map (\<lambda>i. (wyrng ^^ Suc i) key) [0..<n]"
    by (simp add: upt_conv_Cons map_Suc_upt[symmetric] comp_def del: upt_Suc funpow.simps)
  with Suc show ?case by (simp add: funpow_swap1)
qed

lemma ex_Suc_shift: "(\<exists>i<Suc n. P i) \<longleftrightarrow> P 0 \<or> (\<exists>i<n. P (Suc i))"
  using less_Suc_eq_0_disj by auto

lemma ex_shift_pred: "(\<exists>i<n - 1. P (Suc i)) \<longleftrightarrow> (\<exists>i. 0 < i \<and> i < max 1 n \<and> P i)"
proof
  assume "\<exists>i<n - 1. P (Suc i)"
  then obtain i where "i < n - 1" "P (Suc i)" by blast
  then show "\<exists>i. 0 < i \<and> i < max 1 n \<and> P i" by (intro exI[of _ "Suc i"]) auto
next
  assume "\<exists>i. 0 < i \<and> i < max 1 n \<and> P i"
  then obtain i where i: "0 < i" "i < max 1 n" "P i" by blast
  then obtain j where "i = Suc j" by (cases i) auto
  with i show "\<exists>i<n - 1. P (Suc i)" by (intro exI[of _ j]) auto
qed

lemma om_get_insert_vnodes:
  "om_get (insert_vnodes wyrng item n key m) k =
     (if \<exists>i<n. (wyrng ^^ Suc i) key = k then Some (False, item) else om_get m k)"
proof (induction n arbitrary: key m)
  case 0
  show ?case by simp
next
  case (Suc n)
  show ?case
    unfolding insert_vnodes.simps Let_def Suc.IH ex_Suc_shift[of n]
    by (auto simp: funpow_swap1)
qed

lemma om_get_ring_insert:
  "om_get (ring (ring_insert hash wyrng item r)) k =
     (if \<exists>i. 0 < i \<and> i < num_vnodes item \<and> vnode_key hash wyrng item i = k then Some (False, item)
      else if k = hash item then Some (True, item)
      else om_get (ring r) k)"
proof -
  have "(\<exists>i < unat (m_vnodes item) - 1. (wyrng ^^ Suc i) (hash item) = k) \<longleftrightarrow>
        (\<exists>i. 0 < i \<and> i < num_vnodes item \<and> vnode_key hash wyrng item i = k)"
    unfolding num_vnodes_def vnode_key_def by (rule ex_shift_pred)
  then show ?thesis
    by (auto simp: ring_insert_def Let_def om_get_insert_vnodes)
qed

lemma rep_factor_ring_insert [simp]: "rep_factor (ring_insert hash wyrng item r) = rep_factor r"
  by (simp add: ring_insert_def Let_def)

lemma om_get_remove_vnodes:
  "om_get (snd (remove_vnodes wyrng n key removed m)) k =
     (if \<exists>i<n. (wyrng ^^ i) key = k then None else om_get m k)"
proof (induction n arbitrary: key removed m)
  case 0
  show ?case by simp
next
  case (Suc n)
  show ?case
    unfolding remove_vnodes.simps Suc.IH ex_Suc_shift[of n] by (auto simp: funpow_swap1)
qed

lemma fst_remove_vnodes:
  assumes "\<forall>i<n. om_get m ((wyrng ^^ i) key) \<noteq> None"
    and "inj_on (\<lambda>i. (wyrng ^^ i) key) {..<n}"
  shows "fst (remove_vnodes wyrng n key removed m) = removed + of_nat n"
  using assms
proof (induction n arbitrary: key removed m)
  case 0
  show ?case by simp
next
  case (Suc n)
  have pres: "om_get m key \<noteq> None" using Suc.prems(1) by (auto dest: spec[of _ 0])
  have sh: "(wyrng ^^ i) (wyrng key) = (wyrng ^^ Suc i) key" for i
    by (simp add: funpow_swap1)
  have ne: "(wyrng ^^ Suc i) key \<noteq> key" if "i < n" for i
    using inj_onD[OF Suc.prems(2), of "Suc i" 0] that by (auto simp del: funpow.simps(2))
  have inj: "inj_on (\<lambda>i. (wyrng ^^ i) (wyrng key)) {..<n}"
    unfolding sh using Suc.prems(2) by (auto simp: inj_on_def simp del: funpow.simps)
  have "\<forall>i<n. om_get (om_remove key m) ((wyrng ^^ i) (wyrng key)) \<noteq> None"
    unfolding sh using Suc.prems(1) ne by (auto simp del: funpow.simps)
  from Suc.IH[OF this inj] pres show ?case by simp
qed

subsection \<open>Well-formed rings\<close>

text \<open>
  The ring of a set of members: exactly the positions of their virtual nodes, the primary one
  flagged.  \<open>no_collisions\<close> is what the sources take for granted of the 64-bit hashes: no two
  virtual nodes of the members share a position, and every member has at least one virtual node.
\<close>

definition no_collisions :: "(member \<Rightarrow> u64) \<Rightarrow> (u64 \<Rightarrow> u64) \<Rightarrow> member set \<Rightarrow> bool" where
  "no_collisions hash wyrng M \<longleftrightarrow>
     (\<forall>m\<in>M. 0 < m_vnodes m) \<and>
     (\<forall>m\<in>M. \<forall>m'\<in>M. \<forall>i<num_vnodes m. \<forall>j<num_vnodes m'.
        vnode_key hash wyrng m i = vnode_key hash wyrng m' j \<longrightarrow> m = m' \<and> i = j)"

definition ring_of :: "(member \<Rightarrow> u64) \<Rightarrow> (u64 \<Rightarrow> u64) \<Rightarrow> member set \<Rightarrow> node_ring \<Rightarrow> bool" where
  "ring_of hash wyrng M r \<longleftrightarrow>
     (\<forall>k b m. om_get (ring r) k = Some (b, m) \<longleftrightarrow>
        m \<in> M \<and> (\<exists>i<num_vnodes m. k = vnode_key hash wyrng m i \<and> b = (i = 0)))"

lemma no_collisions_subset: "no_collisions hash wyrng M \<Longrightarrow> N \<subseteq> M \<Longrightarrow> no_collisions hash wyrng N"
  unfolding no_collisions_def by blast

lemma no_collisionsD:
  assumes "no_collisions hash wyrng M" "m \<in> M" "m' \<in> M" "i < num_vnodes m" "j < num_vnodes m'"
    and "vnode_key hash wyrng m i = vnode_key hash wyrng m' j"
  shows "m = m'" "i = j"
  using assms unfolding no_collisions_def by blast+

lemma num_vnodes_pos [simp]: "0 < num_vnodes m"
  by (simp add: num_vnodes_def)

lemma ring_of_new: "ring_of hash wyrng {} (ring_new rep)"
  by (simp add: ring_of_def ring_new_def)

lemma ring_of_insert:
  assumes "ring_of hash wyrng M r" and nc: "no_collisions hash wyrng (insert x M)"
  shows "ring_of hash wyrng (insert x M) (ring_insert hash wyrng x r)"
  unfolding ring_of_def
proof (intro allI)
  fix k b m
  have r: "om_get (ring r) k = Some (b, m) \<longleftrightarrow>
     m \<in> M \<and> (\<exists>i<num_vnodes m. k = vnode_key hash wyrng m i \<and> b = (i = 0))" for b m
    using assms(1) unfolding ring_of_def by blast
  show "om_get (ring (ring_insert hash wyrng x r)) k = Some (b, m) \<longleftrightarrow>
     m \<in> insert x M \<and> (\<exists>i<num_vnodes m. k = vnode_key hash wyrng m i \<and> b = (i = 0))"
  proof (cases "\<exists>i<num_vnodes x. vnode_key hash wyrng x i = k")
    case True
    then obtain i where i: "i < num_vnodes x" "vnode_key hash wyrng x i = k" by blast
    have get: "om_get (ring (ring_insert hash wyrng x r)) k = Some (i = 0, x)"
    proof (cases "i = 0")
      case True
      have "\<not> (\<exists>j. 0 < j \<and> j < num_vnodes x \<and> vnode_key hash wyrng x j = k)"
        using no_collisionsD(2)[OF nc insertI1 insertI1 i(1)] i True by fastforce
      with i True show ?thesis by (simp add: om_get_ring_insert)
    next
      case False
      with i show ?thesis by (auto simp: om_get_ring_insert)
    qed
    have "(i = 0) = b \<and> x = m" if "m \<in> insert x M" "j < num_vnodes m" "k = vnode_key hash wyrng m j" "b = (j = 0)" for j
      using no_collisionsD[OF nc insertI1 that(1) i(1) that(2)] i(2) that(3,4) by simp
    then show ?thesis
      unfolding get using i by auto
  next
    case False
    have get: "om_get (ring (ring_insert hash wyrng x r)) k = om_get (ring r) k"
    proof -
      have "k \<noteq> hash x" using False num_vnodes_pos[of x] vnode_key_0[of hash wyrng x] by metis
      with False show ?thesis by (auto simp: om_get_ring_insert)
    qed
    show ?thesis
      unfolding get r using False by auto
  qed
qed

lemma ring_of_remove:
  assumes "ring_of hash wyrng M r" and nc: "no_collisions hash wyrng M" and "x \<in> M"
  shows "fst (ring_remove hash wyrng x r) = Inr ()"
    and "ring_of hash wyrng (M - {x}) (snd (ring_remove hash wyrng x r))"
proof -
  have pos: "0 < m_vnodes x" using nc \<open>x \<in> M\<close> by (simp add: no_collisions_def)
  then have u: "0 < unat (m_vnodes x)" by (simp add: word_less_nat_alt)
  then have "num_vnodes x = unat (m_vnodes x)" by (simp add: num_vnodes_def max_def)
  then have nv: "max 1 (unat (m_vnodes x)) = num_vnodes x" "of_nat (num_vnodes x) = m_vnodes x"
    using u by (simp_all add: max_def)
  have r: "om_get (ring r) k = Some (b, m) \<longleftrightarrow>
     m \<in> M \<and> (\<exists>i<num_vnodes m. k = vnode_key hash wyrng m i \<and> b = (i = 0))" for k b m
    using assms(1) unfolding ring_of_def by blast
  have "\<forall>i<num_vnodes x. om_get (ring r) ((wyrng ^^ i) (hash x)) \<noteq> None"
  proof (intro allI impI)
    fix i assume "i < num_vnodes x"
    then have "om_get (ring r) (vnode_key hash wyrng x i) = Some (i = 0, x)"
      using r \<open>x \<in> M\<close> by blast
    then show "om_get (ring r) ((wyrng ^^ i) (hash x)) \<noteq> None" by (simp add: vnode_key_def)
  qed
  moreover have "inj_on (\<lambda>i. (wyrng ^^ i) (hash x)) {..<num_vnodes x}"
    using no_collisionsD(2)[OF nc \<open>x \<in> M\<close> \<open>x \<in> M\<close>] by (auto simp: inj_on_def vnode_key_def)
  ultimately have "fst (remove_vnodes wyrng (num_vnodes x) (hash x) 0 (ring r)) = 0 + of_nat (num_vnodes x)"
    by (rule fst_remove_vnodes)
  then show "fst (ring_remove hash wyrng x r) = Inr ()"
    unfolding ring_remove_def Let_def nv(1) by (simp add: nv(2))
  have get: "om_get (ring (snd (ring_remove hash wyrng x r))) k =
     (if \<exists>i<num_vnodes x. vnode_key hash wyrng x i = k then None else om_get (ring r) k)" for k
    unfolding ring_remove_def Let_def nv(1) by (simp add: om_get_remove_vnodes vnode_key_def)
  show "ring_of hash wyrng (M - {x}) (snd (ring_remove hash wyrng x r))"
    unfolding ring_of_def
  proof (intro allI)
    fix k b m
    show "om_get (ring (snd (ring_remove hash wyrng x r))) k = Some (b, m) \<longleftrightarrow>
       m \<in> M - {x} \<and> (\<exists>i<num_vnodes m. k = vnode_key hash wyrng m i \<and> b = (i = 0))"
      using no_collisionsD(1)[OF nc \<open>x \<in> M\<close>] \<open>x \<in> M\<close>
      unfolding get by (auto simp: r)
  qed
qed

lemma rep_factor_ring_remove [simp]: "rep_factor (snd (ring_remove hash wyrng x r)) = rep_factor r"
  by (simp add: ring_remove_def Let_def)

end
