(* ===== verification/Ring_Monitoring.thy ===== *)
theory Ring_Monitoring
  imports Node_Ring
begin

text \<open>
  What the ring promises the cluster (cluster/node_ring.rs): the managers of a node, the charges of
  a node as the inverse relation, and the interface \<open>monitoring_ring\<close> through which the clients use
  it, interpreted on the model of the ring.
\<close>

subsection \<open>The scan of a span\<close>

lemma span_Cons_iff:
  "(\<exists>a k b. e # es = a @ (k, True, x) # b \<and> Q a) \<longleftrightarrow>
     (\<exists>k. e = (k, True, x) \<and> Q []) \<or> (\<exists>a k b. es = a @ (k, True, x) # b \<and> Q (e # a))"
  by (auto simp: Cons_eq_append_conv)

lemma update_facts:
  assumes "distinct (map fst xs)"
  shows "fst ` set (AList.update k v xs) = insert k (fst ` set xs)"
    "distinct (map fst (AList.update k v xs))"
    "map_of (AList.update k v xs) x = (if x = k then Some v else map_of xs x)"
    "length (AList.update k v xs) = card (insert k (fst ` set xs))"
proof -
  show keys: "fst ` set (AList.update k v xs) = insert k (fst ` set xs)"
    using dom_update[of k v xs] by (simp add: dom_map_of_conv_image_fst)
  show d: "distinct (map fst (AList.update k v xs))"
    using assms by (rule distinct_update)
  show "map_of (AList.update k v xs) x = (if x = k then Some v else map_of xs x)"
    by (simp add: update_conv')
  show "length (AList.update k v xs) = card (insert k (fst ` set xs))"
    using distinct_card[OF d] keys by simp
qed

text \<open>\<open>reaches rep K es x\<close>: the primary position of \<open>x\<close> is met in \<open>es\<close> while at most \<open>rep\<close> members,
  those of \<open>K\<close> included, have been seen.\<close>

definition reaches :: "nat \<Rightarrow> member set \<Rightarrow> (u64 \<times> bool \<times> member) list \<Rightarrow> member \<Rightarrow> bool" where
  "reaches rep K es x \<longleftrightarrow>
     (\<exists>a k b. es = a @ (k, True, x) # b \<and> card (K \<union> entry_member ` set a \<union> {x}) \<le> rep)"

lemma reaches_Nil [simp]: "\<not> reaches rep K [] x"
  by (simp add: reaches_def)

lemma reaches_Cons:
  "reaches rep K ((k, f, y) # es) x \<longleftrightarrow>
     f \<and> x = y \<and> card (insert x K) \<le> rep \<or> reaches rep (insert y K) es x"
  unfolding reaches_def span_Cons_iff by auto

lemma reaches_card:
  assumes "reaches rep K es x" "finite K"
  shows "card K \<le> rep"
proof -
  obtain a where "card (K \<union> entry_member ` set a \<union> {x}) \<le> rep"
    using assms(1) by (auto simp: reaches_def)
  moreover have "card K \<le> card (K \<union> entry_member ` set a \<union> {x})"
    by (rule card_mono) (use assms(2) in auto)
  ultimately show ?thesis by simp
qed

lemma charge_scan_flag:
  assumes "distinct (map fst uniq)" "length uniq = i" "i \<le> rep"
  shows "distinct (map fst (charge_scan rep i uniq es)) \<and>
    (map_of (charge_scan rep i uniq es) x = Some True \<longleftrightarrow>
       map_of uniq x = Some True \<or> reaches rep (fst ` set uniq) es x)"
  using assms
proof (induction rep i uniq es rule: charge_scan.induct)
  case (1 rep i uniq)
  then show ?case by simp
next
  case (2 rep i uniq k0 first mbr span)
  let ?K = "fst ` set uniq"
  have cardK: "card ?K = i"
    using "2.prems"(1,2) distinct_card[of "map fst uniq"] by simp
  note up = update_facts[OF "2.prems"(1)]
  show ?case
  proof (cases "map_of uniq mbr")
    case (Some f)
    then have "mbr \<in> ?K" by (metis dom_map_of_conv_image_fst domI)
    then have ins: "insert mbr ?K = ?K" by auto
    show ?thesis
      using "2.IH"(2)[OF Some up(2) _ "2.prems"(3)] Some cardK "2.prems"(3) ins
      by (auto simp: up reaches_Cons)
  next
    case None
    then have nK: "mbr \<notin> ?K" by (simp add: map_of_eq_None_iff)
    then have c: "card (insert mbr ?K) = i + 1" using cardK by simp
    show ?thesis
    proof (cases "i = rep")
      case True
      then have "\<not> reaches rep ?K ((k0, first, mbr) # span) x"
        using c reaches_card[of rep "insert mbr ?K" span x] by (auto simp: reaches_Cons)
      with True None "2.prems" show ?thesis by simp
    next
      case False
      then have "i + 1 \<le> rep" using "2.prems"(3) by simp
      with "2.IH"(1)[OF None False up(2)] None False c show ?thesis
        by (auto simp: up reaches_Cons)
    qed
  qed
qed

lemma flagged_iff: "x \<in> set (map fst (filter snd u)) \<longleftrightarrow> (x, True) \<in> set u"
  by force

lemma set_charges_at:
  "x \<in> set (charges_at r m key) \<longleftrightarrow>
     reaches (rep_factor r) {} (takeWhile (\<lambda>e. entry_member e \<noteq> m) (rev (clockwise key (ring r)))) x"
proof -
  let ?s = "takeWhile (\<lambda>e. entry_member e \<noteq> m) (rev (clockwise key (ring r)))"
  let ?c = "charge_scan (rep_factor r) 0 [] ?s"
  have f: "distinct (map fst ?c)" "map_of ?c x = Some True \<longleftrightarrow> reaches (rep_factor r) {} ?s x"
    using charge_scan_flag[of "[]" 0 "rep_factor r" ?s x] by simp_all
  have "x \<in> set (charges_at r m key) \<longleftrightarrow> (x, True) \<in> set ?c"
    unfolding charges_at_def Let_def rev_clockwise member_eq_iff by (rule flagged_iff)
  also have "\<dots> \<longleftrightarrow> map_of ?c x = Some True"
    by (rule map_of_eq_Some_iff[OF f(1), symmetric])
  also note f(2)
  finally show ?thesis .
qed

subsection \<open>Managers and charges are inverse\<close>

lemma ring_of_get:
  assumes "ring_of hash wyrng M r" "m \<in> M" "i < num_vnodes m"
  shows "om_get (ring r) (vnode_key hash wyrng m i) = Some (i = 0, m)"
  using assms unfolding ring_of_def by blast

lemma ring_ofD:
  assumes "ring_of hash wyrng M r" "om_get (ring r) k = Some (b, m)"
  shows "m \<in> M" "\<exists>i<num_vnodes m. k = vnode_key hash wyrng m i \<and> b = (i = 0)"
  using assms unfolding ring_of_def by simp_all

lemma ring_of_primary:
  assumes "ring_of hash wyrng M r" "om_get (ring r) k = Some (True, m)"
  shows "k = hash m"
  using ring_ofD(2)[OF assms] by auto

lemma ring_of_contains: "ring_of hash wyrng M r \<Longrightarrow> contains hash r m \<longleftrightarrow> m \<in> M"
proof
  assume "ring_of hash wyrng M r" "m \<in> M"
  from ring_of_get[OF this num_vnodes_pos] show "contains hash r m"
    by (simp add: contains_def)
next
  assume r: "ring_of hash wyrng M r" and "contains hash r m"
  then obtain e where "om_get (ring r) (hash m) = Some e" "snd e = m"
    by (cases "om_get (ring r) (hash m)") (simp_all add: contains_def split: if_splits)
  then have "om_get (ring r) (hash m) = Some (fst e, m)" by (cases e) simp
  then show "m \<in> M" by (rule ring_ofD(1)[OF r])
qed

lemma ring_of_members: "ring_of hash wyrng M r \<Longrightarrow> entry_member ` set (clockwise k (ring r)) = M"
proof
  assume r: "ring_of hash wyrng M r"
  show "entry_member ` set (clockwise k (ring r)) \<subseteq> M"
    using r by (auto simp: ring_of_def om_in_entries_iff)
  show "M \<subseteq> entry_member ` set (clockwise k (ring r))"
  proof
    fix m assume "m \<in> M"
    then have "(vnode_key hash wyrng m 0, True, m) \<in> set (entries (ring r))"
      using ring_of_get[OF r _ num_vnodes_pos, of m] by (simp add: om_in_entries_iff)
    then show "m \<in> entry_member ` set (clockwise k (ring r))" by force
  qed
qed

lemma ring_of_finite: "ring_of hash wyrng M r \<Longrightarrow> finite M"
  using ring_of_members by (metis finite_imageI finite_set)

lemma node_managers_eq:
  assumes "ring_of hash wyrng M r" "c \<in> M"
  shows "node_managers hash r c =
    Some (take (rep_factor r) (unique_seen {c} (map entry_member (tl (clockwise (hash c) (ring r))))))"
proof -
  have "om_get (ring r) (hash c) = Some (True, c)"
    using ring_of_get[OF assms num_vnodes_pos] by simp
  then obtain rest where "clockwise (hash c) (ring r) = (hash c, True, c) # rest"
    by (rule clockwise_head)
  with assms show ?thesis
    by (simp add: node_managers_def ring_of_contains managers_def unique_Cons)
qed

lemma node_managers_mem_unique:
  assumes "ring_of hash wyrng M r" "c \<in> M"
  shows "m \<in> set (the (node_managers hash r c)) \<longleftrightarrow>
     m \<noteq> c \<and> m \<in> set (take (Suc (rep_factor r)) (unique (map entry_member (clockwise (hash c) (ring r)))))"
proof -
  have "om_get (ring r) (hash c) = Some (True, c)"
    using ring_of_get[OF assms num_vnodes_pos] by simp
  then obtain rest where cw: "clockwise (hash c) (ring r) = (hash c, True, c) # rest"
    by (rule clockwise_head)
  have "c \<notin> set (unique_seen {c} (map entry_member rest))"
    by (simp add: set_unique_seen)
  then have "c \<notin> set (take (rep_factor r) (unique_seen {c} (map entry_member rest)))"
    by (meson in_set_takeD)
  then show ?thesis
    by (auto simp: node_managers_eq[OF assms] cw unique_Cons)
qed


text \<open>
  The arc from the primary position \<open>p\<close> of \<open>c\<close> to a position \<open>k\<close> of \<open>m\<close> decides both relations: no
  other virtual node of \<open>m\<close> on it, and at most \<open>rep_factor\<close> distinct members.
\<close>

definition arc :: "node_ring \<Rightarrow> u64 \<Rightarrow> u64 \<Rightarrow> (u64 \<times> bool \<times> member) list" where
  "arc r p k = takeWhile (\<lambda>e. fst e \<noteq> k) (clockwise p (ring r))"

definition good_arc :: "node_ring \<Rightarrow> member \<Rightarrow> u64 \<Rightarrow> u64 \<Rightarrow> bool" where
  "good_arc r m p k \<longleftrightarrow>
     m \<notin> entry_member ` set (arc r p k) \<and> card (entry_member ` set (arc r p k)) \<le> rep_factor r"

lemma arc_split:
  assumes p: "om_get (ring r) p = Some v" and k: "om_get (ring r) k = Some w" and ne: "p \<noteq> k"
  obtains P K where "arc r p k = (p, v) # P" "clockwise p (ring r) = (p, v) # P @ (k, w) # K"
    "clockwise k (ring r) = (k, w) # K @ (p, v) # P"
    "p \<notin> fst ` set P" "p \<notin> fst ` set K" "k \<notin> fst ` set P"
proof -
  obtain A B where AB: "clockwise p (ring r) = A @ B" "clockwise k (ring r) = B @ A"
    and nA: "\<forall>e\<in>set A. fst e \<noteq> k" and nB: "\<forall>e\<in>set B. fst e \<noteq> p"
    by (rule clockwise_arcs[OF ne])
  obtain s where hp: "clockwise p (ring r) = (p, v) # s" and ns: "\<forall>e\<in>set s. fst e \<noteq> p"
    by (rule clockwise_head[OF p])
  obtain t where hk: "clockwise k (ring r) = (k, w) # t"
    by (rule clockwise_head[OF k])
  obtain P where P: "A = (p, v) # P" using hp AB(1) nB by (cases A) auto
  obtain K where K: "B = (k, w) # K" using hk AB(2) nA by (cases B) auto
  have "arc r p k = A"
    unfolding arc_def AB(1) K by (subst takeWhile_append2) (use nA in auto)
  then show ?thesis
    using that[of P K] AB P K nA nB ns hp by auto
qed

lemma charges_at_good_arc:
  assumes r: "ring_of hash wyrng M r" and c: "c \<in> M" and k: "om_get (ring r) k = Some (b, m)"
    and mc: "m \<noteq> c"
  shows "c \<in> set (charges_at r m k) \<longleftrightarrow> good_arc r m (hash c) k"
proof -
  let ?p = "hash c" let ?e = "(hash c, True, c)"
  have p: "om_get (ring r) ?p = Some (True, c)"
    using ring_of_get[OF r c num_vnodes_pos] by simp
  with k mc have ne: "?p \<noteq> k" by auto
  obtain P K where arc: "arc r ?p k = ?e # P" and cw: "clockwise ?p (ring r) = ?e # P @ (k, b, m) # K"
      "clockwise k (ring r) = (k, b, m) # K @ ?e # P"
    and nP: "?p \<notin> fst ` set P" and nK: "?p \<notin> fst ` set K"
    by (rule arc_split[OF p k ne])
  let ?R = "rev P @ ?e # rev K @ [(k, b, m)]"
  let ?s = "takeWhile (\<lambda>e. entry_member e \<noteq> m) ?R"
  have nR: "?e \<notin> set (rev P)" "?e \<notin> set (rev K @ [(k, b, m)])"
    using nP nK ne by force+
  have "reaches (rep_factor r) {} ?s c \<longleftrightarrow> good_arc r m ?p k"
  proof
    assume "reaches (rep_factor r) {} ?s c"
    then obtain a k' d where s: "?s = a @ (k', True, c) # d"
      and cd: "card (entry_member ` set a \<union> {c}) \<le> rep_factor r" by (auto simp: reaches_def)
    have inR: "(k', True, c) \<in> set ?R" using s by (metis in_set_conv_decomp set_takeWhileD)
    have "set ?R = set (entries (ring r))" using cw(1) set_clockwise[of ?p "ring r"] by auto
    with inR have "om_get (ring r) k' = Some (True, c)" by (simp only: om_in_entries_iff[symmetric])
    then have k': "k' = ?p" by (rule ring_of_primary[OF r])
    obtain D where R: "?R = a @ ?e # D"
      using takeWhile_dropWhile_id[of "\<lambda>e. entry_member e \<noteq> m" ?R] s k' by (metis append_Cons append_assoc)
    have "distinct (map fst ?R)"
      using distinct_clockwise[of ?p "ring r"] unfolding cw(1) by (auto simp: rev_map[symmetric])
    then have "?e \<notin> set a" unfolding R by (auto simp: image_iff)
    then have a: "a = rev P" using append_Cons_unique[OF R nR(1)] by simp
    have "\<forall>e\<in>set ?s. entry_member e \<noteq> m"
      by (rule ballI) (erule set_takeWhileD[THEN conjunct2])
    then have "\<forall>e\<in>set a. entry_member e \<noteq> m" unfolding s by simp
    with a cd mc show "good_arc r m ?p k" by (auto simp: good_arc_def arc)
  next
    assume g: "good_arc r m ?p k"
    then have "?s = rev P @ ?e # takeWhile (\<lambda>e. entry_member e \<noteq> m) (rev K @ [(k, b, m)])"
      using mc by (subst takeWhile_append2) (auto simp: good_arc_def arc)
    moreover have "card (entry_member ` set (rev P) \<union> {c}) \<le> rep_factor r"
      using g by (simp add: good_arc_def arc)
    ultimately show "reaches (rep_factor r) {} ?s c"
      unfolding reaches_def by (metis Un_empty_left)
  qed
  then show ?thesis unfolding set_charges_at cw(2) by simp
qed

lemma node_managers_good_arc:
  assumes r: "ring_of hash wyrng M r" and c: "c \<in> M" and mM: "m \<in> M" and mc: "m \<noteq> c"
  shows "m \<in> set (the (node_managers hash r c)) \<longleftrightarrow>
     (\<exists>i<num_vnodes m. good_arc r m (hash c) (vnode_key hash wyrng m i))"
proof -
  let ?p = "hash c"
  let ?L = "clockwise ?p (ring r)"
  have p: "om_get (ring r) ?p = Some (True, c)"
    using ring_of_get[OF r c num_vnodes_pos] by simp
  have key: "om_get (ring r) (vnode_key hash wyrng m i) = Some (i = 0, m)" if "i < num_vnodes m" for i
    by (rule ring_of_get[OF r mM that])
  have "m \<in> set (the (node_managers hash r c)) \<longleftrightarrow>
      m \<in> set (take (Suc (rep_factor r)) (unique (map entry_member ?L)))"
    using node_managers_mem_unique[OF r c] mc by simp
  also have "\<dots> \<longleftrightarrow> (\<exists>i<num_vnodes m. good_arc r m ?p (vnode_key hash wyrng m i))"
  proof
    assume "\<exists>i<num_vnodes m. good_arc r m ?p (vnode_key hash wyrng m i)"
    then obtain i where i: "i < num_vnodes m" and g: "good_arc r m ?p (vnode_key hash wyrng m i)" by blast
    let ?k = "vnode_key hash wyrng m i"
    have ne: "?p \<noteq> ?k" using p key[OF i] mc by auto
    obtain P K where arc: "arc r ?p ?k = (?p, True, c) # P"
      and L: "?L = (?p, True, c) # P @ (?k, i = 0, m) # K"
      by (rule arc_split[OF p key[OF i] ne])
    have "m \<in> set (take (Suc (rep_factor r)) (unique (map entry_member (arc r ?p ?k) @ m # map entry_member K)))"
      by (subst take_unique_iff) (use g in \<open>auto simp: good_arc_def\<close>)
    then show "m \<in> set (take (Suc (rep_factor r)) (unique (map entry_member ?L)))"
      by (simp add: L arc)
  next
    assume mem: "m \<in> set (take (Suc (rep_factor r)) (unique (map entry_member ?L)))"
    then have "m \<in> set (map entry_member ?L)" using in_set_takeD[of m] set_unique by metis
    then obtain ys zs where sp: "map entry_member ?L = ys @ m # zs" "m \<notin> set ys"
      by (meson split_list_first)
    then obtain Y k b Z where L: "?L = Y @ (k, b, m) # Z" and ys: "ys = map entry_member Y"
      by (auto simp: map_eq_append_conv)
    have "om_get (ring r) k = Some (b, m)"
      using L set_clockwise[of ?p "ring r"] by (auto simp: om_in_entries_iff[symmetric])
    then obtain i where i: "i < num_vnodes m" "k = vnode_key hash wyrng m i"
      using ring_ofD(2)[OF r] by blast
    have "\<forall>e\<in>set Y. fst e \<noteq> k" using distinct_clockwise[of ?p "ring r"] L by (auto simp: image_iff)
    then have "arc r ?p k = Y" unfolding arc_def L by (subst takeWhile_append2) auto
    moreover have "card (set ys) < Suc (rep_factor r)"
      using mem take_unique_iff[OF sp(2)] by (simp add: sp(1))
    ultimately have "good_arc r m ?p k" using sp(2) by (auto simp: good_arc_def ys)
    with i show "\<exists>i<num_vnodes m. good_arc r m ?p (vnode_key hash wyrng m i)" by blast
  qed
  finally show ?thesis .
qed


lemma set_charges:
  assumes r: "ring_of hash wyrng M r" and nc: "no_collisions hash wyrng M" and mM: "m \<in> M"
  shows "c \<in> set (the (charges hash wyrng r m)) \<longleftrightarrow>
     (\<exists>i<num_vnodes m. c \<in> set (charges_at r m (vnode_key hash wyrng m i)))"
proof -
  have "0 < m_vnodes m" using nc mM by (simp add: no_collisions_def)
  then have "num_vnodes m = unat (m_vnodes m)" by (simp add: num_vnodes_def max_def word_less_nat_alt)
  then show ?thesis
    using mM by (auto simp: charges_def ring_of_contains[OF r] vnode_keys_eq vnode_key_def)
qed

lemma charges_at_subset: "x \<in> set (charges_at r m key) \<Longrightarrow> x \<noteq> m \<and> (\<exists>k. (k, True, x) \<in> set (entries (ring r)))"
proof -
  assume "x \<in> set (charges_at r m key)"
  then obtain a k b where "takeWhile (\<lambda>e. entry_member e \<noteq> m) (rev (clockwise key (ring r))) = a @ (k, True, x) # b"
    unfolding set_charges_at reaches_def by blast
  then have "(k, True, x) \<in> set (takeWhile (\<lambda>e. entry_member e \<noteq> m) (rev (clockwise key (ring r))))"
    by simp
  from set_takeWhileD[OF this] show ?thesis by auto
qed

lemma charges_inverse_raw:
  assumes r: "ring_of hash wyrng M r" and nc: "no_collisions hash wyrng M"
    and mM: "m \<in> M" and cM: "c \<in> M"
  shows "c \<in> set (the (charges hash wyrng r m)) \<longleftrightarrow> m \<in> set (the (node_managers hash r c))"
proof (cases "m = c")
  case True
  then show ?thesis
    using charges_at_subset set_charges[OF r nc mM] node_managers_mem_unique[OF r cM] by blast
next
  case False
  have "c \<in> set (charges_at r m (vnode_key hash wyrng m i)) \<longleftrightarrow>
      good_arc r m (hash c) (vnode_key hash wyrng m i)" if "i < num_vnodes m" for i
    by (rule charges_at_good_arc[OF r cM ring_of_get[OF r mM that] False])
  then show ?thesis
    unfolding set_charges[OF r nc mM] node_managers_good_arc[OF r cM mM False] by auto
qed

subsection \<open>The managers of a node\<close>

text \<open>
  Fact.  The managers of a member: it exists in the ring, so there is an answer; the managers
  are distinct, are other members, and there are \<open>rep_factor\<close> of them, or all the other members
  where the cluster is smaller.
\<close>

theorem node_managers_spec:
  assumes r: "ring_of hash wyrng M r" and c: "c \<in> M"
  shows "\<exists>ms. node_managers hash r c = Some ms \<and> distinct ms \<and> set ms \<subseteq> M - {c} \<and>
     length ms = min (rep_factor r) (card M - 1)"
proof -
  let ?L = "map entry_member (tl (clockwise (hash c) (ring r)))"
  have "om_get (ring r) (hash c) = Some (True, c)"
    using ring_of_get[OF r c num_vnodes_pos] by simp
  then obtain rest where cw: "clockwise (hash c) (ring r) = (hash c, True, c) # rest"
    by (rule clockwise_head)
  have "insert c (set ?L) = M" using ring_of_members[OF r, of "hash c"] by (simp add: cw)
  then have sU: "set (unique_seen {c} ?L) = M - {c}" by (auto simp: set_unique_seen)
  then have "length (unique_seen {c} ?L) = card M - 1"
    using distinct_card[OF distinct_unique_seen[of "{c}" ?L]] c ring_of_finite[OF r]
    by (simp add: card_Diff_singleton)
  moreover have "set (take (rep_factor r) (unique_seen {c} ?L)) \<subseteq> M - {c}"
    unfolding sU[symmetric] by (rule set_take_subset)
  ultimately show ?thesis
    unfolding node_managers_eq[OF r c] by (simp add: distinct_unique_seen min.commute)
qed

lemma ring_of_eqI:
  assumes "ring_of hash wyrng M r" "ring_of hash wyrng M r'" "rep_factor r = rep_factor r'"
  shows "r = r'"
proof -
  have "om_get (ring r) k = om_get (ring r') k" for k
  proof (rule option.expand)
    have "(om_get (ring r) k = Some v) = (om_get (ring r') k = Some v)" for v
      using assms(1,2) unfolding ring_of_def by (cases v) simp
    then show "(om_get (ring r) k = None) = (om_get (ring r') k = None)"
      by (metis not_None_eq)
    fix x y
    show "om_get (ring r) k \<noteq> None \<Longrightarrow> om_get (ring r') k \<noteq> None \<Longrightarrow> the (om_get (ring r) k) = the (om_get (ring r') k)"
      using \<open>\<And>v. (om_get (ring r) k = Some v) = (om_get (ring r') k = Some v)\<close> by force
  qed
  then have "ring r = ring r'" by (rule om_eqI)
  with assms(3) show ?thesis by simp
qed

text \<open>
  Fact.  A ring is determined by its members and the replication factor: two nodes that agree
  on the members hold the same ring, in whatever order they inserted and removed them.
\<close>

theorem ring_of_unique:
  assumes "ring_of hash wyrng M r" "ring_of hash wyrng M r'" "rep_factor r = rep_factor r'"
  shows "r = r'"
  using assms by (rule ring_of_eqI)


subsection \<open>The interface of the ring\<close>

text \<open>
  The operations through which the cluster actor and the device server use a ring, with the laws
  they rely on.  \<open>rings M r\<close> says that \<open>r\<close> is the ring of the members \<open>M\<close>, \<open>safe M\<close> that the hashes
  of \<open>M\<close> do not collide.
\<close>

locale monitoring_ring =
  fixes new_ring :: 'r
    and insert_member :: "member \<Rightarrow> 'r \<Rightarrow> 'r"
    and remove_member :: "member \<Rightarrow> 'r \<Rightarrow> (u32 + unit) \<times> 'r"
    and managers_of :: "'r \<Rightarrow> member \<Rightarrow> member list option"
    and charges_of :: "'r \<Rightarrow> member \<Rightarrow> member list option"
    and rings :: "member set \<Rightarrow> 'r \<Rightarrow> bool"
    and safe :: "member set \<Rightarrow> bool"
  assumes new_rings: "rings {} new_ring"
    and insert_rings: "rings M r \<Longrightarrow> safe (insert m M) \<Longrightarrow> rings (insert m M) (insert_member m r)"
    and remove_ok: "rings M r \<Longrightarrow> safe M \<Longrightarrow> m \<in> M \<Longrightarrow> fst (remove_member m r) = Inr ()"
    and remove_rings: "rings M r \<Longrightarrow> safe M \<Longrightarrow> m \<in> M \<Longrightarrow> rings (M - {m}) (snd (remove_member m r))"
    and managers_some: "rings M r \<Longrightarrow> m \<in> M \<Longrightarrow> managers_of r m \<noteq> None"
    and charges_some: "rings M r \<Longrightarrow> m \<in> M \<Longrightarrow> charges_of r m \<noteq> None"
    and charges_inverse: "rings M r \<Longrightarrow> safe M \<Longrightarrow> m \<in> M \<Longrightarrow> c \<in> M \<Longrightarrow>
      c \<in> set (the (charges_of r m)) \<longleftrightarrow> m \<in> set (the (managers_of r c))"
    and managers_others: "rings M r \<Longrightarrow> m \<in> M \<Longrightarrow> set (the (managers_of r m)) \<subseteq> M - {m}"
    and charges_members: "rings M r \<Longrightarrow> m \<in> M \<Longrightarrow> set (the (charges_of r m)) \<subseteq> M - {m}"
    and charges_distinct: "rings M r \<Longrightarrow> safe M \<Longrightarrow> m \<in> M \<Longrightarrow> distinct (the (charges_of r m))"
    and safe_subset: "safe M \<Longrightarrow> N \<subseteq> M \<Longrightarrow> safe N"
begin

text \<open>Building a ring from the members of a collection, as the cluster does when it joins.\<close>

lemma fold_insert_rings:
  "rings M r \<Longrightarrow> safe (M \<union> set ms) \<Longrightarrow> rings (M \<union> set ms) (fold insert_member ms r)"
proof (induction ms arbitrary: M r)
  case Nil
  then show ?case by simp
next
  case (Cons m ms)
  have "safe (insert m M)" using Cons.prems(2) by (rule safe_subset) auto
  with Cons.prems(1) have "rings (insert m M) (insert_member m r)" by (rule insert_rings)
  moreover have "safe (insert m M \<union> set ms)" using Cons.prems(2) by simp
  ultimately show ?case using Cons.IH by fastforce
qed

lemma fold_insert_new_rings: "safe (set ms) \<Longrightarrow> rings (set ms) (fold insert_member ms new_ring)"
  using fold_insert_rings[OF new_rings, of ms] by simp

end

lemma charges_subset:
  assumes r: "ring_of hash wyrng M r" and m: "m \<in> M"
  shows "set (the (charges hash wyrng r m)) \<subseteq> M - {m}"
proof
  fix x assume "x \<in> set (the (charges hash wyrng r m))"
  then obtain k where "x \<in> set (charges_at r m k)"
    using m by (auto simp: charges_def ring_of_contains[OF r])
  from charges_at_subset[OF this] obtain k where "x \<noteq> m" "(k, True, x) \<in> set (entries (ring r))" by blast
  with ring_ofD(1)[OF r] show "x \<in> M - {m}" by (auto simp: om_in_entries_iff)
qed

lemma good_arc_unique:
  assumes r: "ring_of hash wyrng M r" and p: "om_get (ring r) p = Some (True, c)"
    and k: "om_get (ring r) k = Some (b, m)" "om_get (ring r) k' = Some (b', m)"
    and g: "good_arc r m p k" "good_arc r m p k'"
  shows "k = k'"
proof (rule ccontr)
  assume ne: "k \<noteq> k'"
  let ?L = "clockwise p (ring r)"
  have key: "(k, b, m) \<in> set ?L" "(k', b', m) \<in> set ?L"
    using k by (simp_all add: om_in_entries_iff)
  have no: "\<not> (\<exists>e \<in> set (takeWhile (\<lambda>e. fst e \<noteq> j) ?L). entry_member e = m)" if "good_arc r m p j" for j
    using that by (auto simp: good_arc_def arc_def)
  obtain A B where AB: "?L = A @ (k, b, m) # B" using key(1) by (meson split_list)
  have "fst ` set (A @ (k, b, m) # B) \<subseteq> fst ` set ?L" using AB by simp
  have nA: "\<forall>e\<in>set A. fst e \<noteq> k" using distinct_clockwise[of p "ring r"] unfolding AB by (auto simp: image_iff)
  then have tk: "takeWhile (\<lambda>e. fst e \<noteq> k) ?L = A" unfolding AB by (subst takeWhile_append2) auto
  have "(k', b', m) \<notin> set A" using no[OF g(1)] unfolding tk by force
  then have "\<forall>e\<in>set A. fst e \<noteq> k'"
    using key(2) distinct_clockwise[of p "ring r"] ne unfolding AB by (force simp: image_iff)
  then have "(k, b, m) \<in> set (takeWhile (\<lambda>e. fst e \<noteq> k') ?L)"
    using ne unfolding AB by (subst takeWhile_append2) auto
  with no[OF g(2)] show False by force
qed

lemma distinct_concat_map:
  "distinct ks \<Longrightarrow> (\<And>k. k \<in> set ks \<Longrightarrow> distinct (f k)) \<Longrightarrow>
   (\<And>k k' x. k \<in> set ks \<Longrightarrow> k' \<in> set ks \<Longrightarrow> x \<in> set (f k) \<Longrightarrow> x \<in> set (f k') \<Longrightarrow> k = k') \<Longrightarrow>
   distinct (concat (map f ks))"
proof (induction ks)
  case Nil
  then show ?case by simp
next
  case (Cons k ks)
  have "distinct (concat (map f ks))" by (rule Cons.IH) (use Cons.prems in auto)
  moreover have "set (f k) \<inter> set (f k') = {}" if "k' \<in> set ks" for k'
    using Cons.prems(1) Cons.prems(3)[of k k'] that by auto
  ultimately show ?case using Cons.prems(2)[of k] by auto
qed

lemma distinct_charges_at: "distinct (charges_at r m key)"
  unfolding charges_at_def Let_def rev_clockwise
  by (intro distinct_map_filter) (use charge_scan_flag[of "[]" 0 "rep_factor r"] in simp)

lemma charges_distinct_raw:
  assumes r: "ring_of hash wyrng M r" and nc: "no_collisions hash wyrng M" and mM: "m \<in> M"
  shows "distinct (the (charges hash wyrng r m))"
proof -
  have "0 < m_vnodes m" using nc mM by (simp add: no_collisions_def)
  then have n: "unat (m_vnodes m) = num_vnodes m" by (simp add: num_vnodes_def max_def word_less_nat_alt)
  let ?ks = "map (vnode_key hash wyrng m) [0..<num_vnodes m]"
  have "distinct (concat (map (charges_at r m) ?ks))"
  proof (rule distinct_concat_map)
    show "distinct ?ks"
      using no_collisionsD(2)[OF nc mM mM] by (auto simp: distinct_map inj_on_def)
  next
    fix k k' x
    assume k: "k \<in> set ?ks" "k' \<in> set ?ks" and x: "x \<in> set (charges_at r m k)" "x \<in> set (charges_at r m k')"
    then obtain i j where i: "i < num_vnodes m" "k = vnode_key hash wyrng m i"
      and j: "j < num_vnodes m" "k' = vnode_key hash wyrng m j" by auto
    obtain q where xm: "x \<noteq> m" and q: "om_get (ring r) q = Some (True, x)"
      using charges_at_subset[OF x(1)] by (auto simp: om_in_entries_iff)
    have xM: "x \<in> M" by (rule ring_ofD(1)[OF r q])
    note kk = ring_of_get[OF r mM i(1)] ring_of_get[OF r mM j(1)]
    have "good_arc r m (hash x) (vnode_key hash wyrng m i)" "good_arc r m (hash x) (vnode_key hash wyrng m j)"
      using charges_at_good_arc[OF r xM kk(1)] charges_at_good_arc[OF r xM kk(2)] xm x i j by auto
    from good_arc_unique[OF r _ kk this, of x] show "k = k'"
      using ring_of_get[OF r xM num_vnodes_pos] i j by simp
  qed (rule distinct_charges_at)
  then show ?thesis
    using mM by (simp add: charges_def ring_of_contains[OF r] vnode_keys_eq n vnode_key_def[abs_def] comp_def)
qed

interpretation node_ring: monitoring_ring "ring_new rep" "ring_insert hash wyrng" "ring_remove hash wyrng"
    "node_managers hash" "charges hash wyrng" "ring_of hash wyrng" "no_collisions hash wyrng"
  for rep hash wyrng
proof
  show "ring_of hash wyrng {} (ring_new rep)" by (rule ring_of_new)
next
  fix M :: "member set" and r m
  assume r: "ring_of hash wyrng M r" and m: "m \<in> M"
  show "node_managers hash r m \<noteq> None" "charges hash wyrng r m \<noteq> None"
    using m by (auto simp: node_managers_def charges_def ring_of_contains[OF r])
  show "set (the (node_managers hash r m)) \<subseteq> M - {m}"
  proof
    fix x assume "x \<in> set (the (node_managers hash r m))"
    then have "x \<noteq> m" "x \<in> set (unique (map entry_member (clockwise (hash m) (ring r))))"
      using node_managers_mem_unique[OF r m] by (blast, metis in_set_takeD)
    then show "x \<in> M - {m}" using ring_of_members[OF r, of "hash m"] by auto
  qed
  show "set (the (charges hash wyrng r m)) \<subseteq> M - {m}" by (rule charges_subset[OF r m])
qed (rule ring_of_insert ring_of_remove no_collisions_subset charges_inverse_raw charges_distinct_raw; assumption)+

text \<open>Two nodes monitor each other.\<close>

lemma two_member_ring:
  assumes r: "ring_of hash wyrng {x, y} r" and nc: "no_collisions hash wyrng {x, y}" and ne: "x \<noteq> y" and rep: "1 \<le> rep_factor r"
  shows "node_managers hash r x = Some [y]" and "charges hash wyrng r x = Some [y]"
proof -
  have one: "zs = [c]" if "distinct zs" "set zs \<subseteq> {c}" "zs \<noteq> []" for zs and c :: member
    using that by (cases zs) (auto simp: subset_singleton_iff)
  have m: "node_managers hash r u = Some [v]" if uv: "{u, v} = {x, y}" "u \<noteq> v" for u v
  proof -
    have "u \<in> {x, y}" "card {x, y} = 2" "{x, y} - {u} = {v}" using uv ne by auto
    with node_managers_spec[OF r this(1)] rep obtain ms where
      "node_managers hash r u = Some ms" "distinct ms" "set ms \<subseteq> {v}" "length ms = 1" by auto
    moreover from this have "ms = [v]" by (intro one) auto
    ultimately show ?thesis by simp
  qed
  show "node_managers hash r x = Some [y]" by (rule m) (use ne in auto)
  have my: "node_managers hash r y = Some [x]" by (rule m) (use ne in auto)
  have xM: "x \<in> {x, y}" "y \<in> {x, y}" by auto
  obtain cs where cs: "charges hash wyrng r x = Some cs"
    using ring_of_contains[OF r, of x] by (auto simp: charges_def)
  have "distinct cs" using charges_distinct_raw[OF r nc xM(1)] cs by simp
  moreover have "set cs \<subseteq> {y}" using charges_subset[OF r xM(1)] cs by auto
  moreover have "y \<in> set cs" using charges_inverse_raw[OF r nc xM] cs my by simp
  ultimately have "cs = [y]" by (intro one) auto
  with cs show "charges hash wyrng r x = Some [y]" by simp
qed

text \<open>
  Property C23.  \<open>charges\<close> is the inverse of \<open>node_managers\<close>: in the ring of any set of members, a node
  monitors exactly the nodes that count it among their managers, whatever the replication factor
  and the numbers of virtual nodes.  Heartbeats are therefore sent exactly where they are awaited.
\<close>

theorem charges_inverse_of_managers:
  assumes "ring_of hash wyrng M r" and "no_collisions hash wyrng M" and "m \<in> M" and "c \<in> M"
  shows "c \<in> set (the (charges hash wyrng r m)) \<longleftrightarrow> m \<in> set (the (node_managers hash r c))"
  using assms by (rule node_ring.charges_inverse)


subsection \<open>Insertion and removal\<close>

text \<open>
  Property C33.  Removing a member just inserted restores the ring and reports success: every
  position of its virtual nodes is found and counted, and no other position is touched.
\<close>

theorem ring_insert_remove:
  assumes "ring_of hash wyrng M r" and "no_collisions hash wyrng (insert m M)" and "m \<notin> M"
  shows "ring_remove hash wyrng m (ring_insert hash wyrng m r) = (Inr (), r)"
proof -
  let ?r = "ring_remove hash wyrng m (ring_insert hash wyrng m r)"
  have ins: "ring_of hash wyrng (insert m M) (ring_insert hash wyrng m r)"
    using assms(1,2) by (rule node_ring.insert_rings)
  have "ring_of hash wyrng M (snd ?r)"
    using node_ring.remove_rings[OF ins assms(2) insertI1] assms(3) by simp
  then have "snd ?r = r" by (rule ring_of_eqI) (use assms(1) in simp_all)
  moreover have "fst ?r = Inr ()" by (rule node_ring.remove_ok[OF ins assms(2) insertI1])
  ultimately show ?thesis by (metis prod.collapse)
qed

text \<open>
  Fact.  A member configured with zero virtual nodes is inserted at its own position but can
  never be removed successfully: \<open>remove\<close> counts the one position it deletes against zero and
  reports an error, which the cluster actor unwraps.
\<close>

theorem ring_remove_zero_vnodes:
  assumes "m_vnodes m = 0"
  shows "om_get (ring (ring_insert hash wyrng m r)) (hash m) = Some (True, m) \<and>
    fst (ring_remove hash wyrng m (ring_insert hash wyrng m r)) = Inl 1"
  using assms by (simp_all add: om_get_ring_insert num_vnodes_def ring_remove_def Let_def)

subsection \<open>The second membership test\<close>

lemma clockwise_members_distinct:
  assumes r: "ring_of hash wyrng M r" and one: "\<forall>m\<in>M. m_vnodes m = 1"
  shows "distinct (map entry_member (clockwise k (ring r)))"
proof -
  have "map fst (clockwise k (ring r)) = map hash (map entry_member (clockwise k (ring r)))"
    unfolding map_map
  proof (rule map_cong[OF refl])
    fix e assume "e \<in> set (clockwise k (ring r))"
    then have "om_get (ring r) (fst e) = Some (fst (snd e), entry_member e)"
      by (simp add: om_in_entries_iff[symmetric])
    from ring_ofD[OF r this] one show "fst e = (hash \<circ> entry_member) e"
      by (auto simp: num_vnodes_def)
  qed
  with distinct_clockwise[of k "ring r"]
  have "distinct (map hash (map entry_member (clockwise k (ring r))))" by (simp only:)
  then show ?thesis by (rule distinct_map[THEN iffD1, THEN conjunct1])
qed

text \<open>
  Fact.  Where every member has a single virtual node, \<open>is_manager\<close> agrees with the list that
  \<open>node_managers\<close> returns.
\<close>

theorem is_manager_single_vnode:
  assumes r: "ring_of hash wyrng M r" and c: "c \<in> M" and one: "\<forall>m\<in>M. m_vnodes m = 1"
  shows "is_manager hash r a c \<longleftrightarrow> a \<in> set (the (node_managers hash r c))"
proof -
  have "om_get (ring r) (hash c) = Some (True, c)"
    using ring_of_get[OF r c num_vnodes_pos] by simp
  then obtain rest where cw: "clockwise (hash c) (ring r) = (hash c, True, c) # rest"
    by (rule clockwise_head)
  have "distinct (map entry_member rest)" "c \<notin> set (map entry_member rest)"
    using clockwise_members_distinct[OF r one, of "hash c"] by (auto simp: cw)
  then have "unique_seen {c} (map entry_member rest) = map entry_member rest"
    by (intro unique_seen_id) auto
  then show ?thesis
    by (auto simp: is_manager_def node_managers_eq[OF r c] cw list_ex_iff take_map)
qed

definition sample_member :: "nat \<Rightarrow> nat \<Rightarrow> member" where
  "sample_member i vn = Member (Socket (DNS ''localhost'') 5000 0) (of_nat i) (of_nat vn)"

definition sample_ring :: "nat \<Rightarrow> node_ring" where
  "sample_ring rep = fold (ring_insert m_id (\<lambda>k. k + 1))
     [sample_member 1 1, sample_member 2 2, sample_member 5 1] (ring_new rep)"

lemma sample_simps:
  "m_id (sample_member i vn) = of_nat i"
  "m_vnodes (sample_member i vn) = of_nat vn"
  "num_vnodes (sample_member i 1) = 1"
  "num_vnodes (sample_member i 2) = 2"
  by (simp_all add: sample_member_def num_vnodes_def)

lemma sample_distinct:
  "sample_member 1 1 \<noteq> sample_member 2 2" "sample_member 1 1 \<noteq> sample_member 5 1"
  "sample_member 2 2 \<noteq> sample_member 5 1"
  by (simp_all add: sample_member_def)

lemma sample_entries:
  "entries (ring (sample_ring rep)) =
     [(1, True, sample_member 1 1), (2, True, sample_member 2 2), (3, False, sample_member 2 2),
      (5, True, sample_member 5 1)]"
  by (simp add: sample_ring_def sample_simps ring_insert_def Let_def ring_new_def)

lemma sample_rep: "rep_factor (sample_ring rep) = rep"
  by (simp add: sample_ring_def ring_new_def)

lemma all_less_1: "(\<forall>i<(1::nat). P i) \<longleftrightarrow> P 0"
  by auto

lemma all_less_2: "(\<forall>i<(2::nat). P i) \<longleftrightarrow> P 0 \<and> P 1"
  by (auto simp: less_2_cases_iff)

lemma sample_safe:
  "no_collisions m_id (\<lambda>k. k + 1) {sample_member 1 1, sample_member 2 2, sample_member 5 1}"
  unfolding no_collisions_def vnode_key_def ball_simps sample_simps all_less_1 all_less_2
  using sample_distinct by simp

lemma sample_ring_of:
  "ring_of m_id (\<lambda>k. k + 1) {sample_member 1 1, sample_member 2 2, sample_member 5 1} (sample_ring rep)"
  using node_ring.fold_insert_new_rings[of m_id "\<lambda>k. k + 1"
      "[sample_member 1 1, sample_member 2 2, sample_member 5 1]" rep] sample_safe
  by (simp only: sample_ring_def list.set)


lemma sample_managers:
  "node_managers m_id (sample_ring 2) (sample_member 1 1) = Some [sample_member 2 2, sample_member 5 1]"
  using sample_distinct
  by (simp add: node_managers_eq[OF sample_ring_of] sample_rep clockwise_def range_from_def range_to_def
      sample_entries sample_simps)

text \<open>
  Fact.  With several virtual nodes \<open>is_manager\<close> is not the membership test for
  \<open>node_managers\<close>: it counts positions instead of members, so in the ring of this instance a
  manager of the node is denied.
\<close>

theorem is_manager_disagrees:
  "ring_of m_id (\<lambda>k. k + 1) {sample_member 1 1, sample_member 2 2, sample_member 5 1} (sample_ring 2) \<and>
   sample_member 5 1 \<in> set (the (node_managers m_id (sample_ring 2) (sample_member 1 1))) \<and>
   \<not> is_manager m_id (sample_ring 2) (sample_member 5 1) (sample_member 1 1)"
proof (intro conjI)
  show "\<not> is_manager m_id (sample_ring 2) (sample_member 5 1) (sample_member 1 1)"
    using sample_distinct
    by (simp add: is_manager_def sample_rep clockwise_def range_from_def range_to_def
        sample_entries sample_simps)
qed (simp_all add: sample_ring_of sample_managers del: One_nat_def)

subsection \<open>Instances\<close>

theorem charges_inverse_of_managers_witness:
  "sample_member 1 1 \<in> set (the (charges m_id (\<lambda>k. k + 1) (sample_ring 2) (sample_member 5 1)))"
  using charges_inverse_of_managers[OF sample_ring_of sample_safe,
      of "sample_member 5 1" "sample_member 1 1" 2] sample_managers by simp

theorem node_managers_spec_witness:
  "\<exists>ms. node_managers m_id (sample_ring 1) (sample_member 5 1) = Some ms \<and> length ms = 1"
proof -
  have "card {sample_member 1 1, sample_member 2 2, sample_member 5 1} = 3"
    using sample_distinct by simp
  then show ?thesis
    using node_managers_spec[OF sample_ring_of, of "sample_member 5 1" 1] by (auto simp: sample_rep)
qed

theorem ring_of_unique_witness:
  "sample_ring 2 = fold (ring_insert m_id (\<lambda>k. k + 1))
     [sample_member 5 1, sample_member 1 1, sample_member 2 2] (ring_new 2)"
proof (rule ring_of_unique[OF sample_ring_of])
  have s: "set [sample_member 5 1, sample_member 1 1, sample_member 2 2] =
      {sample_member 1 1, sample_member 2 2, sample_member 5 1}" by auto
  show "ring_of m_id (\<lambda>k. k + 1) {sample_member 1 1, sample_member 2 2, sample_member 5 1}
      (fold (ring_insert m_id (\<lambda>k. k + 1)) [sample_member 5 1, sample_member 1 1, sample_member 2 2] (ring_new 2))"
    using node_ring.fold_insert_new_rings[of m_id "\<lambda>k. k + 1"
        "[sample_member 5 1, sample_member 1 1, sample_member 2 2]" 2] sample_safe unfolding s by blast
qed (simp add: sample_rep ring_new_def)

theorem ring_insert_remove_witness:
  "ring_remove m_id (\<lambda>k. k + 1) (sample_member 2 2)
     (ring_insert m_id (\<lambda>k. k + 1) (sample_member 2 2) (ring_new 2)) = (Inr (), ring_new 2)"
  by (rule ring_insert_remove[where M = "{}"])
    (use no_collisions_subset[OF sample_safe] in \<open>auto simp: ring_of_new\<close>)

theorem ring_remove_zero_vnodes_witness:
  "fst (ring_remove m_id (\<lambda>k. k + 1) (sample_member 7 0)
     (ring_insert m_id (\<lambda>k. k + 1) (sample_member 7 0) (ring_new 2))) = Inl 1"
  using ring_remove_zero_vnodes[of "sample_member 7 0" m_id "\<lambda>k. k + 1" "ring_new 2"]
  by (simp add: sample_member_def)

theorem is_manager_single_vnode_witness:
  "sample_member 5 1 \<in> set (the (node_managers m_id
      (fold (ring_insert m_id (\<lambda>k. k + 1)) [sample_member 1 1, sample_member 5 1] (ring_new 2))
      (sample_member 1 1)))"
proof -
  let ?M = "{sample_member 1 1, sample_member 5 1}"
  let ?r = "fold (ring_insert m_id (\<lambda>k. k + 1)) [sample_member 1 1, sample_member 5 1] (ring_new 2)"
  have "no_collisions m_id (\<lambda>k. k + 1) ?M"
    by (rule no_collisions_subset[OF sample_safe]) auto
  then have r: "ring_of m_id (\<lambda>k. k + 1) ?M ?r"
    using node_ring.fold_insert_new_rings[of m_id "\<lambda>k. k + 1" "[sample_member 1 1, sample_member 5 1]"]
    by (simp only: list.set)
  have one: "\<forall>m\<in>?M. m_vnodes m = 1" by (simp add: sample_simps)
  have "is_manager m_id ?r (sample_member 5 1) (sample_member 1 1)"
    using sample_distinct
    by (simp add: is_manager_def clockwise_def range_from_def range_to_def ring_insert_def Let_def
        ring_new_def sample_simps)
  then show ?thesis
    using is_manager_single_vnode[OF r _ one, of "sample_member 1 1" "sample_member 5 1"] by blast
qed

end
