(* ===== verification/Semilattice.thy ===== *)
theory Semilattice
  imports Prelude
begin

text \<open>
  The interfaces of replicated data.  \<open>join_semilattice\<close> is the algebraic contract that gossip
  states and replicated data share: merging is associative, commutative and idempotent with a
  least element.  \<open>crdt_trait\<close> is the dictionary of the Rust trait \<open>CRDT\<close> together with its
  \<open>DeltaMutator\<close> (cluster/crdt/mod.rs), and the locale \<open>crdt\<close> states what the dispersal
  algorithm relies on of an implementation of that trait.
\<close>

record ('s, 'd) crdt_trait =
  crdt_apply :: "'d \<Rightarrow> 's \<Rightarrow> 's"
  crdt_empty :: "'s \<Rightarrow> bool"
  crdt_join :: "'s \<Rightarrow> 's \<Rightarrow> 's"
  crdt_minimum :: 's

definition lat_le :: "('s \<Rightarrow> 's \<Rightarrow> 's) \<Rightarrow> 's \<Rightarrow> 's \<Rightarrow> bool" where
  "lat_le join x y \<longleftrightarrow> join x y = y"

locale join_semilattice =
  fixes join :: "'s \<Rightarrow> 's \<Rightarrow> 's"
    and bot :: 's
  assumes join_assoc: "join (join x y) z = join x (join y z)"
    and join_comm: "join x y = join y x"
    and join_idem: "join x x = x"
    and join_bot: "join bot x = x"
begin

lemma join_left_comm: "join x (join y z) = join y (join x z)"
  by (metis join_assoc join_comm)

lemma join_left_idem: "join x (join x y) = join x y"
  by (metis join_assoc join_idem)

lemmas join_ac = join_assoc join_comm join_left_comm join_idem join_left_idem

lemma bot_join: "join x bot = x"
  by (metis join_bot join_comm)

lemma le_refl: "lat_le join x x"
  by (simp add: lat_le_def join_idem)

lemma le_trans: "lat_le join x y \<Longrightarrow> lat_le join y z \<Longrightarrow> lat_le join x z"
  unfolding lat_le_def by (metis join_assoc)

lemma le_antisym: "lat_le join x y \<Longrightarrow> lat_le join y x \<Longrightarrow> x = y"
  unfolding lat_le_def by (metis join_comm)

lemma bot_le: "lat_le join bot x"
  by (simp add: lat_le_def join_bot)

lemma le_join1: "lat_le join x (join x y)"
  by (simp add: lat_le_def join_left_idem)

lemma le_join2: "lat_le join y (join x y)"
  by (metis join_comm le_join1)

lemma join_least: "lat_le join x z \<Longrightarrow> lat_le join y z \<Longrightarrow> lat_le join (join x y) z"
  unfolding lat_le_def by (metis join_assoc)

lemma join_le_iff: "lat_le join (join x y) z \<longleftrightarrow> lat_le join x z \<and> lat_le join y z"
  by (meson join_least le_join1 le_join2 le_trans)

lemma le_join_mono: "lat_le join a b \<Longrightarrow> lat_le join c d \<Longrightarrow> lat_le join (join a c) (join b d)"
  by (meson join_least le_join1 le_join2 le_trans)

lemma join_eq_iff_le: "join x y = x \<longleftrightarrow> lat_le join y x"
  by (simp add: lat_le_def join_comm)

text \<open>The fold of a sequence of deltas from the least element.\<close>

lemma foldl_join_init: "foldl join a xs = join a (foldl join bot xs)"
proof (induction xs arbitrary: a)
  case Nil
  show ?case by (simp add: bot_join)
next
  case (Cons x xs)
  have "foldl join (join a x) xs = join (join a x) (foldl join bot xs)" by (rule Cons.IH)
  also have "\<dots> = join a (join x (foldl join bot xs))" by (rule join_assoc)
  also have "join x (foldl join bot xs) = foldl join x xs" by (rule Cons.IH[symmetric])
  finally show ?case by (simp add: join_bot)
qed

lemma foldl_join_append: "foldl join bot (xs @ ys) = join (foldl join bot xs) (foldl join bot ys)"
  unfolding foldl_append by (rule foldl_join_init)

lemma foldl_join_snoc: "foldl join bot (xs @ [x]) = join (foldl join bot xs) x"
  by simp

lemma foldl_join_ub: "x \<in> set xs \<Longrightarrow> lat_le join x (foldl join bot xs)"
  by (induction xs rule: rev_induct) (auto intro: le_join2 le_trans[OF _ le_join1])

lemma foldl_join_least: "(\<And>x. x \<in> set xs \<Longrightarrow> lat_le join x z) \<Longrightarrow> lat_le join (foldl join bot xs) z"
  by (induction xs rule: rev_induct) (auto intro: bot_le join_least)

text \<open>Order and repetition of deliveries do not matter: only the set of joined values does.\<close>

lemma foldl_join_set:
  assumes "set xs = set ys"
  shows "foldl join a xs = foldl join a ys"
proof -
  have "foldl join bot xs = foldl join bot ys"
    by (rule le_antisym; rule foldl_join_least, rule foldl_join_ub) (use assms in auto)
  then show ?thesis by (metis foldl_join_init)
qed

end

locale crdt =
  fixes C :: "('s, 'd) crdt_trait"
  assumes assoc: "crdt_join C (crdt_join C x y) z = crdt_join C x (crdt_join C y z)"
    and comm: "crdt_join C x y = crdt_join C y x"
    and idem: "crdt_join C x x = x"
    and minimum: "crdt_join C (crdt_minimum C) x = x"
    and empty_iff: "crdt_empty C x \<longleftrightarrow> x = crdt_minimum C"

sublocale crdt \<subseteq> join_semilattice "crdt_join C" "crdt_minimum C"
  by unfold_locales (fact assoc comm idem minimum)+

end
