(* ===== verification/Gossip.thy ===== *)
theory Gossip
  imports Members Semilattice "HOL-Library.Option_ord"
begin

text \<open>
  Gossip states and their merge (cluster/gossip.rs).  A gossip state maps members to \<open>Up\<close> or \<open>Down\<close>
  in a \<open>BTreeMap\<close>; the merge walks the two ordered maps in step, collects the entries that change
  and the events subscribers see, and applies the changes.  The merge is shown to be the pointwise
  maximum, hence a join semilattice, and its events to be exactly the differences.
\<close>

datatype machine_state = Up | Down

instantiation machine_state :: linorder
begin

definition less_eq_machine_state :: "machine_state \<Rightarrow> machine_state \<Rightarrow> bool" where
  "less_eq_machine_state a b \<longleftrightarrow> a = Up \<or> b = Down"

definition less_machine_state :: "machine_state \<Rightarrow> machine_state \<Rightarrow> bool" where
  "less_machine_state a b \<longleftrightarrow> a = Up \<and> b = Down"

instance
proof
  fix x y z :: machine_state
  show "(x < y) = (x \<le> y \<and> \<not> y \<le> x)"
    by (cases x; cases y) (simp_all add: less_eq_machine_state_def less_machine_state_def)
  show "x \<le> x" by (cases x) (simp_all add: less_eq_machine_state_def)
  show "x \<le> y \<Longrightarrow> y \<le> z \<Longrightarrow> x \<le> z"
    by (cases x; cases y; cases z) (simp_all add: less_eq_machine_state_def)
  show "x \<le> y \<Longrightarrow> y \<le> x \<Longrightarrow> x = y"
    by (cases x; cases y) (simp_all add: less_eq_machine_state_def)
  show "x \<le> y \<or> y \<le> x" by (cases x; cases y) (simp_all add: less_eq_machine_state_def)
qed

end

lemma machine_state_less_simps [simp]:
  "(a < Up) = False" "(Up < a) = (a = Down)" "(Down < a) = False" "(a < Down) = (a = Up)"
  by (cases a; simp add: less_machine_state_def)+

record gossip =
  states :: "(member, machine_state) omap"

fun merge_loop ::
    "(member \<times> machine_state) list \<Rightarrow> (member \<times> machine_state) list \<Rightarrow> cluster_event list \<Rightarrow>
     (member \<times> machine_state) list \<Rightarrow> cluster_event list \<times> (member \<times> machine_state) list" where
  "merge_loop ((l_mem, l_state) # left_iter) ((r_mem, r_state) # right_iter) events changes =
     (if l_mem = r_mem then
        (if l_state < r_state then
           merge_loop left_iter right_iter
             (events @ [case r_state of Up \<Rightarrow> Added r_mem | Down \<Rightarrow> Removed r_mem])
             (changes @ [(r_mem, r_state)])
         else merge_loop left_iter right_iter events changes)
      else if r_mem < l_mem then
        merge_loop ((l_mem, l_state) # left_iter) right_iter
          (if r_state = Up then events @ [Added r_mem] else events)
          (changes @ [(r_mem, r_state)])
      else merge_loop left_iter ((r_mem, r_state) # right_iter) events changes)"
| "merge_loop [] ((r_mem, r_state) # right_iter) events changes =
     merge_loop [] right_iter
       (if r_state = Up then events @ [Added r_mem] else events)
       (changes @ [(r_mem, r_state)])"
| "merge_loop left_iter [] events changes = (events, changes)"

definition gossip_merge :: "gossip \<Rightarrow> gossip \<Rightarrow> gossip \<times> cluster_event list" where
  "gossip_merge self other =
     (let res = merge_loop (entries (states self)) (entries (states other)) [] [] in
      (self\<lparr>states := fold (\<lambda>e m. om_insert (fst e) (snd e) m) (snd res) (states self)\<rparr>, fst res))"

subsection \<open>Specification of the walk\<close>

text \<open>The entries of the received state that are news, and the event each of them raises.\<close>

definition is_news :: "(member \<times> machine_state) list \<Rightarrow> member \<times> machine_state \<Rightarrow> bool" where
  "is_news left e \<longleftrightarrow> map_of left (fst e) < Some (snd e)"

definition news_events :: "(member \<times> machine_state) list \<Rightarrow> member \<times> machine_state \<Rightarrow> cluster_event list" where
  "news_events left e =
     (case (map_of left (fst e), snd e) of
        (_, Up) \<Rightarrow> [Added (fst e)]
      | (None, Down) \<Rightarrow> []
      | (Some _, Down) \<Rightarrow> [Removed (fst e)])"

lemma news_drop_smaller:
  assumes "\<forall>e\<in>set right. l < fst e"
  shows "filter (is_news ((l, s) # left)) right = filter (is_news left) right"
    and "concat (map (news_events ((l, s) # left)) (filter p right)) =
         concat (map (news_events left) (filter p right))"
proof -
  show "filter (is_news ((l, s) # left)) right = filter (is_news left) right"
    by (rule filter_cong) (use assms in \<open>auto simp: is_news_def\<close>)
  show "concat (map (news_events ((l, s) # left)) (filter p right)) =
        concat (map (news_events left) (filter p right))"
    by (rule arg_cong[of _ _ concat], rule map_cong) (use assms in \<open>auto simp: news_events_def\<close>)
qed

lemma map_of_sorted_smaller:
  "sorted_keys ((l, s) # left) \<Longrightarrow> r < l \<Longrightarrow> map_of ((l, s) # left) r = None"
  by (auto simp: map_of_eq_None_iff)

lemma is_news_None: "map_of left r = None \<Longrightarrow> is_news left (r, s)"
  by (simp add: is_news_def)

lemma merge_loop_spec:
  assumes "sorted_keys left" "sorted_keys right"
  shows "merge_loop left right events changes =
    (events @ concat (map (news_events left) (filter (is_news left) right)),
     changes @ filter (is_news left) right)"
  using assms
proof (induction left right events changes rule: merge_loop.induct)
  case (1 l ls left r rs right ev ch)
  have sl: "sorted_keys left" and sr: "sorted_keys right" and gr: "\<forall>e\<in>set right. r < fst e"
    using "1.prems" by auto
  consider "l = r" | "r < l" | "l < r" by (rule linorder_cases)
  then show ?case
  proof cases
    case 1
    then have drop: "filter (is_news ((l, ls) # left)) right = filter (is_news left) right"
        "concat (map (news_events ((l, ls) # left)) (filter (is_news left) right)) =
         concat (map (news_events left) (filter (is_news left) right))"
      using news_drop_smaller gr by auto
    have n: "is_news ((l, ls) # left) (l, rs) \<longleftrightarrow> ls < rs"
      and e: "news_events ((l, ls) # left) (l, rs) = (case rs of Up \<Rightarrow> [Added l] | Down \<Rightarrow> [Removed l])"
      by (simp_all add: is_news_def news_events_def split: machine_state.splits)
    show ?thesis
    proof (cases "ls < rs")
      case True
      then show ?thesis
        using "1.IH"(1)[OF 1 True sl sr] drop 1 n e by (cases rs) simp_all
    next
      case False
      then show ?thesis
        using "1.IH"(2)[OF 1 False sl sr] drop 1 n by simp
    qed
  next
    case 2
    have none: "map_of ((l, ls) # left) r = None"
      by (rule map_of_sorted_smaller) (use 2 "1.prems" in auto)
    then have e: "news_events ((l, ls) # left) (r, rs) = (if rs = Up then [Added r] else [])"
      by (simp add: news_events_def split: machine_state.splits)
    show ?thesis
      using "1.IH"(3)[OF less_imp_neq[OF 2, symmetric] 2 "1.prems"(1) sr] less_imp_neq[OF 2] 2
        is_news_None[OF none, of rs] e
      by (cases rs) simp_all
  next
    case 3
    have gl: "\<forall>e\<in>set ((r, rs) # right). l < fst e" using 3 gr by auto
    have "merge_loop ((l, ls) # left) ((r, rs) # right) ev ch = merge_loop left ((r, rs) # right) ev ch"
      using less_imp_neq[OF 3] less_not_sym[OF 3] by simp
    also note "1.IH"(4)[OF less_imp_neq[OF 3] less_not_sym[OF 3] sl "1.prems"(2)]
    finally show ?thesis
      unfolding news_drop_smaller[OF gl] .
  qed
next
  case (2 r rs right ev ch)
  have "sorted_keys right" using "2.prems" by auto
  then show ?case
    using "2.IH" by (cases rs) (simp_all add: is_news_def[of "[]"] news_events_def[of "[]"])
next
  case (3 left ev ch)
  show ?case by simp
qed


lemma gossip_merge_eq:
  "gossip_merge a b =
     (let news = filter (is_news (entries (states a))) (entries (states b)) in
      (a\<lparr>states := fold (\<lambda>e m. om_insert (fst e) (snd e) m) news (states a)\<rparr>,
       concat (map (news_events (entries (states a))) news)))"
  by (simp add: gossip_merge_def merge_loop_spec Let_def)

lemma in_news_iff:
  "(m, s) \<in> set (filter (is_news (entries (states a))) (entries (states b))) \<longleftrightarrow>
     om_get (states b) m = Some s \<and> om_get (states a) m < Some s"
  by (simp add: om_in_entries_iff is_news_def om_get_entries[symmetric])

lemma om_get_fold_news:
  assumes "distinct (map fst es)"
  shows "om_get (fold (\<lambda>e m. om_insert (fst e) (snd e) m) es m) k =
     (case map_of es k of None \<Rightarrow> om_get m k | Some v \<Rightarrow> Some v)"
proof -
  have "map_of (rev es) k = map_of es k"
    using assms map_of_eq_Some_iff[of "rev es" k] map_of_eq_Some_iff[of es k]
    by (intro option.expand) (auto simp: rev_map[symmetric] map_of_eq_None_iff)
  then show ?thesis by (simp add: om_get_fold_insert)
qed

lemma om_get_gossip_merge:
  "om_get (states (fst (gossip_merge a b))) m = max (om_get (states a) m) (om_get (states b) m)"
proof -
  let ?news = "filter (is_news (entries (states a))) (entries (states b))"
  have d: "distinct (map fst ?news)" by (rule distinct_map_filter) simp
  have iff: "map_of ?news m = Some s \<longleftrightarrow> om_get (states b) m = Some s \<and> om_get (states a) m < Some s" for s
    unfolding map_of_eq_Some_iff[OF d] by (rule in_news_iff)
  have "map_of ?news m = (if om_get (states a) m < om_get (states b) m then om_get (states b) m else None)"
  proof (rule option_eqI)
    fix s
    show "map_of ?news m = Some s \<longleftrightarrow>
        (if om_get (states a) m < om_get (states b) m then om_get (states b) m else None) = Some s"
      unfolding iff by (cases "om_get (states b) m = Some s") auto
  qed
  then show ?thesis
    by (auto simp: gossip_merge_eq Let_def om_get_fold_news[OF d] max_def not_le
        split: option.splits dest: order.asym)
qed

definition gossip_bot :: gossip where
  "gossip_bot = \<lparr>states = om_empty\<rparr>"

definition gossip_join :: "gossip \<Rightarrow> gossip \<Rightarrow> gossip" where
  "gossip_join a b = fst (gossip_merge a b)"

lemma gossip_eqI: "(\<And>m. om_get (states a) m = om_get (states b) m) \<Longrightarrow> a = (b :: gossip)"
  by (cases a; cases b) (auto intro: om_eqI)

interpretation gossip_lattice: join_semilattice gossip_join gossip_bot
proof
  fix x y z :: gossip
  show "gossip_join (gossip_join x y) z = gossip_join x (gossip_join y z)"
    by (rule gossip_eqI) (simp add: gossip_join_def om_get_gossip_merge max.assoc)
  show "gossip_join x y = gossip_join y x"
    by (rule gossip_eqI) (simp add: gossip_join_def om_get_gossip_merge max.commute)
  show "gossip_join x x = x"
    by (rule gossip_eqI) (simp add: gossip_join_def om_get_gossip_merge)
  show "gossip_join gossip_bot x = x"
    by (rule gossip_eqI) (simp add: gossip_join_def om_get_gossip_merge gossip_bot_def max_def less_eq_option_None)
qed

subsection \<open>Properties of the merge\<close>

text \<open>The members that are up.\<close>

definition up_members :: "gossip \<Rightarrow> member set" where
  "up_members g = {m. om_get (states g) m = Some Up}"

text \<open>
  Property C34.  The two-iterator walk computes the pointwise maximum of the two states: a member is
  known after the merge iff one of the sides knew it, and is down iff one of the sides knew it down.
\<close>

theorem gossip_merge_pointwise:
  "om_get (states (fst (gossip_merge a b))) m = max (om_get (states a) m) (om_get (states b) m)"
  by (rule om_get_gossip_merge)

text \<open>
  Fact.  Gossip converges: whatever order, grouping and repetition the same received states
  are merged in, the resulting state is the same.
\<close>

theorem gossip_merge_order_independent:
  assumes "set gs = set hs"
  shows "foldl (\<lambda>a b. fst (gossip_merge a b)) g gs = foldl (\<lambda>a b. fst (gossip_merge a b)) g hs"
  using gossip_lattice.foldl_join_set[OF assms, of g] unfolding gossip_join_def .

lemma in_merge_events:
  "e \<in> set (snd (gossip_merge a b)) \<longleftrightarrow>
     (\<exists>m s. om_get (states b) m = Some s \<and> om_get (states a) m < Some s \<and>
        e \<in> set (news_events (entries (states a)) (m, s)))"
proof -
  have "e \<in> set (snd (gossip_merge a b)) \<longleftrightarrow>
     (\<exists>x \<in> set (filter (is_news (entries (states a))) (entries (states b))).
        e \<in> set (news_events (entries (states a)) x))"
    by (simp add: gossip_merge_eq Let_def)
  then show ?thesis using in_news_iff by (metis prod.collapse)
qed

lemma set_merge_events:
  "set (snd (gossip_merge a b)) =
     {Added m | m. om_get (states a) m = None \<and> om_get (states b) m = Some Up} \<union>
     {Removed m | m. om_get (states a) m = Some Up \<and> om_get (states b) m = Some Down}"
proof -
  have lt: "om_get (states a) m < Some Up \<longleftrightarrow> om_get (states a) m = None"
    "om_get (states a) m < Some Down \<longleftrightarrow> om_get (states a) m = None \<or> om_get (states a) m = Some Up" for m
    by (cases "om_get (states a) m"; simp)+
  have ev: "e \<in> set (news_events (entries (states a)) (m, s)) \<longleftrightarrow>
      s = Up \<and> e = Added m \<or> s = Down \<and> om_get (states a) m \<noteq> None \<and> e = Removed m" for e m s
    by (cases s) (auto simp: news_events_def om_get_entries split: option.splits)
  show ?thesis
  proof (rule set_eqI)
    fix e
    show "e \<in> set (snd (gossip_merge a b)) \<longleftrightarrow> e \<in>
       {Added m | m. om_get (states a) m = None \<and> om_get (states b) m = Some Up} \<union>
       {Removed m | m. om_get (states a) m = Some Up \<and> om_get (states b) m = Some Down}"
      unfolding in_merge_events ev using lt by auto
  qed
qed

fun event_member :: "cluster_event \<Rightarrow> member" where
  "event_member (Alone m) = m"
| "event_member (Joined m) = m"
| "event_member (Added m) = m"
| "event_member (Removed m) = m"
| "event_member Left_Cluster = undefined"

lemma distinct_merge_events: "distinct (map event_member (snd (gossip_merge a b)))"
proof -
  let ?n = "\<lambda>x. map event_member (news_events (entries (states a)) x)"
  have d: "distinct (map fst (filter (is_news (entries (states a))) (entries (states b))))"
    by (rule distinct_map_filter) simp
  have n: "set (?n x) \<subseteq> {fst x} \<and> distinct (?n x)" for x
    by (cases x; cases "snd x") (auto simp: news_events_def split: option.splits)
  have "distinct (map fst xs) \<Longrightarrow> distinct (concat (map ?n xs)) \<and> set (concat (map ?n xs)) \<subseteq> fst ` set xs" for xs
  proof (induction xs)
    case Nil
    then show ?case by simp
  next
    case (Cons x xs)
    then have "distinct (concat (map ?n xs))" "set (concat (map ?n xs)) \<subseteq> fst ` set xs" "fst x \<notin> fst ` set xs"
      by auto
    moreover from this have "set (?n x) \<inter> set (concat (map ?n xs)) = {}" using n[of x] by blast
    moreover have "concat (map ?n (x # xs)) = ?n x @ concat (map ?n xs)" by simp
    moreover have "set (?n x) \<subseteq> {fst x}" "distinct (?n x)" using n[of x] by simp_all
    ultimately show ?case
      unfolding distinct_append set_append \<open>concat (map ?n (x # xs)) = ?n x @ concat (map ?n xs)\<close>
      by (intro conjI) (simp_all del: set_concat set_map, blast)
  qed
  from this[OF d] show ?thesis
    by (simp add: gossip_merge_eq Let_def map_concat comp_def)
qed

text \<open>
  Fact.  The events of a merge are exactly its visible differences: \<open>Added\<close> for the members
  that become known as up, \<open>Removed\<close> for those that were up and are now down, and nothing else; a
  member first heard of as down is recorded silently.
\<close>

theorem gossip_merge_events:
  "set (snd (gossip_merge a b)) =
     {Added m | m. om_get (states a) m = None \<and> om_get (states b) m = Some Up} \<union>
     {Removed m | m. om_get (states a) m = Some Up \<and> om_get (states b) m = Some Down}"
  by (rule set_merge_events)

definition gossip_sample :: member where
  "gossip_sample = Member (Socket (DNS ''localhost'') 5000 0) 1 1"

theorem gossip_merge_order_independent_witness:
  "foldl (\<lambda>a b. fst (gossip_merge a b)) gossip_bot
     [\<lparr>states = om_of_list [(gossip_sample, Up)]\<rparr>, \<lparr>states = om_of_list [(gossip_sample, Down)]\<rparr>] =
   foldl (\<lambda>a b. fst (gossip_merge a b)) gossip_bot
     [\<lparr>states = om_of_list [(gossip_sample, Down)]\<rparr>, \<lparr>states = om_of_list [(gossip_sample, Up)]\<rparr>,
      \<lparr>states = om_of_list [(gossip_sample, Down)]\<rparr>]"
  by (rule gossip_merge_order_independent) auto

end
