(* ===== verification/Devices_State.thy ===== *)
theory Devices_State
  imports Remoting Ordered_Map Semilattice "HOL-Library.Option_ord"
begin

text \<open>
  The replicated table of devices (cluster/devices/devices_state.rs): device intervals with their
  hand-written order (a higher clock wins, then the shorter interval), device entries, the CRDT
  \<open>Devices\<close> and its two mutators.  The \<open>crdt\<close> interface is interpreted on it at the end.
\<close>

subsection \<open>Devices, intervals and entries\<close>

datatype device = Device (dev_socket: socket)

datatype device_interval = Device_Interval (di_clock: u64) (di_interval: duration)

datatype device_entry = Device_Entry (removals: u64) (entry_interval: "device_interval option")

instantiation device :: linorder
begin

definition less_eq_device :: "device \<Rightarrow> device \<Rightarrow> bool" where
  "less_eq_device x y \<longleftrightarrow> dev_socket x \<le> dev_socket y"

definition less_device :: "device \<Rightarrow> device \<Rightarrow> bool" where
  "less_device x y \<longleftrightarrow> dev_socket x < dev_socket y"

instance
  by standard (auto simp: less_eq_device_def less_device_def intro: device.expand)

end

definition interval_partial_cmp :: "device_interval \<Rightarrow> device_interval \<Rightarrow> int" where
  "interval_partial_cmp a b =
     (if di_clock a < di_clock b then -1
      else if di_clock b < di_clock a then 1
      else if di_interval b < di_interval a then -1
      else if di_interval a < di_interval b then 1
      else 0)"

instantiation device_interval :: linorder
begin

definition less_eq_device_interval :: "device_interval \<Rightarrow> device_interval \<Rightarrow> bool" where
  "less_eq_device_interval x y \<longleftrightarrow> interval_partial_cmp x y \<le> 0"

definition less_device_interval :: "device_interval \<Rightarrow> device_interval \<Rightarrow> bool" where
  "less_device_interval x y \<longleftrightarrow> interval_partial_cmp x y < 0"

instance
  by standard
    (auto simp: less_eq_device_interval_def less_device_interval_def interval_partial_cmp_def
      split: if_splits intro: device_interval.expand)

end

instantiation device_entry :: linorder
begin

definition less_eq_device_entry :: "device_entry \<Rightarrow> device_entry \<Rightarrow> bool" where
  "less_eq_device_entry x y \<longleftrightarrow>
     (removals x, entry_interval x) \<le> (removals y, entry_interval y)"

definition less_device_entry :: "device_entry \<Rightarrow> device_entry \<Rightarrow> bool" where
  "less_device_entry x y \<longleftrightarrow>
     (removals x, entry_interval x) < (removals y, entry_interval y)"

instance
proof
  fix x y z :: device_entry
  show "(x < y) = (x \<le> y \<and> \<not> y \<le> x)"
    unfolding less_eq_device_entry_def less_device_entry_def by (rule less_le_not_le)
  show "x \<le> x" by (simp add: less_eq_device_entry_def)
  show "x \<le> y \<Longrightarrow> y \<le> z \<Longrightarrow> x \<le> z" unfolding less_eq_device_entry_def by (rule order_trans)
  show "x \<le> y \<Longrightarrow> y \<le> x \<Longrightarrow> x = y"
    unfolding less_eq_device_entry_def by (drule (1) order_antisym) (auto intro: device_entry.expand)
  show "x \<le> y \<or> y \<le> x" unfolding less_eq_device_entry_def by (rule linear)
qed

end

lemma device_interval_le_iff:
  "x \<le> y \<longleftrightarrow> di_clock x < di_clock y \<or> di_clock x = di_clock y \<and> di_interval y \<le> di_interval x"
  for x y :: device_interval
  by (auto simp: less_eq_device_interval_def interval_partial_cmp_def)

lemma device_entry_le_iff:
  "Device_Entry r i \<le> Device_Entry r' i' \<longleftrightarrow> r < r' \<or> r = r' \<and> i \<le> i'"
  by (auto simp: less_eq_device_entry_def)

subsection \<open>The CRDT and its mutators\<close>

type_synonym devices = "(device, device_entry) omap"

datatype device_mutator = Put device device_interval | Remove device

definition devices_minimum :: devices where
  "devices_minimum = om_empty"

definition devices_empty :: "devices \<Rightarrow> bool" where
  "devices_empty d = om_is_empty d"

definition devices_join :: "devices \<Rightarrow> devices \<Rightarrow> devices" where
  "devices_join a b = om_union_with max a b"

fun device_mutator_apply :: "device_mutator \<Rightarrow> devices \<Rightarrow> devices" where
  "device_mutator_apply (Put dev interval) target =
     (case om_get target dev of
        Some entry \<Rightarrow>
          (let d = devices_minimum in
           if opt_filter (\<lambda>x. interval \<le> x) (entry_interval entry) = None
           then om_insert dev (Device_Entry (removals entry) (Some interval)) d
           else d)
      | None \<Rightarrow> om_insert dev (Device_Entry 0 (Some interval)) om_empty)"
| "device_mutator_apply (Remove dev) target =
     (case om_get target dev of
        Some entry \<Rightarrow>
          (if entry_interval entry \<noteq> None
           then om_insert dev (Device_Entry (removals entry + 1) None) om_empty
           else devices_minimum)
      | None \<Rightarrow> devices_minimum)"

definition devices_delta :: "devices \<Rightarrow> device_mutator \<Rightarrow> devices" where
  "devices_delta s m = device_mutator_apply m s"

definition devices_crdt :: "(devices, device_mutator) crdt_trait" where
  "devices_crdt = \<lparr>crdt_apply = device_mutator_apply, crdt_empty = devices_empty,
     crdt_join = devices_join, crdt_minimum = devices_minimum\<rparr>"

lemma devices_crdt_simps [simp]:
  "crdt_apply devices_crdt = device_mutator_apply"
  "crdt_empty devices_crdt = devices_empty"
  "crdt_join devices_crdt = devices_join"
  "crdt_minimum devices_crdt = devices_minimum"
  by (simp_all add: devices_crdt_def)

text \<open>A missing entry is below every entry, so a join is the pointwise maximum of options.\<close>

lemma om_get_devices_join [simp]:
  "om_get (devices_join a b) k = max (om_get a k) (om_get b k)"
  by (auto simp: devices_join_def om_get_union_with max_def less_eq_option_def split: option.splits)

lemma om_get_devices_minimum [simp]: "om_get devices_minimum k = None"
  by (simp add: devices_minimum_def)

lemma devices_empty_iff: "devices_empty d \<longleftrightarrow> d = devices_minimum"
  by (simp add: devices_empty_def om_is_empty_iff devices_minimum_def)

interpretation devices: crdt devices_crdt
  by unfold_locales
    (auto intro!: om_eqI simp: devices_empty_iff max.assoc max.commute max_def less_eq_option_None)

subsection \<open>The effect of the mutators\<close>

lemma max_None [simp]: "max x None = (x :: 'a::linorder option)" "max None x = x"
  by (cases x; simp add: max_def)+

definition put_effect :: "device_interval \<Rightarrow> device_entry option \<Rightarrow> device_entry" where
  "put_effect i e = (case e of
     None \<Rightarrow> Device_Entry 0 (Some i)
   | Some e \<Rightarrow> Device_Entry (removals e) (max (entry_interval e) (Some i)))"

lemma max_Some [simp]: "max (Some x) (Some y) = Some (max x (y :: 'a::linorder))"
  by (simp add: max_def)

lemma max_device_entry:
  "max (Device_Entry r i) (Device_Entry r' i') =
     (if r < r' then Device_Entry r' i' else if r' < r then Device_Entry r i
      else Device_Entry r (max i i'))"
  by (auto simp: max_def device_entry_le_iff)

lemma opt_filter_le_None: "opt_filter ((\<le>) i) x = None \<longleftrightarrow> \<not> Some i \<le> x"
  by (cases x) auto

lemma om_get_put:
  "om_get (devices_join s (devices_delta s (Put dev i))) k =
     (if k = dev then Some (put_effect i (om_get s dev)) else om_get s k)"
proof (cases "om_get s dev")
  case None
  then show ?thesis by (auto simp: devices_delta_def put_effect_def)
next
  case (Some e)
  have "max (entry_interval e) (Some i) = (if Some i \<le> entry_interval e then entry_interval e else Some i)"
    by (auto simp: max.absorb1 max.absorb2)
  with Some show ?thesis
    by (cases e) (auto simp: devices_delta_def put_effect_def opt_filter_le_None max_device_entry)
qed

text \<open>
  Fact.  The delta of \<open>Put\<close>, joined back, makes the device present with the later of the two
  intervals (a higher clock, then the shorter interval), keeps its removal count and touches no other
  device; the code's test for an interval that is already there changes nothing about this.
\<close>

theorem devices_put_effect:
  "om_get (devices_join s (devices_delta s (Put dev i))) k =
     (if k = dev then Some (put_effect i (om_get s dev)) else om_get s k)"
  by (rule om_get_put)

text \<open>
  Fact.  The delta of \<open>Remove\<close>, joined back, takes a present device out and counts the removal,
  and leaves the state alone when the device is unknown or already removed.  The only exception is a
  device removed \<open>2 ^ 64 - 1\<close> times: its count wraps to zero and the removal is lost in the join.
\<close>

theorem devices_remove_effect:
  "om_get (devices_join s (devices_delta s (Remove dev))) k =
     (case om_get s dev of
        Some (Device_Entry r (Some i)) \<Rightarrow>
          if k = dev \<and> r \<noteq> - 1 then Some (Device_Entry (r + 1) None) else om_get s k
      | _ \<Rightarrow> om_get s k)"
proof -
  have "r \<noteq> - 1 \<Longrightarrow> r < r + 1" for r :: u64
    by (rule word_less_add_one)
  moreover have "\<not> (- 1 :: u64) < - 1 + 1" "(- 1 :: u64) + 1 < - 1"
    by (simp_all add: word_gt_0)
  ultimately have "max (Device_Entry r (Some i)) (Device_Entry (r + 1) None) =
      (if r \<noteq> - 1 then Device_Entry (r + 1) None else Device_Entry r (Some i))" for r i
    unfolding max_device_entry by (cases "r = - 1") (simp_all only: if_True if_False not_False_eq_True simp_thms)
  moreover have "max (Device_Entry (- 1) (Some i)) (Device_Entry 0 None) = Device_Entry (- 1) (Some i)" for i
    by (simp add: max_device_entry word_gt_0)
  ultimately show ?thesis
    by (auto simp: devices_delta_def split: option.splits device_entry.splits)
qed

text \<open>
  Fact.  A removal wins over every put that did not see it: when one replica removes a device
  and another, from the same state, changes its interval, the join of the two has the device removed.
\<close>

theorem devices_remove_wins:
  assumes "om_get s dev = Some (Device_Entry r (Some i))" and "r \<noteq> - 1"
  shows "om_get (devices_join (devices_join s (devices_delta s (Remove dev)))
           (devices_join s (devices_delta s (Put dev j)))) dev = Some (Device_Entry (r + 1) None)"
proof -
  have "r < r + 1" using assms(2) by (rule word_less_add_one)
  then show ?thesis
    using assms by (auto simp: devices_delta_def max_device_entry)
qed

definition sample_device :: device where
  "sample_device = Device (Socket (DNS ''localhost'') 5000 0)"

definition sample_devices :: devices where
  "sample_devices = om_of_list [(sample_device, Device_Entry 0 (Some (Device_Interval 1 (from_millis 50))))]"

theorem devices_remove_wins_witness:
  "om_get (devices_join (devices_join sample_devices (devices_delta sample_devices (Remove sample_device)))
     (devices_join sample_devices (devices_delta sample_devices (Put sample_device (Device_Interval 9 0)))))
     sample_device = Some (Device_Entry 1 None)"
proof -
  have "om_get sample_devices sample_device = Some (Device_Entry 0 (Some (Device_Interval 1 (from_millis 50))))"
    by (simp add: sample_devices_def om_get_of_list)
  from devices_remove_wins[OF this] show ?thesis by simp
qed

end
