(* ===== verification/Packets.thy ===== *)
theory Packets
  imports Remoting
begin

unbundle bit_operations_syntax

text \<open>
  Datagrams and their reassembly (core/packets.rs).  A datagram is a header of 19 bytes, big endian,
  followed by at most 56 bytes of the message.  A \<open>MessageBuilder\<close> collects the datagrams of one
  message: every datagram is read, header included, over the stretch of the buffer that ends with
  its payload, and the 19 bytes its header overwrote are put back.  A panic of the code (an index
  or slice out of range) is the value \<open>None\<close>.  The codec \<open>serde_cbor\<close> is a parameter.
\<close>

datatype interpretations = Message | Signal

datatype actor_signal = Term

datatype 's local_actor_msg = Local_Msg 's | Local_Signal actor_signal

datatype 'u deserialize_error = Incompatible_Interface 'u 'u | Other 'u

fun interpretations_into :: "interpretations \<Rightarrow> u8" where
  "interpretations_into Message = 0"
| "interpretations_into Signal = 1"

definition interpretations_try_from :: "u8 \<Rightarrow> interpretations option" where
  "interpretations_try_from b = (if b = 0 then Some Message else if b = 1 then Some Signal else None)"

definition local_actor_msg_convert :: "('i \<Rightarrow> 's) \<Rightarrow> 'i local_actor_msg \<Rightarrow> 's local_actor_msg" where
  "local_actor_msg_convert into m =
     (case m of Local_Msg s \<Rightarrow> Local_Msg (into s) | Local_Signal s \<Rightarrow> Local_Signal s)"

text \<open>The hand-written \<open>PartialEq\<close>, for a type whose own equality is \<open>eq\<close>.\<close>

fun local_actor_msg_eq :: "('s \<Rightarrow> 's \<Rightarrow> bool) \<Rightarrow> 's local_actor_msg \<Rightarrow> 's local_actor_msg \<Rightarrow> bool" where
  "local_actor_msg_eq eq (Local_Msg a) (Local_Msg b) = eq a b"
| "local_actor_msg_eq eq (Local_Signal a) (Local_Signal b) = (a = b)"
| "local_actor_msg_eq eq _ _ = False"

lemma local_actor_msg_eq_iff [simp]: "local_actor_msg_eq (=) x y \<longleftrightarrow> x = y"
  by (cases x; cases y) auto

definition deserialize_msg ::
    "(u8 list \<Rightarrow> 'i option) \<Rightarrow> (u8 list \<Rightarrow> actor_signal option) \<Rightarrow> ('i \<Rightarrow> 's) \<Rightarrow>
     'u \<Rightarrow> interpretations \<Rightarrow> u8 list \<Rightarrow> 'u deserialize_error + 's local_actor_msg" where
  "deserialize_msg decode_I decode_signal into interface intp bytes =
     (case intp of
        Message \<Rightarrow>
          (case decode_I bytes of
             Some res \<Rightarrow> Inr (Local_Msg (into res))
           | None \<Rightarrow> Inl (Other interface))
      | Signal \<Rightarrow>
          (case decode_signal bytes of
             Some res \<Rightarrow> Inr (Local_Signal res)
           | None \<Rightarrow> Inl (Other interface)))"

subsection \<open>The datagram header\<close>

record datagram_header =
  msg_id :: u64
  seq_num :: u16
  max_seq_num :: u16
  msg_size :: u32
  dest_size :: u16
  intp :: interpretations

abbreviation header_size :: nat where
  "header_size \<equiv> 19"

definition header_bytes :: "datagram_header \<Rightarrow> u8 list" where
  "header_bytes h =
     [ucast (drop_bit 56 (msg_id h)), ucast (drop_bit 48 (msg_id h)),
      ucast (drop_bit 40 (msg_id h)), ucast (drop_bit 32 (msg_id h)),
      ucast (drop_bit 24 (msg_id h)), ucast (drop_bit 16 (msg_id h)),
      ucast (drop_bit 8 (msg_id h)), ucast (msg_id h),
      ucast (drop_bit 8 (seq_num h)), ucast (seq_num h),
      ucast (drop_bit 8 (max_seq_num h)), ucast (max_seq_num h),
      ucast (drop_bit 24 (msg_size h)), ucast (drop_bit 16 (msg_size h)),
      ucast (drop_bit 8 (msg_size h)), ucast (msg_size h),
      ucast (drop_bit 8 (dest_size h)), ucast (dest_size h),
      interpretations_into (intp h)]"

definition header_put :: "datagram_header \<Rightarrow> u8 list \<Rightarrow> u8 list option" where
  "header_put h buf = (if length buf \<noteq> header_size then None else Some (header_bytes h))"

definition header_try_from :: "u8 list \<Rightarrow> datagram_header option" where
  "header_try_from buf =
     (if length buf \<noteq> header_size then None
      else (case interpretations_try_from (buf ! 18) of
        None \<Rightarrow> None
      | Some i \<Rightarrow>
          (let ret = \<lparr>
             msg_id = push_bit 56 (ucast (buf ! 0)) OR push_bit 48 (ucast (buf ! 1)) OR
               push_bit 40 (ucast (buf ! 2)) OR push_bit 32 (ucast (buf ! 3)) OR
               push_bit 24 (ucast (buf ! 4)) OR push_bit 16 (ucast (buf ! 5)) OR
               push_bit 8 (ucast (buf ! 6)) OR ucast (buf ! 7),
             seq_num = push_bit 8 (ucast (buf ! 8)) OR ucast (buf ! 9),
             max_seq_num = push_bit 8 (ucast (buf ! 10)) OR ucast (buf ! 11),
             msg_size = push_bit 24 (ucast (buf ! 12)) OR push_bit 16 (ucast (buf ! 13)) OR
               push_bit 8 (ucast (buf ! 14)) OR ucast (buf ! 15),
             dest_size = push_bit 8 (ucast (buf ! 16)) OR ucast (buf ! 17),
             intp = i\<rparr>
           in if max_seq_num ret < seq_num ret \<or> dest_size ret = 0 then None else Some ret)))"

lemma interpretations_roundtrip [simp]: "interpretations_try_from (interpretations_into i) = Some i"
  by (cases i) (simp_all add: interpretations_try_from_def)

lemma length_header_bytes [simp]: "length (header_bytes h) = header_size"
  by (simp add: header_bytes_def)

text \<open>Big-endian bytes determine the word.\<close>

lemma bit_byte:
  "bit (push_bit s (ucast (ucast (drop_bit s x) :: u8)) :: 'a::len word) n \<longleftrightarrow> s \<le> n \<and> n < s + 8 \<and> bit x n"
  for x :: "'a::len word"
  by (auto simp: bit_simps dest: bit_imp_le_length)

lemma bit_low_byte: "bit (ucast (ucast x :: u8) :: 'a::len word) n \<longleftrightarrow> n < 8 \<and> bit x n"
  for x :: "'a::len word"
  by (auto simp: bit_simps dest: bit_imp_le_length)

lemma join_bytes_16:
  "push_bit 8 (ucast (ucast (drop_bit 8 x) :: u8)) OR ucast (ucast x :: u8) = (x :: u16)"
  by (rule bit_word_eqI, unfold bit_or_iff bit_byte bit_low_byte) auto

lemma join_bytes_32:
  "push_bit 24 (ucast (ucast (drop_bit 24 x) :: u8)) OR push_bit 16 (ucast (ucast (drop_bit 16 x) :: u8)) OR
   push_bit 8 (ucast (ucast (drop_bit 8 x) :: u8)) OR ucast (ucast x :: u8) = (x :: u32)"
  by (rule bit_word_eqI, unfold bit_or_iff bit_byte bit_low_byte) auto

lemma join_bytes_64:
  "push_bit 56 (ucast (ucast (drop_bit 56 x) :: u8)) OR push_bit 48 (ucast (ucast (drop_bit 48 x) :: u8)) OR
   push_bit 40 (ucast (ucast (drop_bit 40 x) :: u8)) OR push_bit 32 (ucast (ucast (drop_bit 32 x) :: u8)) OR
   push_bit 24 (ucast (ucast (drop_bit 24 x) :: u8)) OR push_bit 16 (ucast (ucast (drop_bit 16 x) :: u8)) OR
   push_bit 8 (ucast (ucast (drop_bit 8 x) :: u8)) OR ucast (ucast x :: u8) = (x :: u64)"
  by (rule bit_word_eqI, unfold bit_or_iff bit_byte bit_low_byte) auto

definition header_ok :: "datagram_header \<Rightarrow> bool" where
  "header_ok h \<longleftrightarrow> seq_num h \<le> max_seq_num h \<and> dest_size h \<noteq> 0"

lemma header_try_from_ok: "header_try_from bs = Some h \<Longrightarrow> header_ok h"
  by (auto simp: header_try_from_def header_ok_def Let_def split: if_splits option.splits)

lemma header_try_from_bytes: "header_try_from (header_bytes h) = (if header_ok h then Some h else None)"
  by (cases h)
    (auto simp: header_bytes_def header_try_from_def header_ok_def Let_def join_bytes_16 join_bytes_32
      join_bytes_64 split: if_splits)

text \<open>
  Property C36.  A header written by \<open>put\<close> into a buffer of 19 bytes is read back by \<open>try_from\<close> field
  by field, in every one of its \<open>2 ^ 145\<close> values; the headers refused are exactly those that name a
  packet beyond the last one or an empty destination.  \<open>put\<close> panics on a buffer of another length.
\<close>

theorem datagram_header_roundtrip:
  "Option.bind (header_put h buf) header_try_from =
     (if length buf = header_size \<and> seq_num h \<le> max_seq_num h \<and> dest_size h \<noteq> 0 then Some h else None)"
  by (simp add: header_put_def header_try_from_bytes header_ok_def)

subsection \<open>Message builders\<close>

abbreviation packet_size :: nat where
  "packet_size \<equiv> 75"

record message_builder =
  mb_msg_size :: u32
  mb_max_seq_num :: u16
  seqs_recvd :: "u8 list"
  num_recvd :: nat
  mb_buf :: "u8 list"
  mb_intp :: interpretations

definition mb_new :: "datagram_header \<Rightarrow> message_builder" where
  "mb_new h =
     (let recvd_len = max_seq_num h div 8 + 1 in
      \<lparr>mb_msg_size = msg_size h, mb_max_seq_num = max_seq_num h,
       seqs_recvd = replicate (unat recvd_len) 0, num_recvd = 0,
       mb_buf = replicate (unat (msg_size h) + unat (dest_size h) + header_size) 0,
       mb_intp = intp h\<rparr>)"

text \<open>\<open>UdpSocket::recv\<close> into a slice: the datagram overwrites the front of the slice, and what does
  not fit is discarded.\<close>

definition recv_into :: "u8 list \<Rightarrow> u8 list \<Rightarrow> u8 list" where
  "recv_into window d = take (length window) d @ drop (length d) window"

text \<open>\<open>MessageBuilder::insert\<close>, for the datagram \<open>d\<close> at the head of the socket.  The flag tells
  whether the datagram has been taken off the socket.\<close>

definition mb_insert :: "datagram_header \<Rightarrow> u8 list \<Rightarrow> message_builder \<Rightarrow> (bool \<times> message_builder) option" where
  "mb_insert h d mb =
     (let seq = unat (seq_num h) in
      if length (seqs_recvd mb) \<le> seq div 8 then None
      else if (seqs_recvd mb ! (seq div 8)) AND push_bit (seq mod 8) 1 \<noteq> 0 then Some (False, mb)
      else
        (let start = seq * (packet_size - header_size);
             stop = min (start + packet_size) (length (mb_buf mb));
             window = take (stop - start) (drop start (mb_buf mb)) in
         if stop < start \<or> length window < header_size then None
         else
           (let header_buf = take header_size window;
                window' = recv_into window d in
            Some (True, mb\<lparr>num_recvd := num_recvd mb + 1,
              seqs_recvd := (seqs_recvd mb)[seq div 8 :=
                (seqs_recvd mb ! (seq div 8)) OR push_bit (seq mod 8) 1],
              mb_buf := take start (mb_buf mb) @ (header_buf @ drop header_size window') @ drop stop (mb_buf mb)\<rparr>))))"

definition mb_finished :: "message_builder \<Rightarrow> bool" where
  "mb_finished mb \<longleftrightarrow> num_recvd mb = unat (mb_max_seq_num mb) + 1"

definition mb_dest :: "message_builder \<Rightarrow> u8 list" where
  "mb_dest mb = drop (header_size + unat (mb_msg_size mb)) (mb_buf mb)"

definition mb_msg :: "message_builder \<Rightarrow> u8 list" where
  "mb_msg mb = take (unat (mb_msg_size mb)) (drop header_size (mb_buf mb))"

subsection \<open>The bitmap of received packets\<close>

definition recvd_bit :: "u8 list \<Rightarrow> nat \<Rightarrow> bool" where
  "recvd_bit bs i \<longleftrightarrow> bit (bs ! (i div 8)) (i mod 8)"

lemma recvd_bit_test: "(bs ! (i div 8)) AND push_bit (i mod 8) 1 \<noteq> 0 \<longleftrightarrow> recvd_bit bs i" for bs :: "u8 list"
  by (simp add: recvd_bit_def bit_iff_and_push_bit_not_eq_0)

lemma mb_insert_eq:
  "mb_insert h d mb =
     (let seq = unat (seq_num h) in
      if length (seqs_recvd mb) \<le> seq div 8 then None
      else if recvd_bit (seqs_recvd mb) seq then Some (False, mb)
      else
        (let start = seq * (packet_size - header_size);
             stop = min (start + packet_size) (length (mb_buf mb));
             window = take (stop - start) (drop start (mb_buf mb)) in
         if stop < start \<or> length window < header_size then None
         else
           (let header_buf = take header_size window;
                window' = recv_into window d in
            Some (True, mb\<lparr>num_recvd := num_recvd mb + 1,
              seqs_recvd := (seqs_recvd mb)[seq div 8 :=
                (seqs_recvd mb ! (seq div 8)) OR push_bit (seq mod 8) 1],
              mb_buf := take start (mb_buf mb) @ (header_buf @ drop header_size window') @ drop stop (mb_buf mb)\<rparr>))))"
  by (simp only: mb_insert_def recvd_bit_test)

lemma recvd_bit_set:
  assumes "i div 8 < length bs"
  shows "recvd_bit (bs[i div 8 := (bs ! (i div 8)) OR push_bit (i mod 8) 1]) j \<longleftrightarrow> j = i \<or> recvd_bit bs j"
proof -
  have "j = i \<longleftrightarrow> j div 8 = i div 8 \<and> j mod 8 = i mod 8"
    by (metis div_mult_mod_eq)
  moreover have "j mod 8 < 8" by simp
  ultimately show ?thesis
    using assms by (cases "j div 8 = i div 8") (auto simp: recvd_bit_def bit_simps)
qed

lemma length_mb_new_bitmap: "length (seqs_recvd (mb_new h)) = unat (max_seq_num h) div 8 + 1"
proof -
  have "unat (max_seq_num h) < 2 ^ 16" using unsigned_less[of "max_seq_num h"] by simp
  then have "unat (max_seq_num h div 8 + 1) = unat (max_seq_num h) div 8 + 1"
    by (simp add: unat_word_ariths unat_div)
  then show ?thesis by (simp add: mb_new_def Let_def)
qed

lemma recvd_bit_mb_new: "i \<le> unat (max_seq_num h) \<Longrightarrow> \<not> recvd_bit (seqs_recvd (mb_new h)) i"
proof -
  assume "i \<le> unat (max_seq_num h)"
  then have "i div 8 < unat (max_seq_num h div 8 + 1)"
    using length_mb_new_bitmap[of h] div_le_mono[of i _ 8] by (simp add: mb_new_def Let_def less_Suc_eq_le)
  then show ?thesis by (simp add: mb_new_def Let_def recvd_bit_def)
qed

lemma length_mb_new_buf: "length (mb_buf (mb_new h)) = unat (msg_size h) + unat (dest_size h) + header_size"
  by (simp add: mb_new_def Let_def)

lemma mb_insert_new_None:
  assumes "header_try_from bs = Some h"
  shows "mb_insert h d (mb_new h) = None \<longleftrightarrow>
     unat (msg_size h) + unat (dest_size h) < 56 * unat (seq_num h)"
proof -
  have le: "unat (seq_num h) \<le> unat (max_seq_num h)"
    using header_try_from_ok[OF assms] by (simp add: header_ok_def word_le_nat_alt)
  then have "\<not> length (seqs_recvd (mb_new h)) \<le> unat (seq_num h) div 8"
    using length_mb_new_bitmap[of h] div_le_mono[OF le, of 8] by simp
  moreover have "\<not> recvd_bit (seqs_recvd (mb_new h)) (unat (seq_num h))"
    using le by (rule recvd_bit_mb_new)
  ultimately show ?thesis
    by (auto simp: mb_insert_eq Let_def length_mb_new_buf min_def)
qed

text \<open>
  Fact.  What a datagram with an acceptable header needs so that a new builder does not panic
  on it: its place must lie inside the announced message.  The receiver does not check this, so a
  datagram that announces packet \<open>i\<close> of a message of fewer than \<open>56 * i\<close> bytes stops the receiver.
\<close>

theorem mb_insert_new_panics:
  assumes "header_try_from bs = Some h"
  shows "mb_insert h d (mb_new h) = None \<longleftrightarrow>
     unat (msg_size h) + unat (dest_size h) < 56 * unat (seq_num h)"
  using assms by (rule mb_insert_new_None)

definition sample_header :: datagram_header where
  "sample_header = \<lparr>msg_id = 7, seq_num = 3, max_seq_num = 9, msg_size = 20, dest_size = 8, intp = Message\<rparr>"

theorem mb_insert_new_panics_witness: "\<forall>d. mb_insert sample_header d (mb_new sample_header) = None"
proof -
  have "header_try_from (header_bytes sample_header) = Some sample_header"
    by (simp add: header_try_from_bytes header_ok_def sample_header_def)
  from mb_insert_new_panics[OF this] show ?thesis by (simp add: sample_header_def)
qed

end
