(* ===== verification/Udp_Serial.thy ===== *)
theory Udp_Serial
  imports Packets
begin

text \<open>
  Fragmentation of messages (core/udp_serial.rs) and its inverse, the reassembly by message builders.
  A \<open>UdpSerial\<close> is one buffer in which every stretch of 75 bytes is a datagram.  The codec and the
  random message id are parameters.
\<close>

record udp_serial =
  ser_bytes :: "u8 list"

abbreviation payload_per_packet :: nat where
  "payload_per_packet \<equiv> packet_size - header_size"

definition ser_packets :: "udp_serial \<Rightarrow> nat" where
  "ser_packets s = length (ser_bytes s) div packet_size
     - (if length (ser_bytes s) mod packet_size = 0 then 1 else 0) + 1"

definition ser_len :: "udp_serial \<Rightarrow> nat" where
  "ser_len s = length (ser_bytes s)"

definition ser_payload_len :: "udp_serial \<Rightarrow> nat" where
  "ser_payload_len s = ser_len s - header_size * ser_packets s"

text \<open>The loop of \<open>new\<close>: the header's sequence number is a \<open>u16\<close> and wraps.\<close>

fun ser_loop :: "nat \<Rightarrow> datagram_header \<Rightarrow> u8 list \<Rightarrow> nat \<Rightarrow> u8 list \<Rightarrow> datagram_header \<times> nat \<times> u8 list" where
  "ser_loop 0 header item idx buf = (header, idx, buf)"
| "ser_loop (Suc n) header item idx buf =
     ser_loop n (header\<lparr>seq_num := seq_num header + 1\<rparr>) item (idx + payload_per_packet)
       (buf @ header_bytes header @ take payload_per_packet (drop idx item))"

text \<open>\<open>UdpSerial::new\<close>; an empty message underflows \<open>total - 1\<close> and panics.\<close>

definition ser_new :: "u64 \<Rightarrow> u8 list \<Rightarrow> interpretations \<Rightarrow> u8 list \<Rightarrow> udp_serial option" where
  "ser_new random_id item i dest =
     (let total = length item + length dest in
      if total = 0 then None
      else
        (let max_seq = (total - 1) div payload_per_packet;
             header = \<lparr>msg_id = random_id, seq_num = 0, max_seq_num = of_nat max_seq,
               msg_size = of_nat (length item), dest_size = of_nat (length dest), intp = i\<rparr>;
             item' = item @ dest;
             res = ser_loop max_seq header item' 0 [] in
         Some \<lparr>ser_bytes = snd (snd res) @ header_bytes (fst res) @ drop (fst (snd res)) item'\<rparr>))"

definition ser_msg ::
    "('i \<Rightarrow> u8 list) \<Rightarrow> ('u destination \<Rightarrow> u8 list) \<Rightarrow> u64 \<Rightarrow> 'u destination \<Rightarrow> 'i \<Rightarrow> udp_serial option" where
  "ser_msg enc enc_dest random_id dest item = ser_new random_id (enc item) Message (enc_dest dest)"

definition ser_sig ::
    "(actor_signal \<Rightarrow> u8 list) \<Rightarrow> ('u destination \<Rightarrow> u8 list) \<Rightarrow> u64 \<Rightarrow> 'u destination \<Rightarrow> actor_signal \<Rightarrow> udp_serial option" where
  "ser_sig enc enc_dest random_id dest sig = ser_new random_id (enc sig) Signal (enc_dest dest)"

text \<open>\<open>UdpSerial::send\<close>: the datagrams handed to the socket, in order.\<close>

fun send_loop :: "nat \<Rightarrow> u8 list \<Rightarrow> nat \<Rightarrow> u8 list list" where
  "send_loop 0 bytes idx = [drop idx bytes]"
| "send_loop (Suc n) bytes idx = take packet_size (drop idx bytes) # send_loop n bytes (idx + packet_size)"

definition ser_send :: "udp_serial \<Rightarrow> u8 list list" where
  "ser_send s = send_loop (ser_packets s - 1) (ser_bytes s) 0"

subsection \<open>The datagrams of a message\<close>

definition payload_chunk :: "u8 list \<Rightarrow> nat \<Rightarrow> u8 list" where
  "payload_chunk p i = take payload_per_packet (drop (payload_per_packet * i) p)"

definition last_packet :: "u8 list \<Rightarrow> nat" where
  "last_packet p = (length p - 1) div payload_per_packet"

definition packet_header :: "u64 \<Rightarrow> u8 list \<Rightarrow> interpretations \<Rightarrow> u8 list \<Rightarrow> nat \<Rightarrow> datagram_header" where
  "packet_header rid item i dest k =
     \<lparr>msg_id = rid, seq_num = of_nat k, max_seq_num = of_nat (last_packet (item @ dest)),
      msg_size = of_nat (length item), dest_size = of_nat (length dest), intp = i\<rparr>"

definition packet :: "u64 \<Rightarrow> u8 list \<Rightarrow> interpretations \<Rightarrow> u8 list \<Rightarrow> nat \<Rightarrow> u8 list" where
  "packet rid item i dest k = header_bytes (packet_header rid item i dest k) @ payload_chunk (item @ dest) k"

lemma packet_header_simps [simp]:
  "intp (packet_header rid item i dest k) = i" "msg_id (packet_header rid item i dest k) = rid"
  by (simp_all add: packet_header_def)

lemma length_payload_chunk: "length (payload_chunk p i) = min 56 (length p - 56 * i)"
  by (simp add: payload_chunk_def)

lemma chunk_full: "i < last_packet p \<Longrightarrow> length (payload_chunk p i) = 56"
proof -
  assume i: "i < last_packet p"
  have "56 * last_packet p \<le> length p - 1"
    unfolding last_packet_def by simp
  then have "56 * i + 56 \<le> length p" using i by linarith
  then show ?thesis by (simp add: length_payload_chunk)
qed

lemma last_packet_bound: "p \<noteq> [] \<Longrightarrow> 56 * last_packet p < length p \<and> length p \<le> 56 * last_packet p + 56"
proof -
  assume "p \<noteq> []"
  then have "0 < length p" by simp
  moreover have "56 * last_packet p \<le> length p - 1" "length p - 1 < 56 * last_packet p + 56"
    unfolding last_packet_def using div_mult_mod_eq[of "length p - 1" 56] mod_less_divisor[of 56 "length p - 1"]
    by simp_all
  ultimately show ?thesis by linarith
qed

lemma chunk_last: "p \<noteq> [] \<Longrightarrow> drop (56 * last_packet p) p = payload_chunk p (last_packet p)"
  using last_packet_bound[of p] by (auto simp: payload_chunk_def)

lemma ser_loop_eq:
  "ser_loop n h p (56 * k) b =
     (h\<lparr>seq_num := seq_num h + of_nat n\<rparr>, 56 * (k + n),
      b @ concat (map (\<lambda>j. header_bytes (h\<lparr>seq_num := seq_num h + of_nat j\<rparr>) @ payload_chunk p (k + j)) [0..<n]))"
proof (induction n arbitrary: h k b)
  case 0
  show ?case by simp
next
  case (Suc n)
  have "ser_loop (Suc n) h p (56 * k) b =
      ser_loop n (h\<lparr>seq_num := seq_num h + 1\<rparr>) p (56 * (k + 1)) (b @ header_bytes h @ payload_chunk p k)"
    by (simp add: payload_chunk_def add.commute)
  also note Suc.IH
  finally show ?case
    unfolding upt_conv_Cons[OF zero_less_Suc] map_Suc_upt[symmetric]
    by (simp add: comp_def algebra_simps)
qed

lemma ser_new_eq:
  assumes "item @ dest \<noteq> []"
  shows "ser_new rid item i dest =
     Some \<lparr>ser_bytes = concat (map (packet rid item i dest) [0..<Suc (last_packet (item @ dest))])\<rparr>"
proof -
  let ?p = "item @ dest" and ?n = "last_packet (item @ dest)"
  let ?h = "packet_header rid item i dest 0"
  have h: "?h\<lparr>seq_num := seq_num ?h + of_nat j\<rparr> = packet_header rid item i dest j" for j
    by (simp add: packet_header_def)
  have tot: "length item + length dest \<noteq> 0" using assms by auto
  have "ser_loop ?n ?h ?p 0 [] = (packet_header rid item i dest ?n, 56 * ?n,
      concat (map (packet rid item i dest) [0..<?n]))"
    using ser_loop_eq[of ?n ?h ?p 0 "[]"] by (simp only: h packet_def[abs_def] mult_0_right add_0 append_Nil)
  moreover have "(length item + length dest - 1) div payload_per_packet = ?n"
    by (simp add: last_packet_def)
  moreover have "\<lparr>msg_id = rid, seq_num = 0, max_seq_num = of_nat ?n,
      msg_size = of_nat (length item), dest_size = of_nat (length dest), intp = i\<rparr> = ?h"
    by (simp add: packet_header_def)
  ultimately show ?thesis
    unfolding ser_new_def Let_def using tot chunk_last[OF assms]
    by (simp add: packet_def)
qed

lemma length_packet: "length (packet rid item i dest k) = 19 + length (payload_chunk (item @ dest) k)"
  by (simp add: packet_def)

lemma send_loop_concat:
  assumes "\<forall>d\<in>set ds. length d = packet_size"
  shows "send_loop (length ds) (pre @ concat ds @ rest) (length pre) = ds @ [rest]"
  using assms
proof (induction ds arbitrary: pre)
  case Nil
  show ?case by simp
next
  case (Cons d ds)
  then have "send_loop (length ds) ((pre @ d) @ concat ds @ rest) (length (pre @ d)) = ds @ [rest]"
    by (intro Cons.IH) simp
  with Cons.prems show ?case by simp
qed

lemma ser_packets_eq:
  assumes "length (ser_bytes s) = n * 75 + r" "0 < r" "r \<le> 75"
  shows "ser_packets s = Suc n"
proof (cases "r = 75")
  case True
  then have "length (ser_bytes s) = Suc n * 75" using assms(1) by simp
  then have "length (ser_bytes s) div 75 = Suc n" "length (ser_bytes s) mod 75 = 0" by simp_all
  then show ?thesis by (simp add: ser_packets_def)
next
  case False
  with assms have "r < 75" by simp
  then have "length (ser_bytes s) div 75 = n" "length (ser_bytes s) mod 75 = r"
    unfolding assms(1) by simp_all
  then show ?thesis using assms(2) by (simp add: ser_packets_def)
qed

lemma ser_send_raw:
  assumes "item @ dest \<noteq> []"
  shows "map_option ser_send (ser_new rid item i dest) =
     Some (map (packet rid item i dest) [0..<Suc (last_packet (item @ dest))])"
proof -
  let ?n = "last_packet (item @ dest)" and ?pk = "packet rid item i dest"
  let ?ds = "map ?pk [0..<?n]"
  let ?bs = "concat ?ds @ ?pk ?n"
  have full: "\<forall>d\<in>set ?ds. length d = packet_size"
    by (auto simp: length_packet chunk_full)
  have last: "length (?pk ?n) \<le> 75" "19 < length (?pk ?n)"
    using last_packet_bound[OF assms] by (simp_all add: length_packet length_payload_chunk)
  have "map length ?ds = map (\<lambda>_. 75) [0..<?n]"
    using full by simp
  then have "length (concat ?ds) = ?n * 75"
    unfolding length_concat by (simp only: sum_list_triv length_upt minus_nat.diff_0 mult.commute) simp
  then have len: "length ?bs = ?n * 75 + length (?pk ?n)" by simp
  have "ser_packets \<lparr>ser_bytes = ?bs\<rparr> = Suc ?n"
    by (rule ser_packets_eq[of _ _ "length (?pk ?n)"]) (use last len in auto)
  with send_loop_concat[OF full, of "[]" "?pk ?n"] show ?thesis
    unfolding ser_new_eq[OF assms] by (simp add: ser_send_def)
qed

text \<open>
  Fact.  Fragmentation.  Every non-empty message is sent as \<open>last_packet + 1\<close> datagrams: each
  is the header of its place followed by its 56-byte chunk of the message and the destination (the
  last chunk holds the rest), no datagram is longer than 75 bytes, and the loops that cut the buffer
  and the loops that filled it agree on every boundary.
\<close>

theorem ser_send_datagrams:
  "map_option ser_send (ser_new rid item i dest) =
     (if item @ dest = [] then None
      else Some (map (\<lambda>k. header_bytes (packet_header rid item i dest k) @ payload_chunk (item @ dest) k)
        [0..<Suc ((length (item @ dest) - 1) div 56)])) \<and>
   (\<forall>k. length (header_bytes (packet_header rid item i dest k) @ payload_chunk (item @ dest) k) \<le> 75)"
  using ser_send_raw[of item dest rid i]
  by (auto simp: ser_new_def packet_def[abs_def] last_packet_def length_payload_chunk)

subsection \<open>Reassembly\<close>

text \<open>\<open>small item dest\<close>: the sizes fit the fields of the header.\<close>

definition fits_header :: "u8 list \<Rightarrow> u8 list \<Rightarrow> bool" where
  "fits_header item dest \<longleftrightarrow> dest \<noteq> [] \<and> length dest < 2 ^ 16 \<and> length (item @ dest) \<le> 56 * 2 ^ 16"

text \<open>The builder \<open>mb\<close> has received exactly the packets \<open>R\<close> of the message.\<close>

definition builds :: "u8 list \<Rightarrow> interpretations \<Rightarrow> u8 list \<Rightarrow> nat set \<Rightarrow> message_builder \<Rightarrow> bool" where
  "builds item i dest R mb \<longleftrightarrow>
     unat (mb_msg_size mb) = length item \<and> unat (mb_max_seq_num mb) = last_packet (item @ dest) \<and>
     mb_intp mb = i \<and> length (seqs_recvd mb) = last_packet (item @ dest) div 8 + 1 \<and>
     (\<forall>k \<le> last_packet (item @ dest). recvd_bit (seqs_recvd mb) k \<longleftrightarrow> k \<in> R) \<and>
     R \<subseteq> {..last_packet (item @ dest)} \<and> num_recvd mb = card R \<and>
     length (mb_buf mb) = 19 + length (item @ dest) \<and>
     (\<forall>j < length (item @ dest). j div 56 \<in> R \<longrightarrow> mb_buf mb ! (19 + j) = (item @ dest) ! j)"

lemma fits_headerD:
  assumes "fits_header item dest"
  shows "last_packet (item @ dest) < 2 ^ 16" "length item < 2 ^ 32" "length dest < 2 ^ 16" "item @ dest \<noteq> []"
  using assms by (auto simp: fits_header_def last_packet_def)

lemma packet_header_fields:
  assumes "fits_header item dest" "k \<le> last_packet (item @ dest)"
  shows "unat (seq_num (packet_header rid item i dest k)) = k"
    "unat (max_seq_num (packet_header rid item i dest k)) = last_packet (item @ dest)"
    "unat (msg_size (packet_header rid item i dest k)) = length item"
    "unat (dest_size (packet_header rid item i dest k)) = length dest"
    "header_ok (packet_header rid item i dest k)"
proof -
  note b = fits_headerD[OF assms(1)]
  show f: "unat (seq_num (packet_header rid item i dest k)) = k"
    "unat (max_seq_num (packet_header rid item i dest k)) = last_packet (item @ dest)"
    "unat (msg_size (packet_header rid item i dest k)) = length item"
    "unat (dest_size (packet_header rid item i dest k)) = length dest"
    using b assms(2) by (simp_all add: packet_header_def unat_of_nat take_bit_nat_eq_self)
  have "0 < length dest" using assms(1) by (simp add: fits_header_def)
  then show "header_ok (packet_header rid item i dest k)"
    unfolding header_ok_def word_le_nat_alt f using assms(2) f(4) by (metis neq0_conv unat_0)
qed

lemma builds_new:
  assumes "fits_header item dest"
  shows "builds item i dest {} (mb_new (packet_header rid item i dest 0))"
proof -
  note f = packet_header_fields[OF assms, of _ rid i]
  have "\<not> recvd_bit (seqs_recvd (mb_new (packet_header rid item i dest 0))) k"
    if "k \<le> last_packet (item @ dest)" for k
    by (rule recvd_bit_mb_new) (use that f(2)[of 0] in simp)
  moreover have "length (mb_buf (mb_new (packet_header rid item i dest 0))) = 19 + length (item @ dest)"
    unfolding length_mb_new_buf using f(3,4)[of 0] by simp
  moreover have "length (seqs_recvd (mb_new (packet_header rid item i dest 0))) = last_packet (item @ dest) div 8 + 1"
    unfolding length_mb_new_bitmap using f(2)[of 0] by simp
  ultimately show ?thesis
    using f[of 0] by (simp add: builds_def mb_new_def Let_def)
qed

text \<open>The header of any packet of the message starts the same builder.\<close>

lemma mb_new_packet_header:
  "mb_new (packet_header rid item i dest k) = mb_new (packet_header rid item i dest 0)"
  by (simp add: mb_new_def packet_header_def)

lemma chunk_nth:
  "56 * k \<le> j \<Longrightarrow> j < 56 * k + length (payload_chunk p k) \<Longrightarrow> payload_chunk p k ! (j - 56 * k) = p ! j"
  by (auto simp: payload_chunk_def)

lemma mb_insert_fresh:
  assumes fit: "fits_header item dest" and k: "k \<le> last_packet (item @ dest)"
    and b: "builds item i dest R mb" and fresh: "k \<notin> R"
  shows "mb_insert (packet_header rid item i dest k) (packet rid item i dest k) mb =
    Some (True, mb\<lparr>num_recvd := num_recvd mb + 1,
       seqs_recvd := (seqs_recvd mb)[k div 8 := (seqs_recvd mb ! (k div 8)) OR push_bit (k mod 8) 1],
       mb_buf := take (56 * k + 19) (mb_buf mb) @ payload_chunk (item @ dest) k @
         drop (56 * k + 19 + length (payload_chunk (item @ dest) k)) (mb_buf mb)\<rparr>)"
proof -
  let ?p = "item @ dest" and ?c = "payload_chunk (item @ dest) k"
  have L: "length (mb_buf mb) = 19 + length ?p" using b by (simp add: builds_def)
  have in_p: "56 * k \<le> length ?p"
    using last_packet_bound[of ?p] fits_headerD(4)[OF fit] k by linarith
  have stop: "min (56 * k + 75) (length (mb_buf mb)) = 56 * k + 19 + length ?c"
    unfolding L length_payload_chunk using in_p by linarith
  have win: "length (take (19 + length ?c) (drop (56 * k) (mb_buf mb))) = 19 + length ?c"
    using in_p by (simp add: L length_payload_chunk)
  have rd: "recv_into (take (19 + length ?c) (drop (56 * k) (mb_buf mb))) (packet rid item i dest k) =
      packet rid item i dest k"
    unfolding recv_into_def win by (simp add: length_packet win[simplified])
  have "\<not> length (seqs_recvd mb) \<le> k div 8"
    using b div_le_mono[OF k, of 8] by (simp add: builds_def)
  moreover have "\<not> recvd_bit (seqs_recvd mb) k"
    using b k fresh by (simp add: builds_def)
  moreover have "take (56 * k) (mb_buf mb) @ take 19 (drop (56 * k) (mb_buf mb)) = take (56 * k + 19) (mb_buf mb)"
    by (simp add: take_add)
  ultimately show ?thesis
    unfolding mb_insert_eq Let_def packet_header_fields(1)[OF fit k]
    using win stop rd
    by (simp add: mult.commute[of k] packet_def min_absorb1 flip: append_assoc)
qed

lemma nth_block:
  assumes "a + length c \<le> length xs"
  shows "(take a xs @ c @ drop (a + length c) xs) ! j =
     (if j < a then xs ! j else if j < a + length c then c ! (j - a) else xs ! j)"
  using assms by (auto simp: nth_append)

lemma builds_insert:
  assumes fit: "fits_header item dest" and k: "k \<le> last_packet (item @ dest)"
    and b: "builds item i dest R mb" and fresh: "k \<notin> R"
  shows "\<exists>mb'. mb_insert (packet_header rid item i dest k) (packet rid item i dest k) mb = Some (True, mb') \<and>
     builds item i dest (insert k R) mb'"
proof -
  let ?p = "item @ dest" and ?c = "payload_chunk (item @ dest) k"
  let ?bs = "(seqs_recvd mb)[k div 8 := (seqs_recvd mb ! (k div 8)) OR push_bit (k mod 8) 1]"
  let ?buf = "take (56 * k + 19) (mb_buf mb) @ ?c @ drop (56 * k + 19 + length ?c) (mb_buf mb)"
  have L: "length (mb_buf mb) = 19 + length ?p" using b by (simp add: builds_def)
  have in_p: "56 * k + length ?c \<le> length ?p"
    using last_packet_bound[of ?p] fits_headerD(4)[OF fit] k unfolding length_payload_chunk by linarith
  then have fit': "56 * k + 19 + length ?c \<le> length (mb_buf mb)" unfolding L by simp
  have full: "k < last_packet ?p \<or> k = last_packet ?p" using k by auto
  have c_end: "j div 56 = k \<Longrightarrow> j < length ?p \<Longrightarrow> j < 56 * k + length ?c" for j
    unfolding length_payload_chunk by (auto simp: min_def)
  have buf: "?buf ! (19 + j) = ?p ! j" if j: "j < length ?p" "j div 56 \<in> insert k R" for j
  proof (cases "56 * k \<le> j \<and> j < 56 * k + length ?c")
    case True
    then have "?buf ! (19 + j) = ?c ! (j - 56 * k)"
      unfolding nth_block[OF fit'] by simp
    then show ?thesis using chunk_nth True by simp
  next
    case False
    then have "j div 56 \<noteq> k" using c_end[OF _ j(1)] by (metis times_div_less_eq_dividend)
    then have "mb_buf mb ! (19 + j) = ?p ! j" using b j by (simp add: builds_def)
    moreover have "?buf ! (19 + j) = mb_buf mb ! (19 + j)"
      unfolding nth_block[OF fit'] using False by auto
    ultimately show ?thesis by simp
  qed
  have "k div 8 < length (seqs_recvd mb)" using b div_le_mono[OF k, of 8] by (simp add: builds_def)
  then have bits: "recvd_bit ?bs j \<longleftrightarrow> j \<in> insert k R" if "j \<le> last_packet ?p" for j
    using recvd_bit_set b that by (auto simp: builds_def)
  have "finite R" using b by (auto simp: builds_def intro: finite_subset)
  moreover have "length ?buf = 19 + length ?p" using fit' L by simp
  ultimately have "builds item i dest (insert k R)
      (mb\<lparr>num_recvd := num_recvd mb + 1, seqs_recvd := ?bs, mb_buf := ?buf\<rparr>)"
    unfolding builds_def using b[unfolded builds_def] bits buf k fresh by simp
  then show ?thesis
    unfolding mb_insert_fresh[OF fit k b fresh] by blast
qed

lemma builds_duplicate:
  assumes "fits_header item dest" "k \<le> last_packet (item @ dest)" "builds item i dest R mb" "k \<in> R"
  shows "mb_insert (packet_header rid item i dest k) d mb = Some (False, mb)"
  using assms(3,4) packet_header_fields(1)[OF assms(1,2), of rid i] assms(2) div_le_mono[OF assms(2), of 8]
  by (simp add: mb_insert_eq Let_def builds_def)

lemma builds_finished:
  assumes "builds item i dest R mb"
  shows "mb_finished mb \<longleftrightarrow> R = {..last_packet (item @ dest)}"
proof -
  have R: "R \<subseteq> {..last_packet (item @ dest)}" using assms by (simp add: builds_def)
  have "mb_finished mb \<longleftrightarrow> card R = card {..last_packet (item @ dest)}"
    using assms by (simp add: mb_finished_def builds_def)
  also have "\<dots> \<longleftrightarrow> R = {..last_packet (item @ dest)}"
    using card_subset_eq[OF _ R] by auto
  finally show ?thesis .
qed

lemma builds_complete:
  assumes "builds item i dest {..last_packet (item @ dest)} mb"
  shows "mb_msg mb = item" "mb_dest mb = dest" "mb_intp mb = i"
proof -
  let ?p = "item @ dest"
  have L: "length (mb_buf mb) = 19 + length ?p" and ms: "unat (mb_msg_size mb) = length item"
    and nth: "\<forall>j < length ?p. j div 56 \<le> last_packet ?p \<longrightarrow> mb_buf mb ! (19 + j) = ?p ! j"
    using assms by (simp_all add: builds_def)
  have "j div 56 \<le> last_packet ?p" if "j < length ?p" for j
    unfolding last_packet_def using that by (simp add: div_le_mono)
  with nth L have d: "drop 19 (mb_buf mb) = ?p"
    by (intro nth_equalityI) auto
  then show "mb_msg mb = item" "mb_dest mb = dest"
    unfolding mb_msg_def mb_dest_def ms by (simp_all add: drop_drop[symmetric] add.commute[of 19] del: drop_drop)
  show "mb_intp mb = i" using assms by (simp add: builds_def)
qed

end
