(* ===== verification/Udp_Receiver.thy ===== *)
theory Udp_Receiver
  imports Udp_Serial "HOL-Library.Multiset"
begin

text \<open>
  The receiver of datagrams (core/udp_receiver.rs): one loop that peeks at the header of the next
  datagram, reads the datagram into the builder of its message, and forwards finished builders to
  the registry.  The socket is the queue of datagrams that have arrived; \<open>None\<close> is a panic of the
  receiver's task.  Timers are effects: the notification of a timer may reach the loop at any later
  time, which \<open>receiver_timeout\<close> models without a clock.
\<close>

record receiver =
  recvd :: "u64 \<Rightarrow> message_builder option"
  header_buf :: "u8 list"

datatype receiver_effect = Forward message_builder | Start_Timer u64 | Abort_Timer u64

definition receiver_start :: receiver where
  "receiver_start = \<lparr>recvd = (\<lambda>_. None), header_buf = replicate header_size 0\<rparr>"

text \<open>
  The branch of the loop for a datagram \<open>d\<close> at the head of the queue: whether it was taken off the
  queue, the new state, and the effects.  \<open>peek_from\<close> copies the front of the datagram over the
  buffer and leaves the rest of the buffer as it was.
\<close>

definition receiver_step :: "receiver \<Rightarrow> u8 list \<Rightarrow> (bool \<times> receiver \<times> receiver_effect list) option" where
  "receiver_step st d =
     (let st = st\<lparr>header_buf := recv_into (header_buf st) d\<rparr> in
      case header_try_from (header_buf st) of
        None \<Rightarrow> Some (True, st\<lparr>header_buf := recv_into (header_buf st) d\<rparr>, [])
      | Some header \<Rightarrow>
          (if max_seq_num header = 0 then
             (case mb_insert header d (mb_new header) of
                None \<Rightarrow> None
              | Some (taken, mb) \<Rightarrow> Some (taken, st, [Forward mb]))
           else
             (case recvd st (msg_id header) of
                Some mb \<Rightarrow>
                  (case mb_insert header d mb of
                     None \<Rightarrow> None
                   | Some (taken, mb') \<Rightarrow>
                       (if mb_finished mb'
                        then Some (taken, st\<lparr>recvd := (recvd st)(msg_id header := None)\<rparr>,
                               [Abort_Timer (msg_id header), Forward mb'])
                        else Some (taken, st\<lparr>recvd := (recvd st)(msg_id header := Some mb')\<rparr>, [])))
              | None \<Rightarrow>
                  (case mb_insert header d (mb_new header) of
                     None \<Rightarrow> None
                   | Some (taken, mb) \<Rightarrow>
                       Some (taken, st\<lparr>recvd := (recvd st)(msg_id header := Some mb)\<rparr>,
                         [Start_Timer (msg_id header)])))))"

definition receiver_timeout :: "receiver \<Rightarrow> u64 \<Rightarrow> receiver" where
  "receiver_timeout st mid = st\<lparr>recvd := (recvd st)(mid := None)\<rparr>"

text \<open>The loop over the arrived datagrams, until the queue is empty or its head stays where it is;
  the effects of every datagram taken.\<close>

fun receiver_run ::
    "receiver \<Rightarrow> u8 list list \<Rightarrow> (receiver \<times> u8 list list \<times> receiver_effect list list) option" where
  "receiver_run st [] = Some (st, [], [])"
| "receiver_run st (d # queue) =
     (case receiver_step st d of
        None \<Rightarrow> None
      | Some (taken, st', out) \<Rightarrow>
          (if taken then
             (case receiver_run st' queue of
                None \<Rightarrow> None
              | Some (st'', rest, outs) \<Rightarrow> Some (st'', rest, out # outs))
           else Some (st', d # queue, [])))"

subsection \<open>Isolation of messages\<close>

text \<open>The id a datagram of full header size names.\<close>

definition datagram_id :: "u8 list \<Rightarrow> u64 option" where
  "datagram_id d = map_option msg_id (header_try_from (take header_size d))"

lemma peek_full: "length b = 19 \<Longrightarrow> 19 \<le> length d \<Longrightarrow> recv_into b d = take 19 d"
  by (simp add: recv_into_def)

lemma datagram_id_packet:
  assumes "fits_header item dest" "k \<le> last_packet (item @ dest)"
  shows "datagram_id (packet rid item i dest k) = Some rid"
    "header_try_from (take 19 (packet rid item i dest k)) = Some (packet_header rid item i dest k)"
    "19 \<le> length (packet rid item i dest k)"
  using packet_header_fields(5)[OF assms, of rid i]
  by (simp_all add: datagram_id_def packet_def header_try_from_bytes)

lemma step_buf: "receiver_step st d = Some (t, st', out) \<Longrightarrow> length (header_buf st) = 19 \<Longrightarrow>
  length (header_buf st') = 19"
  by (auto simp: receiver_step_def Let_def recv_into_def split: option.splits if_splits)

lemma step_other:
  assumes "receiver_step st d = Some (t, st', out)" "length (header_buf st) = 19" "19 \<le> length d"
    and "datagram_id d \<noteq> Some rid"
  shows "recvd st' rid = recvd st rid"
  using assms
  by (auto simp: receiver_step_def Let_def peek_full datagram_id_def split: option.splits if_splits)

subsection \<open>Delivery of one message among others\<close>

text \<open>What the receiver holds for a message of which the packets \<open>R\<close> have arrived.\<close>

definition holds :: "u64 \<Rightarrow> u8 list \<Rightarrow> interpretations \<Rightarrow> u8 list \<Rightarrow> nat set \<Rightarrow> receiver \<Rightarrow> bool" where
  "holds rid item i dest R st \<longleftrightarrow>
     (if R = {} then recvd st rid = None
      else \<exists>mb. recvd st rid = Some mb \<and> builds item i dest R mb)"

text \<open>The forwards that the datagrams naming the id caused.\<close>

definition forwards_of :: "u64 \<Rightarrow> u8 list list \<Rightarrow> receiver_effect list list \<Rightarrow> message_builder list" where
  "forwards_of rid ds outs =
     concat (map (\<lambda>(d, es). if datagram_id d = Some rid then [mb. Forward mb \<leftarrow> es] else []) (zip ds outs))"

lemma forwards_of_simps [simp]:
  "forwards_of rid [] outs = []"
  "forwards_of rid (d # ds) (es # outs) =
     (if datagram_id d = Some rid then [mb. Forward mb \<leftarrow> es] else []) @ forwards_of rid ds outs"
  by (simp_all add: forwards_of_def)

lemma step_packet:
  assumes fit: "fits_header item dest" and k: "k \<le> last_packet (item @ dest)"
    and h: "holds rid item i dest R st" and fresh: "k \<notin> R" and R: "R \<subset> {..last_packet (item @ dest)}"
    and buf: "length (header_buf st) = 19"
  shows "\<exists>st' es. receiver_step st (packet rid item i dest k) = Some (True, st', es) \<and>
     (if insert k R = {..last_packet (item @ dest)}
      then recvd st' rid = None \<and> (\<exists>mb. [mb. Forward mb \<leftarrow> es] = [mb] \<and> builds item i dest (insert k R) mb)
      else holds rid item i dest (insert k R) st' \<and> [mb. Forward mb \<leftarrow> es] = [])"
proof -
  let ?n = "last_packet (item @ dest)" and ?h = "packet_header rid item i dest k"
  let ?d = "packet rid item i dest k"
  note pk = datagram_id_packet[OF fit k, of rid i]
  have peek: "recv_into (header_buf st) ?d = take 19 ?d"
    using buf pk(3) by (rule peek_full)
  have mx: "max_seq_num ?h = 0 \<longleftrightarrow> ?n = 0"
    using packet_header_fields(2)[OF fit k, of rid i] by (metis unat_eq_zero)
  have new: "\<exists>mb'. mb_insert ?h ?d (mb_new ?h) = Some (True, mb') \<and> builds item i dest {k} mb'"
    using builds_insert[OF fit k, of i "{}" "mb_new ?h" rid] builds_new[OF fit, of i rid]
    by (simp add: mb_new_packet_header[of rid item i dest k])
  show ?thesis
  proof (cases "?n = 0")
    case True
    then have "R = {}" "k = 0" using R k by auto
    with True new pk peek mx h show ?thesis
      by (auto simp: receiver_step_def Let_def holds_def)
  next
    case multi: False
    show ?thesis
    proof (cases "R = {}")
      case True
      have "{k} \<noteq> {..?n}" using multi by (metis atMost_iff le0 le_refl singletonD)
      with True multi new pk peek mx h show ?thesis
        by (auto simp: receiver_step_def Let_def holds_def)
    next
      case False
      with h obtain mb where mb: "recvd st rid = Some mb" "builds item i dest R mb"
        by (auto simp: holds_def)
      obtain mb' where ins: "mb_insert ?h ?d mb = Some (True, mb')" "builds item i dest (insert k R) mb'"
        using builds_insert[OF fit k mb(2) fresh] by blast
      show ?thesis
        using multi mb ins pk peek mx builds_finished[OF ins(2)]
        by (auto simp: receiver_step_def Let_def holds_def)
    qed
  qed
qed

lemma map_mset_lift: "mset xs = mset (map f ys) \<Longrightarrow> \<exists>ks. xs = map f ks \<and> mset ks = mset ys"
proof (induction xs arbitrary: ys)
  case Nil
  then show ?case by simp
next
  case (Cons x xs)
  then have "x \<in> set (map f ys)" using mset_eq_setD[of "x # xs"] by fastforce
  then obtain y where y: "y \<in> set ys" "x = f y" by auto
  have ys: "mset ys = add_mset y (mset (remove1 y ys))" using y(1) by simp
  have "add_mset (f y) (mset xs) = add_mset (f y) (image_mset f (mset (remove1 y ys)))"
    using Cons.prems ys y(2) by (metis image_mset_add_mset mset.simps(2) mset_map)
  then have "mset xs = mset (map f (remove1 y ys))" by simp
  then obtain ks where ks: "xs = map f ks" "mset ks = mset (remove1 y ys)" using Cons.IH by blast
  show ?case by (rule exI[of _ "y # ks"]) (use ks y in simp)
qed

text \<open>A message on the wire.\<close>

record wire_message =
  wm_id :: u64
  wm_item :: "u8 list"
  wm_intp :: interpretations
  wm_dest :: "u8 list"

definition wm_fits :: "wire_message \<Rightarrow> bool" where
  "wm_fits m \<longleftrightarrow> fits_header (wm_item m) (wm_dest m)"

definition wm_last :: "wire_message \<Rightarrow> nat" where
  "wm_last m = last_packet (wm_item m @ wm_dest m)"

definition wm_packet :: "wire_message \<Rightarrow> nat \<Rightarrow> u8 list" where
  "wm_packet m k = packet (wm_id m) (wm_item m) (wm_intp m) (wm_dest m) k"

definition wm_send :: "wire_message \<Rightarrow> u8 list list" where
  "wm_send m = the (map_option ser_send (ser_new (wm_id m) (wm_item m) (wm_intp m) (wm_dest m)))"

definition wm_holds :: "wire_message \<Rightarrow> nat set \<Rightarrow> receiver \<Rightarrow> bool" where
  "wm_holds m R st = holds (wm_id m) (wm_item m) (wm_intp m) (wm_dest m) R st"

definition wm_builds :: "wire_message \<Rightarrow> nat set \<Rightarrow> message_builder \<Rightarrow> bool" where
  "wm_builds m R mb = builds (wm_item m) (wm_intp m) (wm_dest m) R mb"

lemmas wm_defs = wm_fits_def wm_last_def wm_packet_def wm_holds_def wm_builds_def

text \<open>What is still to come of a message: the packets \<open>ks\<close>, those of \<open>R\<close> having arrived.\<close>

definition awaits :: "wire_message \<Rightarrow> u8 list list \<Rightarrow> nat set \<Rightarrow> bool" where
  "awaits m ds R \<longleftrightarrow>
     (\<exists>ks. filter (\<lambda>d. datagram_id d = Some (wm_id m)) ds = map (wm_packet m) ks \<and> distinct ks \<and>
        (ks = [] \<and> R = {} \<or> ks \<noteq> [] \<and> set ks \<inter> R = {} \<and> set ks \<union> R = {..wm_last m}))"

lemma awaits_step:
  assumes "awaits m (wm_packet m k # ds) R" and "wm_fits m" and "k \<le> wm_last m"
  shows "k \<notin> R" and "R \<subset> {..wm_last m}"
    and "awaits m ds (if insert k R = {..wm_last m} then {} else insert k R)"
    and "insert k R = {..wm_last m} \<longleftrightarrow> filter (\<lambda>d. datagram_id d = Some (wm_id m)) ds = []"
proof -
  have "datagram_id (wm_packet m k) = Some (wm_id m)"
    using datagram_id_packet(1) assms(2,3) by (simp add: wm_defs)
  with assms(1) obtain k' ks where ks: "wm_packet m k = wm_packet m k'"
      "filter (\<lambda>d. datagram_id d = Some (wm_id m)) ds = map (wm_packet m) ks"
      "distinct (k' # ks)" "set (k' # ks) \<inter> R = {}" "set (k' # ks) \<union> R = {..wm_last m}"
    by (auto simp: awaits_def map_eq_Cons_conv)
  have k': "k' \<le> wm_last m" using ks(5) by auto
  have "packet_header (wm_id m) (wm_item m) (wm_intp m) (wm_dest m) k =
      packet_header (wm_id m) (wm_item m) (wm_intp m) (wm_dest m) k'"
    using datagram_id_packet(2) assms(2,3) k' ks(1) by (metis option.inject wm_defs(1-3))
  then have "k = k'" using packet_header_fields(1) assms(2,3) k' by (metis wm_defs(1,2))
  note ks = ks(2-)[folded this]
  have full: "insert k R = {..wm_last m} \<longleftrightarrow> ks = []"
  proof
    assume "insert k R = {..wm_last m}"
    then have "set ks \<subseteq> insert k R" using ks(4) by auto
    then show "ks = []" using ks(2,3) by (cases ks) auto
  qed (use ks in auto)
  show "awaits m ds (if insert k R = {..wm_last m} then {} else insert k R)"
    unfolding awaits_def full by (rule exI[of _ ks]) (use ks in auto)
  show "k \<notin> R" using ks(3) by simp
  then show "R \<subset> {..wm_last m}" using ks(4) by auto
  show "insert k R = {..wm_last m} \<longleftrightarrow> filter (\<lambda>d. datagram_id d = Some (wm_id m)) ds = []"
    unfolding full ks(1) by simp
qed

lemma awaits_skip: "datagram_id d \<noteq> Some (wm_id m) \<Longrightarrow> awaits m (d # ds) R = awaits m ds R"
  by (simp add: awaits_def)

definition deliver_post :: "receiver \<Rightarrow> u8 list list \<Rightarrow> receiver_effect list list \<Rightarrow> wire_message \<Rightarrow> bool" where
  "deliver_post st' ds outs m \<longleftrightarrow>
     recvd st' (wm_id m) = None \<and>
     (if filter (\<lambda>d. datagram_id d = Some (wm_id m)) ds = [] then forwards_of (wm_id m) ds outs = []
      else \<exists>mb. forwards_of (wm_id m) ds outs = [mb] \<and> wm_builds m {..wm_last m} mb)"

lemma receiver_run_delivers:
  assumes "\<forall>m\<in>M. wm_fits m" and "inj_on wm_id M"
    and "\<forall>d\<in>set ds. \<exists>m\<in>M. \<exists>k\<le>wm_last m. d = wm_packet m k"
    and "\<forall>m\<in>M. \<exists>R. awaits m ds R \<and> wm_holds m R st"
    and "length (header_buf st) = 19"
  shows "\<exists>st' outs. receiver_run st ds = Some (st', [], outs) \<and> (\<forall>m\<in>M. deliver_post st' ds outs m)"
  using assms
proof (induction ds arbitrary: st)
  case Nil
  have "recvd st (wm_id m) = None" if "m \<in> M" for m
    using Nil.prems(4) that by (force simp: awaits_def wm_holds_def holds_def)
  then show ?case by (simp add: deliver_post_def)
next
  case (Cons d ds)
  obtain m k where m: "m \<in> M" "k \<le> wm_last m" "d = wm_packet m k" using Cons.prems(3) by auto
  then have fit: "wm_fits m" using Cons.prems(1) by simp
  obtain R where R: "awaits m (wm_packet m k # ds) R" "wm_holds m R st"
    using bspec[OF Cons.prems(4) m(1)] unfolding m(3) by (elim exE conjE)
  note pk = datagram_id_packet[OF fit[unfolded wm_fits_def] m(2)[unfolded wm_last_def],
      of "wm_id m" "wm_intp m", folded wm_packet_def m(3)]
  note a = awaits_step[OF R(1) fit m(2)]
  obtain st1 es where st1: "receiver_step st d = Some (True, st1, es)"
    and eff: "if insert k R = {..wm_last m}
      then recvd st1 (wm_id m) = None \<and> (\<exists>mb. [mb. Forward mb \<leftarrow> es] = [mb] \<and> wm_builds m (insert k R) mb)
      else wm_holds m (insert k R) st1 \<and> [mb. Forward mb \<leftarrow> es] = []"
    using step_packet[OF fit[unfolded wm_fits_def] m(2)[unfolded wm_last_def] R(2)[unfolded wm_holds_def]
        a(1) a(2)[unfolded wm_last_def] Cons.prems(5)]
    unfolding wm_defs m(3) by blast
  have h1: "wm_holds m (if insert k R = {..wm_last m} then {} else insert k R) st1"
    using eff by (cases "insert k R = {..wm_last m}") (simp_all only: if_True if_False, simp_all add: wm_holds_def holds_def)
  have other: "wm_id m' \<noteq> wm_id m" if "m' \<in> M" "m' \<noteq> m" for m'
    using that m(1) Cons.prems(2) by (auto dest: inj_onD)
  have await1: "\<exists>R. awaits m' ds R \<and> wm_holds m' R st1" if m': "m' \<in> M" for m'
  proof (cases "m' = m")
    case True
    then show ?thesis using a(3) h1 by blast
  next
    case False
    have "recvd st1 (wm_id m') = recvd st (wm_id m')"
    proof (rule step_other[OF st1 Cons.prems(5) pk(3)])
      show "datagram_id d \<noteq> Some (wm_id m')" using pk(1) other[OF that False] by simp
    qed
    moreover have "datagram_id d \<noteq> Some (wm_id m')" using pk(1) other[OF that False] by simp
    moreover obtain R' where "awaits m' (d # ds) R'" "wm_holds m' R' st"
      using bspec[OF Cons.prems(4) m'] by (elim exE conjE)
    ultimately have "awaits m' ds R' \<and> wm_holds m' R' st1"
      by (simp add: awaits_skip wm_holds_def holds_def)
    then show ?thesis by blast
  qed
  have "\<exists>st' outs. receiver_run st1 ds = Some (st', [], outs) \<and> (\<forall>m\<in>M. deliver_post st' ds outs m)"
  proof (rule Cons.IH)
    show "\<forall>d\<in>set ds. \<exists>m\<in>M. \<exists>k\<le>wm_last m. d = wm_packet m k" using Cons.prems(3) by simp
    show "\<forall>m\<in>M. \<exists>R. awaits m ds R \<and> wm_holds m R st1" using await1 by blast
    show "length (header_buf st1) = 19" by (rule step_buf[OF st1 Cons.prems(5)])
  qed (fact Cons.prems)+
  then obtain st' outs where run: "receiver_run st1 ds = Some (st', [], outs)"
    and post: "\<forall>m\<in>M. deliver_post st' ds outs m" by blast
  have "deliver_post st' (d # ds) (es # outs) m'" if "m' \<in> M" for m'
  proof (cases "m' = m")
    case True
    then show ?thesis
      using post m(1) eff pk(1) a(4) by (auto simp: deliver_post_def split: if_splits)
  next
    case False
    then show ?thesis
      using post that pk(1) other[OF that False] by (auto simp: deliver_post_def)
  qed
  with run st1 show ?case by auto
qed

subsection \<open>Properties of the receiver\<close>

lemma wm_send_eq: "wm_fits m \<Longrightarrow> wm_send m = map (wm_packet m) [0..<Suc (wm_last m)]"
  using ser_send_raw[OF fits_headerD(4), of "wm_item m" "wm_dest m" "wm_id m" "wm_intp m"]
  by (auto simp: wm_send_def wm_fits_def wm_last_def wm_packet_def[abs_def])

lemma awaits_all:
  assumes "wm_fits m" "mset (filter (\<lambda>d. datagram_id d = Some (wm_id m)) ds) = mset (wm_send m)"
  shows "awaits m ds {}"
proof -
  obtain ks where ks: "filter (\<lambda>d. datagram_id d = Some (wm_id m)) ds = map (wm_packet m) ks"
      "mset ks = mset [0..<Suc (wm_last m)]"
    using map_mset_lift assms(2) unfolding wm_send_eq[OF assms(1)] by blast
  from ks(2) have "set ks = set [0..<Suc (wm_last m)]" by (rule mset_eq_setD)
  then have s: "set ks = {..wm_last m}" by (simp only: set_upt atLeastLessThanSuc_atLeastAtMost atLeast0AtMost)
  then have "ks \<noteq> []" by auto
  moreover have "distinct ks" using mset_eq_imp_distinct_iff[OF ks(2)] by simp
  ultimately show ?thesis
    unfolding awaits_def using ks(1) s by blast
qed

lemma receiver_delivers_raw:
  assumes "\<forall>m\<in>set ms. wm_fits m" and "distinct (map wm_id ms)"
    and "length (header_buf st) = header_size" and "\<forall>m\<in>set ms. recvd st (wm_id m) = None"
    and "\<forall>m\<in>set ms. mset (filter (\<lambda>d. datagram_id d = Some (wm_id m)) ds) = mset (wm_send m)"
    and "\<forall>d\<in>set ds. \<exists>m\<in>set ms. datagram_id d = Some (wm_id m)"
  shows "\<exists>st' outs. receiver_run st ds = Some (st', [], outs) \<and>
     (\<forall>m\<in>set ms. recvd st' (wm_id m) = None \<and>
        (\<exists>mb. forwards_of (wm_id m) ds outs = [mb] \<and> mb_msg mb = wm_item m \<and>
           mb_dest mb = wm_dest m \<and> mb_intp mb = wm_intp m))"
proof -
  have await: "awaits m ds {} \<and> wm_holds m {} st" if "m \<in> set ms" for m
    using awaits_all assms(1,4,5) that by (simp add: wm_holds_def holds_def)
  have ds: "\<exists>m\<in>set ms. \<exists>k\<le>wm_last m. d = wm_packet m k" if "d \<in> set ds" for d
  proof -
    obtain m where m: "m \<in> set ms" "datagram_id d = Some (wm_id m)" using assms(6) \<open>d \<in> set ds\<close> by blast
    then have "d \<in> set (filter (\<lambda>d. datagram_id d = Some (wm_id m)) ds)" using \<open>d \<in> set ds\<close> by simp
    also have "\<dots> = set (wm_send m)" using assms(5) m(1) by (intro mset_eq_setD) simp
    finally have "d \<in> set (wm_send m)" .
    then have "d \<in> wm_packet m ` set [0..<Suc (wm_last m)]"
      unfolding wm_send_eq[OF bspec[OF assms(1) m(1)]] by (simp only: set_map)
    then have "d \<in> wm_packet m ` {..wm_last m}"
      by (simp only: set_upt atLeastLessThanSuc_atLeastAtMost atLeast0AtMost)
    with m(1) show ?thesis by blast
  qed
  have "inj_on wm_id (set ms)" using assms(2) by (simp add: distinct_map)
  then obtain st' outs where run: "receiver_run st ds = Some (st', [], outs)"
      and post: "\<forall>m\<in>set ms. deliver_post st' ds outs m"
    using receiver_run_delivers[OF assms(1), of ds st] await ds assms(3) by blast
  have "recvd st' (wm_id m) = None \<and> (\<exists>mb. forwards_of (wm_id m) ds outs = [mb] \<and> mb_msg mb = wm_item m \<and>
           mb_dest mb = wm_dest m \<and> mb_intp mb = wm_intp m)" if "m \<in> set ms" for m
  proof -
    have "wm_send m \<noteq> []" using assms(1) that wm_send_eq by simp
    then have "filter (\<lambda>d. datagram_id d = Some (wm_id m)) ds \<noteq> []"
      using bspec[OF assms(5) that] by (metis mset_zero_iff)
    then show ?thesis
      using post that unfolding deliver_post_def by (metis builds_complete wm_builds_def wm_last_def)
  qed
  with run show ?thesis by blast
qed

text \<open>
  Property C9.  Exactly-once delivery over a reordering network.  Let the datagrams of several
  messages arrive in any order and interleaved in any way, each datagram once.  Then the receiver
  takes every datagram, never panics, forwards exactly one builder for every message, and that
  builder holds the message, the destination and the interpretation that were sent, byte for byte.
\<close>

theorem receiver_delivers_exactly_once:
  assumes "\<forall>m\<in>set ms. wm_fits m" and "distinct (map wm_id ms)"
    and "length (header_buf st) = header_size" and "\<forall>m\<in>set ms. recvd st (wm_id m) = None"
    and "\<forall>m\<in>set ms. mset (filter (\<lambda>d. datagram_id d = Some (wm_id m)) ds) = mset (wm_send m)"
    and "\<forall>d\<in>set ds. \<exists>m\<in>set ms. datagram_id d = Some (wm_id m)"
  shows "\<exists>st' outs. receiver_run st ds = Some (st', [], outs) \<and>
     (\<forall>m\<in>set ms. recvd st' (wm_id m) = None \<and>
        (\<exists>mb. forwards_of (wm_id m) ds outs = [mb] \<and> mb_msg mb = wm_item m \<and>
           mb_dest mb = wm_dest m \<and> mb_intp mb = wm_intp m))"
  by (rule receiver_delivers_raw[OF assms])

lemma mb_insert_taken: "mb_insert h d mb = Some (True, mb') \<Longrightarrow>
    num_recvd mb' = num_recvd mb + 1 \<and> mb_max_seq_num mb' = mb_max_seq_num mb"
  by (auto simp: mb_insert_eq Let_def split: if_splits)

lemma mb_insert_new_taken: "header_ok h \<Longrightarrow> mb_insert h d (mb_new h) = Some (t, mb) \<Longrightarrow> t"
  using recvd_bit_mb_new[of "unat (seq_num h)" h]
  by (auto simp: mb_insert_eq Let_def header_ok_def word_le_nat_alt split: if_splits)

text \<open>
  Fact.  Whatever arrives, malformed datagrams included, the receiver only ever forwards
  builders that count as many packets as the message has.
\<close>

theorem receiver_forwards_finished:
  assumes "receiver_step st d = Some (taken, st', es)" and "Forward mb \<in> set es"
  shows "mb_finished mb"
proof -
  have fin: "mb_finished mb" if "header_try_from bs = Some h" "max_seq_num h = 0"
    "mb_insert h d (mb_new h) = Some (t, mb)" for bs h t
  proof -
    have "mb_insert h d (mb_new h) = Some (True, mb)"
      using mb_insert_new_taken[OF header_try_from_ok[OF that(1)] that(3)] that(3) by simp
    from mb_insert_taken[OF this] that(2) show ?thesis
      by (simp add: mb_finished_def mb_new_def Let_def)
  qed
  show ?thesis
    using assms by (auto simp: receiver_step_def Let_def split: option.splits if_splits dest: fin)
qed

text \<open>
  Fact.  A duplicate of a packet that has been received is not taken off the socket: \<open>insert\<close>
  returns before it reads.  The loop peeks at the same datagram again, nothing behind it is
  processed, and only the timeout that drops the whole message ends this.
\<close>

theorem receiver_duplicate_blocks:
  assumes "fits_header item dest" and "k \<le> last_packet (item @ dest)" and "k \<in> R"
    and "R \<noteq> {..last_packet (item @ dest)}" and "holds rid item i dest R st"
    and "length (header_buf st) = header_size" and "0 < last_packet (item @ dest)"
  shows "\<exists>st'. receiver_run st (packet rid item i dest k # queue) =
     Some (st', packet rid item i dest k # queue, []) \<and> recvd st' = recvd st"
proof -
  obtain mb where mb: "recvd st rid = Some mb" "builds item i dest R mb"
    using assms(3,5) by (auto simp: holds_def split: if_splits)
  have "max_seq_num (packet_header rid item i dest k) \<noteq> 0"
    using packet_header_fields(2)[OF assms(1,2), of rid i] assms(7) by (metis less_numeral_extra(3) unat_0)
  then show ?thesis
    using datagram_id_packet[OF assms(1,2), of rid i] builds_duplicate[OF assms(1,2) mb(2) assms(3)] mb
      builds_finished[OF mb(2)] assms(4,6)
    by (simp add: receiver_step_def Let_def peek_full fun_upd_idem)
qed

text \<open>
  Fact.  The number of bytes a peek returned is not looked at.  An empty datagram that follows
  a message of a single packet is taken for another packet with the same header, and a builder of
  zero bytes is forwarded to the registry under that header.
\<close>

theorem receiver_empty_datagram_replays:
  assumes "header_try_from (header_buf st) = Some h" and "max_seq_num h = 0" and "length (header_buf st) = 19"
  shows "\<exists>mb. receiver_run st [[]] = Some (st, [], [[Forward mb]]) \<and>
     mb_dest mb = replicate (unat (dest_size h)) 0 \<and> mb_msg mb = replicate (unat (msg_size h)) 0"
proof -
  have ok: "seq_num h = 0" "header_ok h"
    using header_try_from_ok[OF assms(1)] assms(2) by (simp_all add: header_ok_def)
  let ?n = "unat (msg_size h) + unat (dest_size h)"
  have nb: "\<not> recvd_bit (seqs_recvd (mb_new h)) 0" by (rule recvd_bit_mb_new) simp
  have b: "mb_buf (mb_new h) = replicate (?n + 19) 0" by (simp add: mb_new_def Let_def)
  have win: "take a (replicate n (0 :: u8)) @ (take 19 w @ drop 19 (recv_into w [])) @ drop b (replicate n 0)
      = replicate n 0" if "a \<le> b" "b \<le> n" "w = replicate (b - a) 0" for a b n w
    using that by (simp add: recv_into_def flip: replicate_add)
  have "\<exists>mb. mb_insert h [] (mb_new h) = Some (True, mb) \<and> mb_buf mb = replicate (?n + 19) 0 \<and>
      mb_msg_size mb = msg_size h"
    using length_mb_new_bitmap[of h] nb ok(1) win[of 0 "min 75 (?n + 19)" "?n + 19"]
    by (simp add: mb_insert_eq Let_def b) (simp add: mb_new_def Let_def)
  then obtain mb where mb: "mb_insert h [] (mb_new h) = Some (True, mb)" "mb_buf mb = replicate (?n + 19) 0"
      "mb_msg_size mb = msg_size h" by blast
  have "recv_into (header_buf st) [] = header_buf st" by (simp add: recv_into_def)
  then show ?thesis
    using assms mb by (intro exI[of _ mb]) (simp add: receiver_step_def Let_def mb_dest_def mb_msg_def)
qed

subsection \<open>Instances\<close>

definition sample_wire :: "u64 \<Rightarrow> nat \<Rightarrow> wire_message" where
  "sample_wire rid n = \<lparr>wm_id = rid, wm_item = replicate n 1, wm_intp = Message, wm_dest = [2, 3]\<rparr>"

lemma sample_wire_fits: "n \<le> 1000 \<Longrightarrow> wm_fits (sample_wire rid n)"
  by (simp add: wm_fits_def sample_wire_def fits_header_def)

lemma sample_wire_last: "wm_last (sample_wire rid 100) = 1" "wm_last (sample_wire rid 10) = 0"
  by (simp_all add: wm_last_def last_packet_def sample_wire_def)

lemma sample_wire_id [simp]: "wm_id (sample_wire rid n) = rid"
  by (simp add: sample_wire_def)

lemma sample_packet_id:
  assumes "n \<le> 1000" "k \<le> wm_last (sample_wire rid n)"
  shows "datagram_id (wm_packet (sample_wire rid n) k) = Some rid"
  unfolding wm_packet_def sample_wire_id
  by (rule datagram_id_packet(1))
    (use assms sample_wire_fits[OF assms(1), of rid] in \<open>simp_all add: wm_fits_def wm_last_def\<close>)

text \<open>Two messages, the datagrams of the longer one out of order and around the other.\<close>

theorem receiver_delivers_exactly_once_witness:
  "\<exists>st' outs mb. receiver_run receiver_start
       [wm_packet (sample_wire 7 100) 1, wm_packet (sample_wire 8 10) 0, wm_packet (sample_wire 7 100) 0] =
       Some (st', [], outs) \<and>
     forwards_of 7 [wm_packet (sample_wire 7 100) 1, wm_packet (sample_wire 8 10) 0, wm_packet (sample_wire 7 100) 0]
       outs = [mb] \<and> mb_msg mb = replicate 100 1"
proof -
  let ?ms = "[sample_wire 7 100, sample_wire 8 10]"
  let ?ds = "[wm_packet (sample_wire 7 100) 1, wm_packet (sample_wire 8 10) 0, wm_packet (sample_wire 7 100) 0]"
  have ids: "datagram_id (wm_packet (sample_wire 7 100) 1) = Some 7"
    "datagram_id (wm_packet (sample_wire 7 100) 0) = Some 7"
    "datagram_id (wm_packet (sample_wire 8 10) 0) = Some 8"
    by (simp_all add: sample_packet_id sample_wire_last)
  have send: "wm_send (sample_wire 7 100) = [wm_packet (sample_wire 7 100) 0, wm_packet (sample_wire 7 100) 1]"
    "wm_send (sample_wire 8 10) = [wm_packet (sample_wire 8 10) 0]"
    by (simp_all add: wm_send_eq sample_wire_fits sample_wire_last upt_rec)
  have "\<exists>st' outs. receiver_run receiver_start ?ds = Some (st', [], outs) \<and>
     (\<forall>m\<in>set ?ms. recvd st' (wm_id m) = None \<and>
        (\<exists>mb. forwards_of (wm_id m) ?ds outs = [mb] \<and> mb_msg mb = wm_item m \<and>
           mb_dest mb = wm_dest m \<and> mb_intp mb = wm_intp m))"
  proof (rule receiver_delivers_exactly_once)
    show "\<forall>m\<in>set ?ms. wm_fits m" by (simp add: sample_wire_fits)
    show "\<forall>m\<in>set ?ms. mset (filter (\<lambda>d. datagram_id d = Some (wm_id m)) ?ds) = mset (wm_send m)"
      by (simp add: ids[simplified] send[simplified])
    show "\<forall>d\<in>set ?ds. \<exists>m\<in>set ?ms. datagram_id d = Some (wm_id m)" by (simp add: ids[simplified])
  qed (simp_all add: receiver_start_def)
  then show ?thesis by (auto simp: sample_wire_def)
qed

definition sample_small :: datagram_header where
  "sample_small = \<lparr>msg_id = 8, seq_num = 0, max_seq_num = 0, msg_size = 1, dest_size = 2, intp = Message\<rparr>"

definition sample_receiver :: receiver where
  "sample_receiver = \<lparr>recvd = (\<lambda>_. None), header_buf = header_bytes sample_small\<rparr>"

lemma sample_receiver_simps:
  "header_try_from (header_buf sample_receiver) = Some sample_small" "length (header_buf sample_receiver) = 19"
  "max_seq_num sample_small = 0" "unat (dest_size sample_small) = 2" "unat (msg_size sample_small) = 1"
  "seq_num sample_small = 0" "recv_into (header_buf sample_receiver) [] = header_buf sample_receiver"
  by (simp_all add: sample_receiver_def header_try_from_bytes header_ok_def sample_small_def recv_into_def)

theorem receiver_empty_datagram_replays_witness:
  "\<exists>mb. receiver_run sample_receiver [[]] = Some (sample_receiver, [], [[Forward mb]]) \<and>
     mb_dest mb = [0, 0] \<and> mb_msg mb = [0]"
  using receiver_empty_datagram_replays[OF sample_receiver_simps(1,3,2)]
  by (simp add: sample_receiver_simps(4,5) numeral_2_eq_2)

theorem receiver_forwards_finished_witness:
  "\<exists>mb. receiver_step sample_receiver [] = Some (True, sample_receiver, [Forward mb]) \<and> mb_finished mb"
proof -
  have "mb_insert sample_small [] (mb_new sample_small) \<noteq> None"
    using mb_insert_new_None[OF sample_receiver_simps(1), of "[]"] by (simp add: sample_receiver_simps)
  then obtain t mb where mb: "mb_insert sample_small [] (mb_new sample_small) = Some (t, mb)" by auto
  moreover have t by (rule mb_insert_new_taken[OF header_try_from_ok[OF sample_receiver_simps(1)] mb])
  ultimately have step: "receiver_step sample_receiver [] = Some (True, sample_receiver, [Forward mb])"
    by (simp add: receiver_step_def Let_def sample_receiver_simps)
  have "mb_finished mb" by (rule receiver_forwards_finished[OF step]) simp
  with step show ?thesis by auto
qed

theorem receiver_duplicate_blocks_witness:
  "\<forall>queue. \<exists>st st'. receiver_run st (packet 7 (replicate 100 1) Message [2, 3] 0 # queue) =
     Some (st', packet 7 (replicate 100 1) Message [2, 3] 0 # queue, []) \<and> recvd st 7 \<noteq> None"
proof (rule allI)
  fix queue
  let ?i = "replicate 100 (1 :: u8)" and ?d = "[2 :: u8, 3]"
  have fit: "fits_header ?i ?d" and last: "last_packet (?i @ ?d) = 1"
    by (simp_all add: fits_header_def last_packet_def)
  obtain st es where "if insert 0 {} = {..last_packet (?i @ ?d)}
      then recvd st 7 = None \<and> (\<exists>mb. [mb. Forward mb \<leftarrow> es] = [mb] \<and> builds ?i Message ?d (insert 0 {}) mb)
      else holds 7 ?i Message ?d (insert 0 {}) st \<and> [mb. Forward mb \<leftarrow> es] = []"
    and step: "receiver_step receiver_start (packet 7 ?i Message ?d 0) = Some (True, st, es)"
    using step_packet[OF fit, of 0 7 Message "{}" receiver_start] last
    by (auto simp: holds_def receiver_start_def)
  moreover have ne: "insert 0 {} \<noteq> {..1::nat}" by (auto dest: equalityD2[THEN subsetD, of _ _ 1])
  ultimately have h: "holds 7 ?i Message ?d {0} st" unfolding last by (simp del: One_nat_def)
  have "length (header_buf st) = 19" by (rule step_buf[OF step]) (simp add: receiver_start_def)
  then show "\<exists>st st'. receiver_run st (packet 7 (replicate 100 1) Message [2, 3] 0 # queue) =
     Some (st', packet 7 (replicate 100 1) Message [2, 3] 0 # queue, []) \<and> recvd st 7 \<noteq> None"
    using receiver_duplicate_blocks[OF fit _ _ _ h, of 0 queue] last ne h by (auto simp: holds_def)
qed

end
