(* ===== verification/Actor_Registry.thy ===== *)
theory Actor_Registry
  imports Udp_Serial
begin

text \<open>
  Actor references and the registry (core/actor.rs, core/actor_ref.rs, core/registry.rs).  A local
  reference is the mailbox it closes over together with the conversion into the mailbox's type, so
  sending through it either appends to that mailbox or fails because the mailbox is closed.  The
  registry maps actor identifiers to mailboxes and routes reassembled datagrams to them.  The codec
  of destinations is a parameter.
\<close>

datatype ('u, 's) actor_msg =
  Msg "'s local_actor_msg" | Serial 'u message_builder | Primary_Request | Die

subsection \<open>Local references\<close>

text \<open>A mailbox: whether its receiving half is alive, and the messages in it.\<close>

record ('u, 's) mailbox =
  mbox_open :: bool
  mbox_queue :: "('u, 's) actor_msg list"

definition mailbox_send :: "('u, 's) actor_msg \<Rightarrow> ('u, 's) mailbox \<Rightarrow> bool \<times> ('u, 's) mailbox" where
  "mailbox_send m b =
     (if mbox_open b then (True, b\<lparr>mbox_queue := mbox_queue b @ [m]\<rparr>) else (False, b))"

text \<open>\<open>LocalRef<T>\<close>: the function it holds, on the state of the mailboxes it reaches.\<close>

type_synonym ('t, 'w) local_ref = "'t local_actor_msg \<Rightarrow> 'w \<Rightarrow> bool \<times> 'w"

definition create_local :: "('t \<Rightarrow> 's) \<Rightarrow> ('t, ('u, 's) mailbox) local_ref" where
  "create_local into = (\<lambda>x. mailbox_send (Msg (local_actor_msg_convert into x)))"

definition local_send :: "('t, 'w) local_ref \<Rightarrow> 't \<Rightarrow> 'w \<Rightarrow> bool \<times> 'w" where
  "local_send r item = r (Local_Msg item)"

definition local_signal :: "('t, 'w) local_ref \<Rightarrow> actor_signal \<Rightarrow> 'w \<Rightarrow> bool \<times> 'w" where
  "local_signal r sig = r (Local_Signal sig)"

definition local_transform :: "('i \<Rightarrow> 't) \<Rightarrow> ('t, 'w) local_ref \<Rightarrow> ('i, 'w) local_ref" where
  "local_transform into r = (\<lambda>x. r (local_actor_msg_convert into x))"

definition local_void :: "('t, 'w) local_ref" where
  "local_void = (\<lambda>_ w. (False, w))"

definition ser_recvr :: "'u \<Rightarrow> message_builder \<Rightarrow> ('u, 's) mailbox \<Rightarrow> bool \<times> ('u, 's) mailbox" where
  "ser_recvr unified mb = mailbox_send (Serial unified mb)"

subsection \<open>Location-transparent references\<close>

text \<open>What a send does: it goes to a local mailbox, with the success it reports, or to a socket.\<close>

datatype 'w sent = Sent_Local bool 'w | Sent_Udp socket udp_serial

type_synonym ('u, 't, 'w) aref = "('u, ('t, 'w) local_ref) actor_ref"

definition ref_valid :: "('u \<Rightarrow> 'u \<Rightarrow> bool) \<Rightarrow> 'u \<Rightarrow> ('u, 'l) actor_ref \<Rightarrow> bool" where
  "ref_valid has_interface variant_I r = destination_valid has_interface variant_I (ref_dest r)"

definition ref_send ::
    "('t \<Rightarrow> u8 list) \<Rightarrow> ('u destination \<Rightarrow> u8 list) \<Rightarrow> u64 \<Rightarrow> ('u, 't, 'w) aref \<Rightarrow> 't \<Rightarrow> 'w \<Rightarrow> 'w sent option" where
  "ref_send enc enc_dest rid r item w =
     (case ref_local r of
        Some l \<Rightarrow> (let res = local_send l item w in Some (Sent_Local (fst res) (snd res)))
      | None \<Rightarrow> map_option (Sent_Udp (ref_socket r)) (ser_msg enc enc_dest rid (ref_dest r) item))"

definition ref_move_to ::
    "('t \<Rightarrow> u8 list) \<Rightarrow> ('u destination \<Rightarrow> u8 list) \<Rightarrow> u64 \<Rightarrow> ('u, 't, 'w) aref \<Rightarrow> 't \<Rightarrow> 'w \<Rightarrow> 'w sent option" where
  "ref_move_to enc enc_dest rid r item w =
     (case ref_local r of
        Some l \<Rightarrow> (let res = local_send l item w in Some (Sent_Local (fst res) (snd res)))
      | None \<Rightarrow> map_option (Sent_Udp (ref_socket r)) (ser_msg enc enc_dest rid (ref_dest r) item))"

definition ref_remote_send ::
    "('t \<Rightarrow> u8 list) \<Rightarrow> ('u destination \<Rightarrow> u8 list) \<Rightarrow> u64 \<Rightarrow> ('u, 't, 'w) aref \<Rightarrow> 't \<Rightarrow> 'w sent option" where
  "ref_remote_send enc enc_dest rid r item =
     map_option (Sent_Udp (ref_socket r)) (ser_msg enc enc_dest rid (ref_dest r) item)"

definition ref_signal ::
    "(actor_signal \<Rightarrow> u8 list) \<Rightarrow> ('u destination \<Rightarrow> u8 list) \<Rightarrow> u64 \<Rightarrow> ('u, 't, 'w) aref \<Rightarrow> actor_signal \<Rightarrow> 'w \<Rightarrow>
     'w sent option" where
  "ref_signal enc_sig enc_dest rid r sig w =
     (case ref_local r of
        Some l \<Rightarrow> (let res = local_signal l sig w in Some (Sent_Local (fst res) (snd res)))
      | None \<Rightarrow> map_option (Sent_Udp (ref_socket r)) (ser_sig enc_sig enc_dest rid (ref_dest r) sig))"

text \<open>\<open>ActorContext::interface\<close>: a reference to the actor itself under an interface of its type.\<close>

definition ctx_interface ::
    "'u \<Rightarrow> 'u \<Rightarrow> ('t \<Rightarrow> 's) \<Rightarrow> socket \<Rightarrow> 'u actor_id \<Rightarrow> ('u, 't, ('u, 's) mailbox) aref" where
  "ctx_interface variant_S variant_T into sock name =
     \<lparr>ref_socket = sock, ref_dest = destination_new variant_S variant_T (actor_name name),
      ref_local = Some (create_local into)\<rparr>"

lemma transform_create_local:
  "local_transform into' (create_local into) = create_local (into \<circ> into')"
  by (rule ext) (simp add: local_transform_def create_local_def local_actor_msg_convert_def
      split: local_actor_msg.splits)

subsection \<open>The registry\<close>

text \<open>The mailboxes live at addresses \<open>'c\<close> of the world; a registered receiver is an address.\<close>

type_synonym ('c, 'u, 's) mailboxes = "'c \<Rightarrow> ('u, 's) mailbox"

datatype ('u, 'c) registry_msg =
  Reg_Forward message_builder | Reg_Register "'u actor_id" 'c bool | Reg_Deregister "'u actor_id"

record ('u, 'c) registry =
  register :: "'u actor_id \<Rightarrow> 'c option"

definition registry_new :: "('u, 'c) registry" where
  "registry_new = \<lparr>register = (\<lambda>_. None)\<rparr>"

text \<open>
  \<open>Registry::recv\<close>.  The flag of \<open>Reg_Register\<close> tells whether the registering task is still there
  to take the confirmation; the result is \<open>None\<close> where the destination cannot be decoded and the
  code unwraps nothing.
\<close>

definition registry_recv ::
    "(u8 list \<Rightarrow> 'u destination option) \<Rightarrow> ('u, 'c) registry \<Rightarrow> ('c, 'u, 's) mailboxes \<Rightarrow>
     ('u, 'c) registry_msg \<Rightarrow> (('u, 'c) registry \<times> ('c, 'u, 's) mailboxes) option" where
  "registry_recv decode_dest reg w msg =
     (case msg of
        Reg_Forward mb \<Rightarrow>
          (case decode_dest (mb_dest mb) of
             None \<Rightarrow> None
           | Some (Destination name interface) \<Rightarrow>
               (case register reg name of
                  Some recvr \<Rightarrow>
                    (let res = ser_recvr interface mb (w recvr) in
                     if \<not> fst res then Some (reg\<lparr>register := (register reg)(name := None)\<rparr>, w(recvr := snd res))
                     else Some (reg, w(recvr := snd res)))
                | None \<Rightarrow> Some (reg, w)))
      | Reg_Register name channel confirmed \<Rightarrow>
          (case register reg name of
             Some _ \<Rightarrow> Some (reg, w)
           | None \<Rightarrow>
               (if \<not> confirmed then Some (reg, w)
                else Some (reg\<lparr>register := (register reg)(name := Some channel)\<rparr>, w)))
      | Reg_Deregister name \<Rightarrow> Some (reg\<lparr>register := (register reg)(name := None)\<rparr>, w))"

fun registry_run ::
    "(u8 list \<Rightarrow> 'u destination option) \<Rightarrow> ('u, 'c) registry \<Rightarrow> ('c, 'u, 's) mailboxes \<Rightarrow>
     ('u, 'c) registry_msg list \<Rightarrow> (('u, 'c) registry \<times> ('c, 'u, 's) mailboxes) option" where
  "registry_run decode_dest reg w [] = Some (reg, w)"
| "registry_run decode_dest reg w (m # ms) =
     (case registry_recv decode_dest reg w m of
        None \<Rightarrow> None
      | Some (reg', w') \<Rightarrow> registry_run decode_dest reg' w' ms)"

text \<open>
  Fact.  Routing.  A forwarded message changes at most one mailbox: the one registered under
  the name in its destination, which gets the message appended if it is open.  A closed mailbox is
  unregistered, any other registration stays, and an unknown name changes nothing.
\<close>

theorem registry_forward:
  assumes "decode_dest (mb_dest mb) = Some (Destination name interface)"
  shows "registry_recv decode_dest reg w (Reg_Forward mb) = Some
     (case register reg name of
        None \<Rightarrow> (reg, w)
      | Some c \<Rightarrow>
          (if mbox_open (w c)
           then (reg, w(c := (w c)\<lparr>mbox_queue := mbox_queue (w c) @ [Serial interface mb]\<rparr>))
           else (reg\<lparr>register := (register reg)(name := None)\<rparr>, w)))"
  using assms by (auto simp: registry_recv_def ser_recvr_def mailbox_send_def Let_def fun_upd_idem split: option.splits)

text \<open>The mailbox a name is bound to by the commands processed so far, without deliveries.\<close>

fun binding :: "'u actor_id \<Rightarrow> 'c option \<Rightarrow> ('u, 'c) registry_msg list \<Rightarrow> 'c option" where
  "binding name b [] = b"
| "binding name b (Reg_Register n c confirmed # ms) =
     binding name (if n = name \<and> b = None \<and> confirmed then Some c else b) ms"
| "binding name b (Reg_Deregister n # ms) = binding name (if n = name then None else b) ms"
| "binding name b (Reg_Forward mb # ms) = binding name b ms"

text \<open>
  Fact.  Names are owned.  As long as the mailboxes stay open, whatever commands the registry
  processes, a name is bound to the first mailbox registered under it since it was last freed: a
  second registration never takes a name over, and a forward never frees it.
\<close>

theorem registry_first_come:
  assumes "registry_run decode_dest reg w ms = Some (reg', w')" and "\<forall>c. mbox_open (w c)"
  shows "register reg' name = binding name (register reg name) ms \<and> (\<forall>c. mbox_open (w' c))"
  using assms
proof (induction ms arbitrary: reg w)
  case Nil
  then show ?case by simp
next
  case (Cons m ms)
  then obtain reg1 w1 where step: "registry_recv decode_dest reg w m = Some (reg1, w1)"
    and run: "registry_run decode_dest reg1 w1 ms = Some (reg', w')"
    by (auto split: option.splits)
  have "(\<forall>c. mbox_open (w1 c)) \<and> binding name (register reg1 name) ms = binding name (register reg name) (m # ms)"
    using step Cons.prems(2)
    by (cases m) (auto simp: registry_recv_def ser_recvr_def mailbox_send_def Let_def split: option.splits
        destination.splits if_splits)
  then show ?case using Cons.IH[OF run] by simp
qed

definition sample_name :: "nat actor_id" where
  "sample_name = Actor_Id 0 ''actor''"

definition sample_boxes :: "nat \<Rightarrow> (nat, nat) mailbox" where
  "sample_boxes = (\<lambda>_. \<lparr>mbox_open = True, mbox_queue = []\<rparr>)"

theorem registry_first_come_witness:
  "\<exists>reg w. registry_run (\<lambda>_. None) registry_new sample_boxes
       [Reg_Register sample_name 3 True, Reg_Register sample_name 4 True] = Some (reg, w) \<and>
     register reg sample_name = Some 3"
proof -
  obtain reg w where run: "registry_run (\<lambda>_. None) registry_new sample_boxes
       [Reg_Register sample_name 3 True, Reg_Register sample_name 4 True] = Some (reg, w)"
    by (simp add: registry_recv_def registry_new_def)
  from registry_first_come[OF this, of sample_name] have "register reg sample_name = Some 3"
    by (simp add: sample_boxes_def registry_new_def)
  with run show ?thesis by blast
qed

theorem registry_forward_witness:
  "\<exists>w. registry_recv (\<lambda>_. Some (Destination sample_name 1)) \<lparr>register = (\<lambda>_. Some 3)\<rparr> sample_boxes
       (Reg_Forward (mb_new sample_header)) = Some (\<lparr>register = (\<lambda>_. Some (3::nat))\<rparr>, w) \<and>
     mbox_queue (w 3) = [Serial 1 (mb_new sample_header)]"
  by (subst registry_forward[of _ _ sample_name 1]) (simp_all add: sample_boxes_def)

end
