(* ===== verification/Actor_Tasks.thy ===== *)
theory Actor_Tasks
  imports Actor_Registry
begin

text \<open>
  The tasks that run an actor (core/actor_tasks_unit.rs, core/actor_tasks_timeout.rs): one task that
  receives and processes, or two tasks, a secondary that keeps a queue and a primary that asks it
  for one message at a time.  The tasks are interleaved step by step; the calls to the actor are the
  trace.  Deserialization of remote messages is a parameter.  A panic is the phase \<open>Panicked\<close>.

  The two implementations are shown to make the same calls as the specification \<open>actor_calls\<close>, and
  the double-threaded one to be free of panics and deadlocks.
\<close>

datatype 's actor_call = Pre_Start | Recv 's | Post_Stop

text \<open>The calls an actor must see for the messages of its mailbox: in order, up to the first \<open>Term\<close>.\<close>

fun recv_calls :: "'s local_actor_msg list \<Rightarrow> 's actor_call list" where
  "recv_calls [] = []"
| "recv_calls (Local_Msg m # ms) = Recv m # recv_calls ms"
| "recv_calls (Local_Signal Term # ms) = [Post_Stop]"

definition actor_calls :: "'s local_actor_msg list \<Rightarrow> 's actor_call list" where
  "actor_calls ms = Pre_Start # recv_calls ms"

text \<open>\<open>S::deserialize_as\<close> on the parts of a message builder.\<close>

type_synonym ('u, 's) deserializer =
  "'u \<Rightarrow> interpretations \<Rightarrow> u8 list \<Rightarrow> 'u deserialize_error + 's local_actor_msg"

fun actor_msg_of :: "('u, 's) deserializer \<Rightarrow> ('u, 's) actor_msg \<Rightarrow> 's local_actor_msg option" where
  "actor_msg_of deser (Msg x) = Some x"
| "actor_msg_of deser (Serial interface mb) =
     (case deser interface (mb_intp mb) (mb_msg mb) of Inr x \<Rightarrow> Some x | Inl _ \<Rightarrow> None)"
| "actor_msg_of deser Primary_Request = None"
| "actor_msg_of deser Die = None"

subsection \<open>One task\<close>

datatype phase = Starting | Running | Finished | Panicked

record ('u, 's) single_task =
  st_phase :: phase
  st_rx :: "('u, 's) actor_msg list"
  st_calls :: "'s actor_call list"

text \<open>One step of \<open>unit_single\<close>: \<open>None\<close> when it waits for a message or has ended.\<close>

definition unit_single_step :: "('u, 's) deserializer \<Rightarrow> ('u, 's) single_task \<Rightarrow> ('u, 's) single_task option" where
  "unit_single_step deser t =
     (case st_phase t of
        Starting \<Rightarrow> Some (t\<lparr>st_phase := Running, st_calls := st_calls t @ [Pre_Start]\<rparr>)
      | Running \<Rightarrow>
          (case st_rx t of
             [] \<Rightarrow> None
           | m # rest \<Rightarrow>
               Some (case actor_msg_of deser m of
                  None \<Rightarrow> t\<lparr>st_rx := rest, st_phase := Panicked\<rparr>
                | Some (Local_Msg x) \<Rightarrow> t\<lparr>st_rx := rest, st_calls := st_calls t @ [Recv x]\<rparr>
                | Some (Local_Signal Term) \<Rightarrow>
                    t\<lparr>st_rx := rest, st_calls := st_calls t @ [Post_Stop], st_phase := Finished\<rparr>))
      | Finished \<Rightarrow> None
      | Panicked \<Rightarrow> None)"

subsection \<open>Two tasks\<close>

datatype 's primary_msg = P_Msg 's | P_Die

record ('u, 's) double_task =
  sec_phase :: phase
  sec_rx :: "('u, 's) actor_msg list"
  queue :: "'s primary_msg list"
  primary_waiting :: bool
  pri_phase :: phase
  pri_rx :: "'s primary_msg list"
  dt_calls :: "'s actor_call list"
  registry_tx :: bool
  ref_tx :: bool

text \<open>
  \<open>registry_tx\<close> and \<open>ref_tx\<close>: whether the registry, or anyone with a reference to the actor, holds a sender
  of the secondary's mailbox.  The primary holds one, in its context, until it has ended.
\<close>

definition double_start :: "('u, 's) double_task" where
  "double_start = \<lparr>sec_phase = Running, sec_rx = [], queue = [], primary_waiting = False,
     pri_phase = Starting, pri_rx = [], dt_calls = [], registry_tx = True, ref_tx = True\<rparr>"

text \<open>\<open>send_to_primary\<close> and \<open>send_to_secondary\<close> panic when the other side's receiver is gone, which
  it is when its task has ended.\<close>

definition send_to_primary :: "'s primary_msg \<Rightarrow> ('u, 's) double_task \<Rightarrow> ('u, 's) double_task" where
  "send_to_primary m t =
     (if pri_phase t \<in> {Finished, Panicked} then t\<lparr>sec_phase := Panicked\<rparr>
      else t\<lparr>pri_rx := pri_rx t @ [m]\<rparr>)"

definition send_to_secondary :: "('u, 's) actor_msg \<Rightarrow> ('u, 's) double_task \<Rightarrow> ('u, 's) double_task" where
  "send_to_secondary m t =
     (if sec_phase t \<in> {Finished, Panicked} then t\<lparr>pri_phase := Panicked\<rparr>
      else t\<lparr>sec_rx := sec_rx t @ [m]\<rparr>)"

definition secondary_handle :: "('u, 's) deserializer \<Rightarrow> ('u, 's) actor_msg \<Rightarrow> ('u, 's) double_task \<Rightarrow> ('u, 's) double_task" where
  "secondary_handle deser m t =
     (case m of
        Die \<Rightarrow> t\<lparr>sec_phase := Finished\<rparr>
      | Primary_Request \<Rightarrow>
          (if primary_waiting t then t\<lparr>sec_phase := Panicked\<rparr>
           else
             (case queue t of
                p # ps \<Rightarrow> send_to_primary p (t\<lparr>queue := ps\<rparr>)
              | [] \<Rightarrow> t\<lparr>primary_waiting := True\<rparr>))
      | _ \<Rightarrow>
          (case actor_msg_of deser m of
             None \<Rightarrow> t\<lparr>sec_phase := Panicked\<rparr>
           | Some x \<Rightarrow>
               (let pri = (case x of Local_Msg lam \<Rightarrow> P_Msg lam | Local_Signal Term \<Rightarrow> P_Die) in
                if primary_waiting t then (send_to_primary pri t)\<lparr>primary_waiting := False\<rparr>
                else t\<lparr>queue := queue t @ [pri]\<rparr>)))"

text \<open>\<open>rx.recv()\<close> is \<open>None\<close>, and its \<open>unwrap\<close> a panic, when the mailbox is empty and no sender is left.\<close>

definition secondary_step :: "('u, 's) deserializer \<Rightarrow> ('u, 's) double_task \<Rightarrow> ('u, 's) double_task option" where
  "secondary_step deser t =
     (case (sec_phase t, sec_rx t) of
        (Running, m # rest) \<Rightarrow> Some (secondary_handle deser m (t\<lparr>sec_rx := rest\<rparr>))
      | (Running, []) \<Rightarrow>
          (if pri_phase t \<in> {Finished, Panicked} \<and> \<not> registry_tx t \<and> \<not> ref_tx t
           then Some (t\<lparr>sec_phase := Panicked\<rparr>) else None)
      | _ \<Rightarrow> None)"

definition primary_step :: "('u, 's) double_task \<Rightarrow> ('u, 's) double_task option" where
  "primary_step t =
     (case pri_phase t of
        Starting \<Rightarrow>
          Some (send_to_secondary Primary_Request (t\<lparr>pri_phase := Running, dt_calls := dt_calls t @ [Pre_Start]\<rparr>))
      | Running \<Rightarrow>
          (case pri_rx t of
             [] \<Rightarrow> (if sec_phase t \<in> {Finished, Panicked} then Some (t\<lparr>pri_phase := Panicked\<rparr>) else None)
           | P_Die # rest \<Rightarrow>
               (let t' = send_to_secondary Die (t\<lparr>pri_rx := rest, dt_calls := dt_calls t @ [Post_Stop]\<rparr>) in
                Some (if pri_phase t' = Panicked then t' else t'\<lparr>pri_phase := Finished\<rparr>))
           | P_Msg m # rest \<Rightarrow>
               Some (send_to_secondary Primary_Request (t\<lparr>pri_rx := rest, dt_calls := dt_calls t @ [Recv m]\<rparr>)))
      | _ \<Rightarrow> None)"

text \<open>
  The environment appends messages; \<open>sent\<close> is what it has appended so far.  References to the actor come and
  go at any time.
\<close>

inductive double_run ::
    "('u, 's) deserializer \<Rightarrow> ('u, 's) actor_msg list \<Rightarrow> ('u, 's) double_task \<Rightarrow> bool"
  for deser where
  start: "double_run deser [] double_start"
| environment: "double_run deser sent t \<Longrightarrow> actor_msg_of deser m \<noteq> None \<Longrightarrow>
    double_run deser (sent @ [m]) (if sec_phase t = Running then t\<lparr>sec_rx := sec_rx t @ [m]\<rparr> else t)"
| secondary: "double_run deser sent t \<Longrightarrow> secondary_step deser t = Some t' \<Longrightarrow> double_run deser sent t'"
| primary: "double_run deser sent t \<Longrightarrow> primary_step t = Some t' \<Longrightarrow> double_run deser sent t'"
| senders: "double_run deser sent t \<Longrightarrow> double_run deser sent (t\<lparr>registry_tx := b, ref_tx := r\<rparr>)"

inductive single_run ::
    "('u, 's) deserializer \<Rightarrow> ('u, 's) actor_msg list \<Rightarrow> ('u, 's) single_task \<Rightarrow> bool"
  for deser where
  start: "single_run deser [] \<lparr>st_phase = Starting, st_rx = [], st_calls = []\<rparr>"
| environment: "single_run deser sent t \<Longrightarrow> actor_msg_of deser m \<noteq> None \<Longrightarrow>
    single_run deser (sent @ [m]) (t\<lparr>st_rx := st_rx t @ [m]\<rparr>)"
| step: "single_run deser sent t \<Longrightarrow> unit_single_step deser t = Some t' \<Longrightarrow> single_run deser sent t'"

text \<open>What the environment has sent, decoded.\<close>

definition decoded :: "('u, 's) deserializer \<Rightarrow> ('u, 's) actor_msg list \<Rightarrow> 's local_actor_msg list" where
  "decoded deser ms = map (\<lambda>m. the (actor_msg_of deser m)) ms"

lemma decoded_simps [simp]:
  "decoded deser [] = []"
  "decoded deser (m # ms) = the (actor_msg_of deser m) # decoded deser ms"
  "decoded deser (ms @ ns) = decoded deser ms @ decoded deser ns"
  by (simp_all add: decoded_def)

subsection \<open>The invariant of the two tasks\<close>

fun of_primary :: "'s primary_msg \<Rightarrow> 's local_actor_msg" where
  "of_primary (P_Msg x) = Local_Msg x"
| "of_primary P_Die = Local_Signal Term"

definition internal :: "('u, 's) actor_msg \<Rightarrow> bool" where
  "internal m \<longleftrightarrow> m = Primary_Request \<or> m = Die"

text \<open>The messages on their way to the actor, oldest first.\<close>

definition flow :: "('u, 's) deserializer \<Rightarrow> ('u, 's) double_task \<Rightarrow> 's local_actor_msg list" where
  "flow deser t = map of_primary (pri_rx t @ queue t) @ decoded deser (filter (\<lambda>m. \<not> internal m) (sec_rx t))"

definition requests :: "('u, 's) double_task \<Rightarrow> nat" where
  "requests t = length (filter (\<lambda>m. m = Primary_Request) (sec_rx t))"

definition deaths :: "('u, 's) double_task \<Rightarrow> nat" where
  "deaths t = length (filter (\<lambda>m. m = Die) (sec_rx t))"

text \<open>Exactly one of: a request is on its way, the secondary knows the primary waits, or the
  primary has a message.\<close>

definition one_token :: "('u, 's) double_task \<Rightarrow> bool" where
  "one_token t \<longleftrightarrow>
     (pri_rx t = [] \<and> primary_waiting t \<and> queue t = [] \<and> requests t = 0) \<or>
     (pri_rx t = [] \<and> \<not> primary_waiting t \<and> requests t = 1) \<or>
     (\<exists>p. pri_rx t = [p] \<and> \<not> primary_waiting t \<and> requests t = 0)"

definition double_inv :: "('u, 's) deserializer \<Rightarrow> ('u, 's) actor_msg list \<Rightarrow> ('u, 's) double_task \<Rightarrow> bool" where
  "double_inv deser sent t \<longleftrightarrow>
     (\<forall>m\<in>set (sec_rx t). internal m \<or> actor_msg_of deser m \<noteq> None) \<and>
     (\<exists>xs. case pri_phase t of
        Starting \<Rightarrow> decoded deser sent = flow deser t \<and> dt_calls t = [] \<and> sec_phase t = Running \<and>
          pri_rx t = [] \<and> \<not> primary_waiting t \<and> requests t = 0 \<and> deaths t = 0
      | Running \<Rightarrow> decoded deser sent = map Local_Msg xs @ flow deser t \<and>
          dt_calls t = Pre_Start # map Recv xs \<and> sec_phase t = Running \<and> deaths t = 0 \<and> one_token t
      | Finished \<Rightarrow> (\<exists>rest. decoded deser sent = map Local_Msg xs @ Local_Signal Term # rest) \<and>
          dt_calls t = Pre_Start # map Recv xs @ [Post_Stop] \<and> \<not> primary_waiting t \<and> pri_rx t = [] \<and>
          requests t = 0 \<and> (sec_phase t = Running \<and> deaths t = 1 \<or> sec_phase t = Finished)
      | Panicked \<Rightarrow> False)"

lemmas double_defs = double_inv_def flow_def requests_def deaths_def one_token_def internal_def

lemma actor_msg_of_internal: "actor_msg_of deser m \<noteq> None \<Longrightarrow> \<not> internal m"
  by (auto simp: internal_def)

lemma inv_environment:
  assumes "double_inv deser sent t" "actor_msg_of deser m \<noteq> None"
  shows "double_inv deser (sent @ [m]) (if sec_phase t = Running then t\<lparr>sec_rx := sec_rx t @ [m]\<rparr> else t)"
proof (cases "pri_phase t = Finished")
  case True
  with assms(1) obtain xs rest where xs: "decoded deser sent = map Local_Msg xs @ Local_Signal Term # rest"
      "dt_calls t = Pre_Start # map Recv xs @ [Post_Stop]" "\<not> primary_waiting t" "pri_rx t = []"
      "requests t = 0" "sec_phase t = Running \<and> deaths t = 1 \<or> sec_phase t = Finished"
      "\<forall>m\<in>set (sec_rx t). internal m \<or> actor_msg_of deser m \<noteq> None"
    by (auto simp: double_inv_def)
  have "\<exists>rest'. decoded deser (sent @ [m]) = map Local_Msg xs @ Local_Signal Term # rest'"
    using xs(1) by simp
  then show ?thesis
    unfolding double_inv_def using xs True assms(2) actor_msg_of_internal[OF assms(2)]
    by (intro conjI exI[of _ xs]) (auto simp: requests_def deaths_def internal_def)
next
  case False
  with assms actor_msg_of_internal[OF assms(2)] show ?thesis
    by (cases "pri_phase t") (auto simp: double_defs)
qed

lemma inv_primary:
  assumes "double_inv deser sent t" "primary_step t = Some t'"
  shows "double_inv deser sent t'"
proof (cases "pri_phase t")
  case Starting
  with assms show ?thesis
    by (auto simp: primary_step_def send_to_secondary_def double_defs)
next
  case Running
  with assms(1) obtain xs where xs: "decoded deser sent = map Local_Msg xs @ flow deser t"
      "dt_calls t = Pre_Start # map Recv xs" "sec_phase t = Running" "deaths t = 0" "one_token t"
      "\<forall>m\<in>set (sec_rx t). internal m \<or> actor_msg_of deser m \<noteq> None"
    by (auto simp: double_inv_def)
  with Running assms(2) obtain p where p: "pri_rx t = [p]" "\<not> primary_waiting t" "requests t = 0"
    by (auto simp: primary_step_def one_token_def)
  show ?thesis
  proof (cases p)
    case (P_Msg m)
    with Running assms(2) xs p have t': "t' = t\<lparr>pri_rx := [], dt_calls := dt_calls t @ [Recv m],
        sec_rx := sec_rx t @ [Primary_Request]\<rparr>"
      by (auto simp: primary_step_def send_to_secondary_def)
    show ?thesis
      unfolding double_inv_def using xs p P_Msg Running
      by (intro conjI exI[of _ "xs @ [m]"]) (auto simp: t' flow_def requests_def deaths_def one_token_def internal_def)
  next
    case P_Die
    with Running assms(2) xs p have t': "t' = t\<lparr>pri_rx := [], dt_calls := dt_calls t @ [Post_Stop],
        sec_rx := sec_rx t @ [Die], pri_phase := Finished\<rparr>"
      by (auto simp: primary_step_def send_to_secondary_def Let_def)
    show ?thesis
      unfolding double_inv_def using xs p P_Die
      by (intro conjI exI[of _ xs]) (auto simp: t' flow_def requests_def deaths_def internal_def)
  qed
next
  case Finished
  with assms(2) show ?thesis by (simp add: primary_step_def)
next
  case Panicked
  with assms(2) show ?thesis by (simp add: primary_step_def)
qed

text \<open>While the invariant holds, the secondary never waits without a sender.\<close>

lemma secondary_takes:
  assumes "double_inv deser sent t" and "secondary_step deser t = Some t'"
  obtains m rest where "sec_phase t = Running" "sec_rx t = m # rest" "t' = secondary_handle deser m (t\<lparr>sec_rx := rest\<rparr>)"
proof (cases "sec_rx t")
  case Nil
  with assms(2) have "sec_phase t = Running" "pri_phase t \<in> {Finished, Panicked}"
    by (auto simp: secondary_step_def split: phase.splits if_splits)
  with assms(1) Nil show ?thesis by (auto simp: double_inv_def deaths_def)
next
  case (Cons m rest)
  with assms(2) show ?thesis by (intro that[of m rest]) (auto simp: secondary_step_def split: phase.splits)
qed

lemma inv_senders: "double_inv deser sent t \<Longrightarrow> double_inv deser sent (t\<lparr>registry_tx := b, ref_tx := r\<rparr>)"
  by (cases "pri_phase t") (auto simp: double_defs)

lemma inv_secondary:
  assumes "double_inv deser sent t" "secondary_step deser t = Some t'"
  shows "double_inv deser sent t'"
proof -
  obtain m rest where m: "sec_phase t = Running" "sec_rx t = m # rest"
      "t' = secondary_handle deser m (t\<lparr>sec_rx := rest\<rparr>)"
    using assms by (rule secondary_takes)
  have known: "internal m \<or> actor_msg_of deser m \<noteq> None"
    using assms(1) m(2) by (simp add: double_inv_def)
  consider (external) x where "\<not> internal m" "actor_msg_of deser m = Some x" | (req) "m = Primary_Request" | (die) "m = Die"
    using known by (auto simp: internal_def)
  then show ?thesis
  proof cases
    case external
    let ?pri = "case x of Local_Msg lam \<Rightarrow> P_Msg lam | Local_Signal Term \<Rightarrow> P_Die"
    have of: "of_primary ?pri = x" by (auto split: local_actor_msg.splits actor_signal.splits)
    have h: "t' = (if primary_waiting t then (send_to_primary ?pri (t\<lparr>sec_rx := rest\<rparr>))\<lparr>primary_waiting := False\<rparr>
        else t\<lparr>sec_rx := rest, queue := queue t @ [?pri]\<rparr>)"
      using external m(3) by (cases m) (auto simp: secondary_handle_def Let_def internal_def)
    show ?thesis
    proof (cases "primary_waiting t")
      case True
      with assms(1) have "pri_phase t = Running" by (cases "pri_phase t") (auto simp: double_inv_def)
      with True h m(2) external assms(1) of show ?thesis
        by (auto simp: double_defs send_to_primary_def)
    next
      case False
      with h m(2) external assms(1) of show ?thesis
        by (cases "pri_phase t") (auto simp: double_defs)
    qed
  next
    case req
    with assms(1) m(2) have run: "pri_phase t = Running" "\<not> primary_waiting t" "pri_rx t = []"
      by (cases "pri_phase t"; auto simp: double_defs)+
    with assms(1) m req show ?thesis
      by (cases "queue t") (auto simp: double_defs secondary_handle_def send_to_primary_def)
  next
    case die
    with assms(1) m have "pri_phase t = Finished"
      by (cases "pri_phase t") (auto simp: double_defs)
    with assms(1) m die show ?thesis
      by (auto simp: double_defs secondary_handle_def)
  qed
qed

lemma double_run_inv: "double_run deser sent t \<Longrightarrow> double_inv deser sent t"
proof (induction rule: double_run.induct)
  case start
  show ?case by (simp add: double_start_def double_defs)
qed (rule inv_environment inv_secondary inv_primary inv_senders; assumption)+

lemma recv_calls_map: "recv_calls (map Local_Msg xs) = map Recv xs"
  by (induction xs) simp_all

lemma recv_calls_append: "recv_calls (map Local_Msg xs @ ms) = map Recv xs @ recv_calls ms"
  by (induction xs) simp_all

text \<open>
  Fact.  The two tasks of a double-threaded actor never panic: no request arrives while one is
  pending, and neither side ever sends to a task that has ended.
\<close>

theorem double_no_panic:
  assumes "double_run deser sent t"
  shows "sec_phase t \<noteq> Panicked \<and> pri_phase t \<noteq> Panicked"
  using double_run_inv[OF assms] by (cases "pri_phase t") (auto simp: double_inv_def)

lemma double_calls_rest:
  assumes "double_run deser sent t"
  shows "\<exists>more. dt_calls t @ more = actor_calls (decoded deser sent)"
  using double_run_inv[OF assms]
  by (cases "pri_phase t") (auto simp: double_inv_def actor_calls_def recv_calls_append)

text \<open>
  Property C7.  In every interleaving of the two tasks and the senders, the actor sees its messages
  in the order they were sent, each once, nothing after \<open>Term\<close>, and \<open>post_stop\<close> only after it: the
  calls made so far are a prefix of the calls of the specification.
\<close>

theorem double_refines_calls:
  assumes "double_run deser sent t"
  shows "dt_calls t = take (length (dt_calls t)) (actor_calls (decoded deser sent))"
  using double_calls_rest[OF assms] by (metis append_eq_conv_conj)

lemma double_at_rest:
  assumes "double_run deser sent t" "secondary_step deser t = None" "primary_step t = None"
  shows "dt_calls t = actor_calls (decoded deser sent)"
proof -
  note inv = double_run_inv[OF assms(1)]
  show ?thesis
  proof (cases "pri_phase t")
    case Running
    with inv obtain xs where xs: "decoded deser sent = map Local_Msg xs @ flow deser t"
        "dt_calls t = Pre_Start # map Recv xs" "sec_phase t = Running" "one_token t"
      by (auto simp: double_inv_def)
    have "sec_rx t = []" using xs(3) assms(2) by (auto simp: secondary_step_def split: list.splits)
    moreover have "pri_rx t = []"
      using assms(3) Running by (auto simp: primary_step_def Let_def split: list.splits primary_msg.splits)
    ultimately have "flow deser t = []" using xs(4) by (auto simp: flow_def one_token_def requests_def)
    with xs show ?thesis by (simp add: actor_calls_def recv_calls_map)
  next
    case Finished
    with inv show ?thesis by (auto simp: double_inv_def actor_calls_def recv_calls_append)
  qed (use assms(3) inv in \<open>auto simp: primary_step_def double_inv_def\<close>)
qed

subsection \<open>Progress\<close>

text \<open>Every step of the tasks consumes weight; only the environment adds some.\<close>

definition double_weight :: "('u, 's) double_task \<Rightarrow> nat" where
  "double_weight t =
     (if pri_phase t = Starting then 2 else 0) + 2 * length (pri_rx t) + 3 * length (queue t) +
     sum_list (map (\<lambda>m. if internal m then 1 else 4) (sec_rx t))"

lemma double_weight_primary:
  assumes "double_inv deser sent t" "primary_step t = Some t'"
  shows "double_weight t' < double_weight t"
proof (cases "pri_phase t")
  case Running
  with assms(1) have "sec_phase t = Running" "one_token t" by (auto simp: double_inv_def)
  with Running assms(2) show ?thesis
    by (auto simp: primary_step_def send_to_secondary_def double_weight_def internal_def Let_def
        split: list.splits primary_msg.splits)
next
  case Starting
  with assms have "t' = t\<lparr>pri_phase := Running, dt_calls := dt_calls t @ [Pre_Start],
      sec_rx := sec_rx t @ [Primary_Request]\<rparr>"
    by (auto simp: double_inv_def primary_step_def send_to_secondary_def)
  with Starting show ?thesis by (simp add: double_weight_def internal_def)
qed (use assms in \<open>simp_all add: primary_step_def\<close>)

lemma double_weight_secondary:
  assumes "double_inv deser sent t" "secondary_step deser t = Some t'"
  shows "double_weight t' < double_weight t"
proof -
  have inv': "double_inv deser sent t'" using assms by (rule inv_secondary)
  then have np: "sec_phase t' \<noteq> Panicked" by (cases "pri_phase t'") (auto simp: double_inv_def)
  obtain m rest where m: "sec_phase t = Running" "sec_rx t = m # rest"
      "t' = secondary_handle deser m (t\<lparr>sec_rx := rest\<rparr>)"
    using assms by (rule secondary_takes)
  then show ?thesis
    using np by (cases m)
      (auto simp: secondary_handle_def send_to_primary_def double_weight_def internal_def Let_def
        split: option.splits list.splits if_splits)
qed


subsection \<open>The single task\<close>

definition single_inv :: "('u, 's) deserializer \<Rightarrow> ('u, 's) actor_msg list \<Rightarrow> ('u, 's) single_task \<Rightarrow> bool" where
  "single_inv deser sent t \<longleftrightarrow>
     (\<forall>m\<in>set (st_rx t). actor_msg_of deser m \<noteq> None) \<and>
     (\<exists>xs. case st_phase t of
        Starting \<Rightarrow> decoded deser sent = decoded deser (st_rx t) \<and> st_calls t = []
      | Running \<Rightarrow> decoded deser sent = map Local_Msg xs @ decoded deser (st_rx t) \<and>
          st_calls t = Pre_Start # map Recv xs
      | Finished \<Rightarrow> (\<exists>rest. decoded deser sent = map Local_Msg xs @ Local_Signal Term # rest) \<and>
          st_calls t = Pre_Start # map Recv xs @ [Post_Stop]
      | Panicked \<Rightarrow> False)"

lemma single_inv_environment:
  assumes "single_inv deser sent t" "actor_msg_of deser m \<noteq> None"
  shows "single_inv deser (sent @ [m]) (t\<lparr>st_rx := st_rx t @ [m]\<rparr>)"
proof (cases "st_phase t = Finished")
  case True
  with assms(1) obtain xs rest where "decoded deser sent = map Local_Msg xs @ Local_Signal Term # rest"
      "st_calls t = Pre_Start # map Recv xs @ [Post_Stop]"
      "\<forall>m\<in>set (st_rx t). actor_msg_of deser m \<noteq> None"
    by (auto simp: single_inv_def)
  with True assms(2) show ?thesis
    unfolding single_inv_def by (intro conjI exI[of _ xs]) auto
next
  case False
  with assms show ?thesis by (cases "st_phase t") (auto simp: single_inv_def)
qed

lemma single_inv_step:
  assumes "single_inv deser sent t" "unit_single_step deser t = Some t'"
  shows "single_inv deser sent t'"
proof (cases "st_phase t")
  case Starting
  with assms show ?thesis by (auto simp: single_inv_def unit_single_step_def)
next
  case Running
  with assms(1) obtain xs where xs: "decoded deser sent = map Local_Msg xs @ decoded deser (st_rx t)"
      "st_calls t = Pre_Start # map Recv xs" "\<forall>m\<in>set (st_rx t). actor_msg_of deser m \<noteq> None"
    by (auto simp: single_inv_def)
  from Running assms(2) obtain m rest where m: "st_rx t = m # rest"
    by (auto simp: unit_single_step_def split: list.splits)
  with xs(3) obtain x where x: "actor_msg_of deser m = Some x" by auto
  show ?thesis
  proof (cases x)
    case (Local_Msg y)
    with Running assms(2) m x xs show ?thesis
      unfolding single_inv_def by (intro conjI exI[of _ "xs @ [y]"]) (auto simp: unit_single_step_def)
  next
    case (Local_Signal y)
    with Running assms(2) m x xs show ?thesis
      unfolding single_inv_def by (cases y, intro conjI exI[of _ xs]) (auto simp: unit_single_step_def)
  qed
qed (use assms(2) in \<open>simp_all add: unit_single_step_def\<close>)

lemma single_run_inv: "single_run deser sent t \<Longrightarrow> single_inv deser sent t"
proof (induction rule: single_run.induct)
  case start
  show ?case by (simp add: single_inv_def)
qed (rule single_inv_environment single_inv_step; assumption)+

lemma single_at_rest:
  assumes "single_run deser sent t" "unit_single_step deser t = None"
  shows "st_calls t = actor_calls (decoded deser sent)"
proof -
  note inv = single_run_inv[OF assms(1)]
  show ?thesis
  proof (cases "st_phase t")
    case Running
    with assms(2) have "st_rx t = []" by (auto simp: unit_single_step_def split: list.splits)
    with Running inv show ?thesis
      by (auto simp: single_inv_def actor_calls_def recv_calls_map)
  next
    case Finished
    with inv show ?thesis by (auto simp: single_inv_def actor_calls_def recv_calls_append)
  qed (use assms(2) inv in \<open>auto simp: unit_single_step_def single_inv_def\<close>)
qed


subsection \<open>The task with a timeout\<close>

datatype 's timeout_call = T_Pre_Start | T_Recv 's | T_Timeout | T_Post_Stop

record ('u, 's) timeout_task =
  tt_phase :: phase
  tt_rx :: "('u, 's) actor_msg list"
  tt_timeout :: duration
  tt_calls :: "'s timeout_call list"

text \<open>
  \<open>run_single_timeout\<close>: \<open>select!\<close> takes the next message or lets the timeout elapse.  The answers of
  the actor are a function of the calls made to it so far.
\<close>

datatype wakeup = Received | Elapsed

definition timeout_call ::
    "('s timeout_call list \<Rightarrow> duration option) \<Rightarrow> 's timeout_call \<Rightarrow> ('u, 's) timeout_task \<Rightarrow> ('u, 's) timeout_task" where
  "timeout_call answer c t =
     t\<lparr>tt_calls := tt_calls t @ [c], tt_timeout := unwrap_or (answer (tt_calls t @ [c])) (tt_timeout t)\<rparr>"

definition run_single_timeout_step ::
    "('u, 's) deserializer \<Rightarrow> ('s timeout_call list \<Rightarrow> duration option) \<Rightarrow> wakeup \<Rightarrow>
     ('u, 's) timeout_task \<Rightarrow> ('u, 's) timeout_task option" where
  "run_single_timeout_step deser answer w t =
     (case tt_phase t of
        Starting \<Rightarrow> Some ((timeout_call answer T_Pre_Start t)\<lparr>tt_phase := Running\<rparr>)
      | Running \<Rightarrow>
          (case w of
             Elapsed \<Rightarrow> Some (timeout_call answer T_Timeout t)
           | Received \<Rightarrow>
               (case tt_rx t of
                  [] \<Rightarrow> None
                | m # rest \<Rightarrow>
                    (let t = t\<lparr>tt_rx := rest\<rparr> in
                     Some (case actor_msg_of deser m of
                        None \<Rightarrow> t\<lparr>tt_phase := Panicked\<rparr>
                      | Some (Local_Msg x) \<Rightarrow> timeout_call answer (T_Recv x) t
                      | Some (Local_Signal Term) \<Rightarrow>
                          t\<lparr>tt_calls := tt_calls t @ [T_Post_Stop], tt_phase := Finished\<rparr>))))
      | _ \<Rightarrow> None)"

inductive timeout_run ::
    "('u, 's) deserializer \<Rightarrow> ('s timeout_call list \<Rightarrow> duration option) \<Rightarrow> duration \<Rightarrow> ('u, 's) timeout_task \<Rightarrow> bool"
  for deser answer init where
  start: "timeout_run deser answer init \<lparr>tt_phase = Starting, tt_rx = [], tt_timeout = init, tt_calls = []\<rparr>"
| environment: "timeout_run deser answer init t \<Longrightarrow> timeout_run deser answer init (t\<lparr>tt_rx := tt_rx t @ [m]\<rparr>)"
| step: "timeout_run deser answer init t \<Longrightarrow> run_single_timeout_step deser answer w t = Some t' \<Longrightarrow>
    timeout_run deser answer init t'"

text \<open>The last answer that was not \<open>None\<close>; the answer to \<open>post_stop\<close> does not count.\<close>

fun last_answer :: "('c list \<Rightarrow> duration option) \<Rightarrow> duration \<Rightarrow> 'c list \<Rightarrow> 'c list \<Rightarrow> duration" where
  "last_answer answer d seen [] = d"
| "last_answer answer d seen (c # cs) = last_answer answer (unwrap_or (answer (seen @ [c])) d) (seen @ [c]) cs"

lemma last_answer_snoc:
  "last_answer answer d seen (cs @ [c]) = unwrap_or (answer (seen @ cs @ [c])) (last_answer answer d seen cs)"
  by (induction cs arbitrary: d seen) simp_all

text \<open>
  Fact.  A timeout actor waits for the duration it last asked for: a call that answers \<open>None\<close>
  keeps the previous timeout, and before any answer it is the one given to \<open>spawn_timeout\<close>.  The
  first call is \<open>pre_start\<close>, and \<open>post_stop\<close> is the last one.
\<close>

theorem timeout_is_last_answer:
  assumes "timeout_run deser answer init t"
  shows "tt_timeout t = last_answer answer init [] (filter (\<lambda>c. c \<noteq> T_Post_Stop) (tt_calls t)) \<and>
     T_Post_Stop \<notin> set (butlast (tt_calls t)) \<and>
     (tt_phase t = Finished \<longleftrightarrow> T_Post_Stop \<in> set (tt_calls t)) \<and>
     (tt_calls t \<noteq> [] \<longrightarrow> hd (tt_calls t) = T_Pre_Start) \<and>
     (tt_phase t = Starting \<longleftrightarrow> tt_calls t = [])"
  using assms
proof (induction rule: timeout_run.induct)
  case (step t w t')
  have f: "T_Post_Stop \<notin> set cs \<Longrightarrow> filter (\<lambda>c. c \<noteq> T_Post_Stop) cs = cs" for cs :: "'b timeout_call list"
    by (metis (mono_tags, lifting) filter_True)
  from step show ?case
    by (auto simp: run_single_timeout_step_def timeout_call_def Let_def last_answer_snoc f
        split: phase.splits wakeup.splits list.splits option.splits local_actor_msg.splits actor_signal.splits)
qed auto

subsection \<open>Instances\<close>

definition sample_deser :: "(nat, nat) deserializer" where
  "sample_deser = (\<lambda>u i bs. Inl (Other u))"

datatype side = Pri | Sec

text \<open>The tasks under a schedule.\<close>

fun double_exec :: "('u, 's) deserializer \<Rightarrow> side list \<Rightarrow> ('u, 's) double_task \<Rightarrow> ('u, 's) double_task option" where
  "double_exec deser [] t = Some t"
| "double_exec deser (s # ss) t =
     (case (case s of Pri \<Rightarrow> primary_step t | Sec \<Rightarrow> secondary_step deser t) of
        None \<Rightarrow> None
      | Some t' \<Rightarrow> double_exec deser ss t')"

lemma double_exec_run: "double_run deser sent t \<Longrightarrow> double_exec deser ss t = Some t' \<Longrightarrow> double_run deser sent t'"
proof (induction ss arbitrary: t)
  case Nil
  then show ?case by simp
next
  case (Cons s ss)
  then obtain t1 where "(case s of Pri \<Rightarrow> primary_step t | Sec \<Rightarrow> secondary_step deser t) = Some t1"
      "double_exec deser ss t1 = Some t'" by (auto split: option.splits)
  with Cons show ?case by (cases s) (auto intro: double_run.primary double_run.secondary)
qed

definition sample_sent :: "(nat, nat) actor_msg list" where
  "sample_sent = [Msg (Local_Msg 5), Msg (Local_Signal Term)]"

definition sample_double :: "(nat, nat) double_task" where
  "sample_double = \<lparr>sec_phase = Finished, sec_rx = [], queue = [], primary_waiting = False, pri_phase = Finished,
      pri_rx = [], dt_calls = [Pre_Start, Recv 5, Post_Stop], registry_tx = True, ref_tx = True\<rparr>"

definition sample_single :: "(nat, nat) single_task" where
  "sample_single = \<lparr>st_phase = Finished, st_rx = [], st_calls = [Pre_Start, Recv 5, Post_Stop]\<rparr>"

lemma sample_double_run: "double_run sample_deser sample_sent sample_double"
proof -
  have "double_run sample_deser ([] @ [Msg (Local_Msg 5)]) (double_start\<lparr>sec_rx := [Msg (Local_Msg 5)]\<rparr>)"
    using double_run.environment[OF double_run.start, of sample_deser "Msg (Local_Msg 5)"]
    by (simp add: double_start_def)
  from double_run.environment[OF this, of "Msg (Local_Signal Term)"]
  have "double_run sample_deser sample_sent (double_start\<lparr>sec_rx := sample_sent\<rparr>)"
    by (simp add: double_start_def sample_sent_def)
  then show ?thesis
    by (rule double_exec_run[where ss = "[Sec, Sec, Pri, Sec, Pri, Sec, Pri, Sec]"])
      (simp add: double_start_def secondary_step_def primary_step_def secondary_handle_def
        send_to_primary_def send_to_secondary_def Let_def sample_double_def sample_sent_def)
qed

lemma sample_decoded: "decoded sample_deser sample_sent = [Local_Msg 5, Local_Signal Term]"
  by (simp add: sample_sent_def)

lemma sample_single_run: "single_run sample_deser sample_sent sample_single"
proof -
  have a: "single_run sample_deser sample_sent \<lparr>st_phase = Starting, st_rx = sample_sent, st_calls = []\<rparr>"
    using single_run.environment[OF single_run.environment[OF single_run.start, of sample_deser "Msg (Local_Msg 5)"],
        of "Msg (Local_Signal Term)"] by (simp add: sample_sent_def)
  have b: "single_run sample_deser sample_sent \<lparr>st_phase = Running, st_rx = sample_sent, st_calls = [Pre_Start]\<rparr>"
    by (rule single_run.step[OF a]) (simp add: unit_single_step_def)
  have c: "single_run sample_deser sample_sent
      \<lparr>st_phase = Running, st_rx = [Msg (Local_Signal Term)], st_calls = [Pre_Start, Recv 5]\<rparr>"
    by (rule single_run.step[OF b]) (simp add: unit_single_step_def sample_sent_def)
  show ?thesis
    by (rule single_run.step[OF c]) (simp add: unit_single_step_def sample_single_def)
qed

lemma sample_rest:
  "unit_single_step sample_deser sample_single = None"
  "secondary_step sample_deser sample_double = None" "primary_step sample_double = None"
  by (simp_all add: unit_single_step_def secondary_step_def primary_step_def sample_double_def sample_single_def)

theorem double_no_panic_witness:
  "sec_phase sample_double \<noteq> Panicked \<and> pri_phase sample_double \<noteq> Panicked"
  by (rule double_no_panic[OF sample_double_run])

theorem double_refines_calls_witness:
  "[Pre_Start, Recv 5, Post_Stop] = take (Suc (Suc (Suc 0))) (actor_calls [Local_Msg (5 :: nat), Local_Signal Term])"
  using double_refines_calls[OF sample_double_run] unfolding sample_decoded by (simp add: sample_double_def)



theorem timeout_is_last_answer_witness:
  "\<exists>t :: (nat, nat) timeout_task. timeout_run sample_deser (\<lambda>cs. if cs = [T_Pre_Start] then Some 7 else None) 3 t \<and>
     tt_calls t = [T_Pre_Start, T_Timeout] \<and> tt_timeout t = 7"
proof -
  let ?a = "\<lambda>cs :: nat timeout_call list. if cs = [T_Pre_Start] then Some 7 else None"
  note st = timeout_run.step[of sample_deser ?a 3]
  have a: "timeout_run sample_deser ?a 3 \<lparr>tt_phase = Running, tt_rx = [], tt_timeout = 7, tt_calls = [T_Pre_Start]\<rparr>"
    using st[OF timeout_run.start, of Elapsed] by (simp add: run_single_timeout_step_def timeout_call_def)
  obtain t :: "(nat, nat) timeout_task" where t: "timeout_run sample_deser ?a 3 t" "tt_calls t = [T_Pre_Start, T_Timeout]"
    using st[OF a, of Elapsed] by (simp add: run_single_timeout_step_def timeout_call_def)
  with timeout_is_last_answer[OF t(1)] show ?thesis by auto
qed

end
