(* ===== verification/Interval_Storage.thy ===== *)
theory Interval_Storage
  imports Prelude
begin

text \<open>
  The sliding window of heartbeat intervals (cluster/interval_storage.rs).  Intervals are \<open>u64\<close>
  milliseconds, newest first; their sum and sum of squares are kept incrementally and wrap as the
  code's do.  Instants are nanoseconds of the monotonic clock.  Floating point and the normal
  distribution of the crate statrs are parameters, gathered in \<open>f64_ops\<close>.
\<close>

record interval_storage =
  capacity :: nat
  intervals :: "u64 list"
  ivs_sum :: u64
  sum_squares :: u64
  latest :: nat

definition dur2u64 :: "duration \<Rightarrow> u64" where
  "dur2u64 d = of_nat (as_millis d)"

definition storage_new :: "nat \<Rightarrow> duration \<Rightarrow> nat \<Rightarrow> nat \<Rightarrow> interval_storage" where
  "storage_new cap init n_times start =
     (let ivs = take cap (interleave (replicate n_times (dur2u64 init)) (replicate n_times 0)) in
      \<lparr>capacity = cap, intervals = ivs, ivs_sum = sum_list ivs,
       sum_squares = sum_list (map (\<lambda>d. d * d) ivs), latest = start\<rparr>)"

text \<open>The loop of \<open>push_instant\<close>; \<open>None\<close> is the panic of \<open>pop_back().unwrap()\<close> on an empty window.\<close>

function evict :: "interval_storage \<Rightarrow> interval_storage option" where
  "evict s =
     (if capacity s \<le> length (intervals s) then
        (if intervals s = [] then None
         else
           (let lst = last (intervals s) in
            evict (s\<lparr>intervals := butlast (intervals s), ivs_sum := ivs_sum s - lst,
              sum_squares := sum_squares s - lst * lst\<rparr>)))
      else Some s)"
  by pat_completeness auto
termination
  by (relation "measure (\<lambda>s. length (intervals s))") auto

declare evict.simps [simp del]

definition push_instant :: "nat \<Rightarrow> interval_storage \<Rightarrow> interval_storage option" where
  "push_instant i s =
     (case evict s of
        None \<Rightarrow> None
      | Some s \<Rightarrow>
          (let first = dur2u64 (i - latest s) in
           Some (s\<lparr>intervals := first # intervals s, ivs_sum := ivs_sum s + first,
             sum_squares := sum_squares s + first * first, latest := i\<rparr>)))"

subsection \<open>Statistics\<close>

record 'f f64_ops =
  f_of_u64 :: "u64 \<Rightarrow> 'f"
  f_of_usize :: "nat \<Rightarrow> 'f"
  f_div :: "'f \<Rightarrow> 'f \<Rightarrow> 'f"
  f_mult :: "'f \<Rightarrow> 'f \<Rightarrow> 'f"
  f_sub :: "'f \<Rightarrow> 'f \<Rightarrow> 'f"
  f_sqrt :: "'f \<Rightarrow> 'f"
  f_max :: "'f \<Rightarrow> 'f \<Rightarrow> 'f"
  f_min_positive :: 'f
  f_thousand :: 'f
  f_finite :: "'f \<Rightarrow> bool"
  f_secs_of_duration :: "duration \<Rightarrow> 'f"
  f_duration_of_secs :: "'f \<Rightarrow> duration option"
  f_normal_ok :: "'f \<Rightarrow> 'f \<Rightarrow> bool"
  f_normal_cdf :: "'f \<Rightarrow> 'f \<Rightarrow> 'f \<Rightarrow> 'f"
  f_normal_inverse_cdf :: "'f \<Rightarrow> 'f \<Rightarrow> 'f \<Rightarrow> 'f"

definition mean :: "'f f64_ops \<Rightarrow> interval_storage \<Rightarrow> 'f" where
  "mean F s = f_div F (f_of_u64 F (ivs_sum s)) (f_of_usize F (length (intervals s)))"

definition stdev :: "'f f64_ops \<Rightarrow> interval_storage \<Rightarrow> 'f" where
  "stdev F s =
     (let m = mean F s in
      f_sqrt F (f_sub F (f_div F (f_of_u64 F (sum_squares s)) (f_of_usize F (length (intervals s)))) (f_mult F m m)))"

text \<open>
  \<open>normal\<close> gives the parameters of the distribution; \<open>None\<close> is the panic where they are not valid (the
  mean of an empty window is not a number).  A duration of negative or too many seconds panics as well.
\<close>

definition normal :: "'f f64_ops \<Rightarrow> interval_storage \<Rightarrow> ('f \<times> 'f) option" where
  "normal F s =
     (let m = mean F s; sd = f_max F (f_min_positive F) (stdev F s) in
      if f_normal_ok F m sd then Some (m, sd) else None)"

definition phi_duration :: "'f f64_ops \<Rightarrow> interval_storage \<Rightarrow> duration \<Rightarrow> 'f option" where
  "phi_duration F s dur =
     (case normal F s of
        None \<Rightarrow> None
      | Some (m, sd) \<Rightarrow> Some (f_normal_cdf F m sd (f_mult F (f_secs_of_duration F dur) (f_thousand F))))"

definition phi :: "'f f64_ops \<Rightarrow> nat \<Rightarrow> interval_storage \<Rightarrow> 'f option" where
  "phi F now s = phi_duration F s (now - latest s)"

definition duration_phi :: "'f f64_ops \<Rightarrow> interval_storage \<Rightarrow> 'f \<Rightarrow> duration option" where
  "duration_phi F s p =
     (case normal F s of
        None \<Rightarrow> None
      | Some (m, sd) \<Rightarrow>
          (let millis = f_normal_inverse_cdf F m sd p in
           if f_finite F millis then f_duration_of_secs F (f_div F millis (f_thousand F)) else Some 0))"

subsection \<open>The window\<close>

definition storage_ok :: "interval_storage \<Rightarrow> bool" where
  "storage_ok s \<longleftrightarrow>
     ivs_sum s = sum_list (intervals s) \<and> sum_squares s = sum_list (map (\<lambda>d. d * d) (intervals s)) \<and>
     length (intervals s) \<le> capacity s"

lemma sum_list_butlast: "xs \<noteq> [] \<Longrightarrow> sum_list (map f (butlast xs)) = sum_list (map f xs) - (f (last xs) :: u64)"
  by (induction xs rule: rev_induct) auto

lemma storage_ok_new: "storage_ok (storage_new cap init n_times start)"
  by (simp add: storage_ok_def storage_new_def Let_def)

text \<open>Whatever the window, the loop leaves the newest \<open>capacity - 1\<close> intervals.\<close>

lemma evict_eq:
  assumes "ivs_sum s = sum_list (intervals s)" "sum_squares s = sum_list (map (\<lambda>d. d * d) (intervals s))"
  shows "evict s = (if capacity s = 0 then None
     else (let ivs = take (capacity s - 1) (intervals s) in
       Some (s\<lparr>intervals := ivs, ivs_sum := sum_list ivs, sum_squares := sum_list (map (\<lambda>d. d * d) ivs)\<rparr>)))"
  using assms
proof (induction s rule: evict.induct)
  case (1 s)
  show ?case
  proof (cases "capacity s \<le> length (intervals s)")
    case False
    then have "take (capacity s - 1) (intervals s) = intervals s" "capacity s \<noteq> 0" by auto
    with False "1.prems" show ?thesis by (subst evict.simps, cases s) (simp add: Let_def)
  next
    case True
    show ?thesis
    proof (cases "intervals s = []")
      case True
      with \<open>capacity s \<le> length (intervals s)\<close> show ?thesis by (subst evict.simps) simp
    next
      case ne: False
      let ?s = "s\<lparr>intervals := butlast (intervals s), ivs_sum := ivs_sum s - last (intervals s),
          sum_squares := sum_squares s - last (intervals s) * last (intervals s)\<rparr>"
      have "evict s = evict ?s" using True ne by (subst evict.simps) (simp add: Let_def)
      moreover have "ivs_sum ?s = sum_list (intervals ?s)"
        using "1.prems"(1) sum_list_butlast[OF ne, of "\<lambda>d. d"] by simp
      moreover have "sum_squares ?s = sum_list (map (\<lambda>d. d * d) (intervals ?s))"
        using "1.prems"(2) sum_list_butlast[OF ne, of "\<lambda>d. d * d"] by simp
      moreover have "take (capacity s - 1) (butlast (intervals s)) = take (capacity s - 1) (intervals s)"
        using True ne by (simp add: butlast_conv_take min_def)
      ultimately show ?thesis using "1.IH"[OF True ne refl] by (simp add: Let_def)
    qed
  qed
qed

lemma push_instant_eq:
  assumes "storage_ok s"
  shows "push_instant i s = (if capacity s = 0 then None
     else (let ivs = dur2u64 (i - latest s) # take (capacity s - 1) (intervals s) in
       Some \<lparr>capacity = capacity s, intervals = ivs, ivs_sum = sum_list ivs,
         sum_squares = sum_list (map (\<lambda>d. d * d) ivs), latest = i\<rparr>))"
  using assms by (cases s) (simp add: push_instant_def evict_eq storage_ok_def Let_def add.commute)

lemma storage_ok_push:
  assumes "storage_ok s" "push_instant i s = Some s'"
  shows "storage_ok s'" "capacity s' = capacity s" "latest s' = i"
  using assms by (auto simp: push_instant_eq[OF assms(1)] storage_ok_def Let_def split: if_splits)

fun push_all :: "nat list \<Rightarrow> interval_storage \<Rightarrow> interval_storage option" where
  "push_all [] s = Some s"
| "push_all (i # ts) s = (case push_instant i s of None \<Rightarrow> None | Some s' \<Rightarrow> push_all ts s')"

text \<open>The intervals between the pushes, newest first.\<close>

fun gaps :: "nat \<Rightarrow> nat list \<Rightarrow> u64 list" where
  "gaps t [] = []"
| "gaps t (i # ts) = gaps i ts @ [dur2u64 (i - t)]"

lemma push_all_window:
  assumes "storage_ok s" "0 < capacity s"
  shows "\<exists>s'. push_all ts s = Some s' \<and> storage_ok s' \<and> capacity s' = capacity s \<and>
     intervals s' = take (capacity s) (gaps (latest s) ts @ intervals s)"
  using assms
proof (induction ts arbitrary: s)
  case Nil
  then show ?case by (simp add: storage_ok_def)
next
  case (Cons i ts)
  obtain s1 where s1: "push_instant i s = Some s1"
      "intervals s1 = dur2u64 (i - latest s) # take (capacity s - 1) (intervals s)"
    using Cons.prems by (simp add: push_instant_eq Let_def)
  note ok = storage_ok_push[OF Cons.prems(1) s1(1)]
  obtain s' where s': "push_all ts s1 = Some s'" "storage_ok s'" "capacity s' = capacity s"
      "intervals s' = take (capacity s) (gaps i ts @ intervals s1)"
    using Cons.IH[OF ok(1)] ok Cons.prems(2) by auto
  have "take (capacity s) (gaps i ts @ intervals s1) =
      take (capacity s) (gaps i ts @ dur2u64 (i - latest s) # intervals s)"
    unfolding s1(2) by (auto simp: take_Cons' min_def)
  with s1(1) s' show ?case by simp
qed

text \<open>
  Property C39.  The storage is a sliding window with correct running sums.  After any pushes the
  intervals are the newest \<open>capacity\<close> of the gaps between the pushes followed by the initial ones,
  and the incrementally kept sum and sum of squares are those of the window, modulo \<open>2 ^ 64\<close>.
\<close>

theorem interval_storage_window:
  assumes "0 < cap"
  shows "\<exists>s. push_all ts (storage_new cap init n_times start) = Some s \<and>
     intervals s = take cap (gaps start ts @ interleave (replicate n_times (dur2u64 init)) (replicate n_times 0)) \<and>
     ivs_sum s = sum_list (intervals s) \<and> sum_squares s = sum_list (map (\<lambda>d. d * d) (intervals s))"
proof -
  have "capacity (storage_new cap init n_times start) = cap" "latest (storage_new cap init n_times start) = start"
    and iv: "intervals (storage_new cap init n_times start) =
      take cap (interleave (replicate n_times (dur2u64 init)) (replicate n_times 0))"
    by (simp_all add: storage_new_def Let_def)
  with push_all_window[OF storage_ok_new, of cap init n_times start ts] assms
  obtain s where "push_all ts (storage_new cap init n_times start) = Some s" "storage_ok s"
      "intervals s = take cap (gaps start ts @ intervals (storage_new cap init n_times start))"
    by auto
  then show ?thesis unfolding iv by (auto simp: storage_ok_def min_def)
qed

theorem interval_storage_window_witness:
  "\<exists>s. push_all [from_millis 7] (storage_new 3 (from_millis 10) 2 0) = Some s \<and> intervals s = [7, 10, 0]"
  using interval_storage_window[of 3 "[from_millis 7]" "from_millis 10" 2 0]
  by (auto simp: dur2u64_def numeral_2_eq_2 numeral_3_eq_3)

text \<open>
  Fact.  A window configured with capacity zero cannot be pushed to: the loop empties it and
  then unwraps the missing last element.
\<close>

theorem interval_storage_zero_capacity:
  "push_instant i (storage_new 0 init n_times start) = None"
  using push_instant_eq[OF storage_ok_new[of 0 init n_times start]] by (simp add: storage_new_def Let_def)

end
