(* ===== verification/Heartbeat_Receiver.thy ===== *)
theory Heartbeat_Receiver
  imports Members Interval_Storage
begin

text \<open>
  The monitor of one charge (cluster/heartbeat_receiver.rs).  It is a timeout actor: every handler
  answers with the next timeout or \<open>None\<close> to keep the current one.  Requests go to the charge, and
  the verdict \<open>Downed\<close> goes to the supervising cluster actor.  A panic (a window of capacity zero,
  statistics that are not numbers, or an interval whose double is no duration) is \<open>None\<close>.
\<close>

record 'f hbr_config =
  phi_limit :: 'f
  hbr_capacity :: nat
  hbr_times :: nat
  req_tries :: nat
  req_timeout :: duration

definition default_hbr_config :: "'f \<Rightarrow> 'f hbr_config" where
  "default_hbr_config p995 =
     \<lparr>phi_limit = p995, hbr_capacity = 10, hbr_times = 5, req_tries = 3, req_timeout = from_millis 100\<rparr>"

datatype hbr_msg = Heartbeat duration u32

datatype hbr_state = Initial nat | Receiving interval_storage u32 | Downed_State

record 'f hbr =
  charge :: member
  requester :: member
  hbr_state :: hbr_state
  hbr_conf :: "'f hbr_config"

text \<open>\<open>Send_Req m r i\<close>: the request \<open>ReqHeartbeat(r, i)\<close> to the socket of \<open>m\<close>.\<close>

datatype hbr_effect = Send_Req member member u64 | Send_Downed member

abbreviation forever :: duration where
  "forever \<equiv> (2 ^ 32 - 1) * 1000000000"

definition hbr_spawn :: "member \<Rightarrow> member \<Rightarrow> 'f hbr_config \<Rightarrow> 'f hbr" where
  "hbr_spawn me c conf =
     \<lparr>charge = c, requester = me, hbr_state = Initial (req_tries conf), hbr_conf = conf\<rparr>"

definition send_req :: "'f hbr \<Rightarrow> hbr_effect" where
  "send_req h = Send_Req (charge h) (requester h) (m_id (charge h))"

definition hbr_pre_start :: "'f hbr \<Rightarrow> 'f hbr \<times> duration option \<times> hbr_effect list" where
  "hbr_pre_start h = (h, None, [send_req h])"

text \<open>\<open>recv\<close> at the instant \<open>now\<close>.  Twice the announced interval must be a duration.\<close>

definition hbr_window :: "'f hbr_config \<Rightarrow> nat \<Rightarrow> duration \<Rightarrow> interval_storage option" where
  "hbr_window conf now dur =
     map_option (\<lambda>d. storage_new (hbr_capacity conf) d (hbr_times conf) now) (dur_double dur)"

definition hbr_recv ::
    "'f f64_ops \<Rightarrow> nat \<Rightarrow> hbr_msg \<Rightarrow> 'f hbr \<Rightarrow> ('f hbr \<times> duration option \<times> hbr_effect list) option" where
  "hbr_recv F now msg h =
     (case msg of Heartbeat dur cnt \<Rightarrow>
        (let conf = hbr_conf h in
         case hbr_state h of
           Initial _ \<Rightarrow>
             (case hbr_window conf now dur of
                None \<Rightarrow> None
              | Some storage \<Rightarrow>
                  map_option (\<lambda>d. (h\<lparr>hbr_state := Receiving storage cnt\<rparr>, Some d, []))
                    (duration_phi F storage (phi_limit conf)))
         | Receiving storage old_cnt \<Rightarrow>
             (case (if old_cnt < cnt then hbr_window conf now dur else push_instant now storage) of
                None \<Rightarrow> None
              | Some storage' \<Rightarrow>
                  map_option (\<lambda>d. (h\<lparr>hbr_state := Receiving storage' old_cnt\<rparr>, Some d, []))
                    (duration_phi F storage' (phi_limit conf)))
         | Downed_State \<Rightarrow> Some (h, Some forever, [])))"

definition hbr_timeout :: "'f hbr \<Rightarrow> 'f hbr \<times> duration option \<times> hbr_effect list" where
  "hbr_timeout h =
     (let conf = hbr_conf h in
      case hbr_state h of
        Initial 0 \<Rightarrow> (h\<lparr>hbr_state := Downed_State\<rparr>, Some forever, [Send_Downed (charge h)])
      | Receiving storage _ \<Rightarrow> (h\<lparr>hbr_state := Initial (req_tries conf)\<rparr>, Some (req_timeout conf), [])
      | Initial (Suc reqs_left) \<Rightarrow>
          (h\<lparr>hbr_state := Initial reqs_left\<rparr>, Some (req_timeout conf), [send_req h])
      | Downed_State \<Rightarrow> (h, Some forever, []))"

subsection \<open>Runs\<close>

datatype hbr_event = Beat nat hbr_msg | Silence

fun hbr_run :: "'f f64_ops \<Rightarrow> 'f hbr \<Rightarrow> hbr_event list \<Rightarrow> ('f hbr \<times> hbr_effect list) option" where
  "hbr_run F h [] = Some (h, [])"
| "hbr_run F h (Silence # es) =
     (case hbr_timeout h of (h', _, out) \<Rightarrow> map_option (\<lambda>(h'', outs). (h'', out @ outs)) (hbr_run F h' es))"
| "hbr_run F h (Beat now msg # es) =
     (case hbr_recv F now msg h of
        None \<Rightarrow> None
      | Some (h', _, out) \<Rightarrow> map_option (\<lambda>(h'', outs). (h'', out @ outs)) (hbr_run F h' es))"

lemma hbr_run_append:
  "hbr_run F h (es @ fs) =
     (case hbr_run F h es of
        None \<Rightarrow> None
      | Some (h', outs) \<Rightarrow> map_option (\<lambda>(h'', outs'). (h'', outs @ outs')) (hbr_run F h' fs))"
  by (induction F h es rule: hbr_run.induct)
    (auto split: option.splits prod.splits simp: map_option_case)

lemma hbr_timeout_cases:
  "hbr_state h = Initial 0 \<Longrightarrow>
     hbr_timeout h = (h\<lparr>hbr_state := Downed_State\<rparr>, Some forever, [Send_Downed (charge h)])"
  "hbr_state h = Initial (Suc n) \<Longrightarrow>
     hbr_timeout h = (h\<lparr>hbr_state := Initial n\<rparr>, Some (req_timeout (hbr_conf h)), [send_req h])"
  "hbr_state h = Receiving storage cnt \<Longrightarrow>
     hbr_timeout h = (h\<lparr>hbr_state := Initial (req_tries (hbr_conf h))\<rparr>, Some (req_timeout (hbr_conf h)), [])"
  "hbr_state h = Downed_State \<Longrightarrow> hbr_timeout h = (h, Some forever, [])"
  by (simp_all add: hbr_timeout_def Let_def)

lemma send_req_state [simp]: "send_req (h\<lparr>hbr_state := st\<rparr>) = send_req h"
  by (simp add: send_req_def)

lemma hbr_silence_initial:
  "hbr_state h = Initial n \<Longrightarrow>
   hbr_run F h (replicate (Suc n) Silence) =
     Some (h\<lparr>hbr_state := Downed_State\<rparr>, replicate n (send_req h) @ [Send_Downed (charge h)])"
proof (induction n arbitrary: h)
  case 0
  then show ?case by (simp add: hbr_timeout_cases)
next
  case (Suc n)
  have "hbr_run F (h\<lparr>hbr_state := Initial n\<rparr>) (replicate (Suc n) Silence) =
      Some (h\<lparr>hbr_state := Downed_State\<rparr>, replicate n (send_req h) @ [Send_Downed (charge h)])"
    using Suc.IH[of "h\<lparr>hbr_state := Initial n\<rparr>"] by (simp del: replicate_Suc)
  with Suc.prems show ?case
    by (simp add: hbr_timeout_cases replicate_Suc[of "Suc n"] del: replicate_Suc)
      (simp only: replicate_Suc append_Cons)
qed

lemma hbr_silence_downed:
  "hbr_state h = Downed_State \<Longrightarrow> hbr_run F h (replicate n Silence) = Some (h, [])"
  by (induction n) (simp_all add: hbr_timeout_cases)

text \<open>
  Fact.  Failure detection of a charge that was never heard of.  The monitor requests a
  heartbeat when it starts and at each of the following \<open>req_tries\<close> timeouts, \<open>1 + req_tries\<close> requests
  in all; at the next timeout it declares the charge down, and then stays silent for good.
\<close>

theorem hbr_downs_silent_charge:
  "hbr_run F (fst (hbr_pre_start (hbr_spawn me c conf))) (replicate (Suc (req_tries conf) + k) Silence) =
     Some (hbr_spawn me c conf\<lparr>hbr_state := Downed_State\<rparr>,
       replicate (req_tries conf) (Send_Req c me (m_id c)) @ [Send_Downed c]) \<and>
   snd (snd (hbr_pre_start (hbr_spawn me c conf))) = [Send_Req c me (m_id c)]"
proof -
  have "hbr_state (hbr_spawn me c conf) = Initial (req_tries conf)" by (simp add: hbr_spawn_def)
  from hbr_silence_initial[OF this, of F] show ?thesis
    unfolding replicate_add hbr_run_append
    by (simp add: hbr_silence_downed hbr_pre_start_def send_req_def hbr_spawn_def del: replicate_Suc)
qed

text \<open>
  Fact.  A charge that falls silent after heartbeats gets \<open>req_tries\<close> requests and is declared
  down at the timeout number \<open>req_tries + 2\<close>: the first timeout only goes back to the initial state,
  although the log line there says that a heartbeat is requested.
\<close>

theorem hbr_downs_after_heartbeats:
  assumes "hbr_state h = Receiving storage cnt"
  shows "hbr_run F h (replicate (req_tries (hbr_conf h) + 2) Silence) =
     Some (h\<lparr>hbr_state := Downed_State\<rparr>, replicate (req_tries (hbr_conf h)) (send_req h) @ [Send_Downed (charge h)])"
proof -
  let ?n = "req_tries (hbr_conf h)"
  have "hbr_state (h\<lparr>hbr_state := Initial ?n\<rparr>) = Initial ?n" by simp
  from hbr_silence_initial[OF this, of F]
  have "hbr_run F (h\<lparr>hbr_state := Initial ?n\<rparr>) (replicate (?n + 1) Silence) =
      Some (h\<lparr>hbr_state := Downed_State\<rparr>, replicate ?n (send_req h) @ [Send_Downed (charge h)])"
    by (simp del: replicate_Suc)
  moreover have "replicate (?n + 2) Silence = Silence # replicate (?n + 1) Silence" by simp
  ultimately show ?thesis
    using hbr_timeout_cases(3)[OF assms] by (simp del: replicate_Suc replicate_app_Cons_same)
qed

lemma hbr_downed_stays:
  "hbr_state h = Downed_State \<Longrightarrow> hbr_run F h es = Some (h, [])"
proof (induction es)
  case Nil
  then show ?case by simp
next
  case (Cons e es)
  then show ?case
    by (cases e) (auto simp: hbr_timeout_def hbr_recv_def Let_def split: hbr_msg.splits)
qed

text \<open>
  Fact.  The verdict is given at most once, and it is final: whatever heartbeats and timeouts
  come, at most one \<open>Downed\<close> is sent, it names the charge, and it is the last thing the monitor does.
\<close>

theorem hbr_downs_once:
  assumes "hbr_run F h es = Some (h', outs)"
  shows "(\<forall>c. Send_Downed c \<in> set outs \<longrightarrow>
     c = charge h \<and> hbr_state h' = Downed_State \<and> (\<exists>reqs. outs = reqs @ [Send_Downed c] \<and> Send_Downed c \<notin> set reqs))"
  using assms
proof (induction F h es arbitrary: outs rule: hbr_run.induct)
  case (1 F h)
  then show ?case by simp
next
  case (2 F h es)
  obtain h1 d out where st: "hbr_timeout h = (h1, d, out)" by (cases "hbr_timeout h")
  with "2.prems" obtain outs1 where run: "hbr_run F h1 es = Some (h', outs1)" "outs = out @ outs1"
    by auto
  have ch: "charge h1 = charge h" and
    out: "out = [] \<or> out = [send_req h] \<or> out = [Send_Downed (charge h)] \<and> hbr_state h1 = Downed_State"
    using st by (auto simp: hbr_timeout_def Let_def split: hbr_state.splits nat.splits)
  note IH = "2.IH"[OF st[symmetric] refl run(1)]
  from out show ?case
  proof (elim disjE conjE)
    assume down: "out = [Send_Downed (charge h)]" "hbr_state h1 = Downed_State"
    with run hbr_downed_stays[OF down(2), of F es] show ?thesis by auto
  qed (use IH run(2) ch in \<open>auto simp: send_req_def\<close>)
next
  case (3 F h now msg es)
  then obtain h1 d out where st: "hbr_recv F now msg h = Some (h1, d, out)"
    by (auto split: option.splits)
  with "3.prems" obtain outs1 where run: "hbr_run F h1 es = Some (h', outs1)" "outs = out @ outs1"
    by auto
  have "charge h1 = charge h" "out = []"
    using st by (auto simp: hbr_recv_def Let_def split: hbr_state.splits hbr_msg.splits option.splits)
  with "3.IH"[OF st refl refl run(1)] run(2) show ?case by simp
qed

definition sample_hbr_config :: "nat hbr_config" where
  "sample_hbr_config = \<lparr>phi_limit = 0, hbr_capacity = 10, hbr_times = 5, req_tries = 3, req_timeout = 100\<rparr>"

theorem hbr_downs_after_heartbeats_witness:
  "\<forall>F me c. hbr_run F (hbr_spawn me c sample_hbr_config\<lparr>hbr_state := Receiving (storage_new 10 5 5 0) 0\<rparr>) (replicate 5 Silence) =
     Some (hbr_spawn me c sample_hbr_config\<lparr>hbr_state := Downed_State\<rparr>,
       [Send_Req c me (m_id c), Send_Req c me (m_id c), Send_Req c me (m_id c), Send_Downed c])"
proof (intro allI)
  fix F :: "nat f64_ops" and me c
  show "hbr_run F (hbr_spawn me c sample_hbr_config\<lparr>hbr_state := Receiving (storage_new 10 5 5 0) 0\<rparr>) (replicate 5 Silence) =
     Some (hbr_spawn me c sample_hbr_config\<lparr>hbr_state := Downed_State\<rparr>,
       [Send_Req c me (m_id c), Send_Req c me (m_id c), Send_Req c me (m_id c), Send_Downed c])"
    using hbr_downs_after_heartbeats[of "hbr_spawn me c sample_hbr_config\<lparr>hbr_state := Receiving (storage_new 10 5 5 0) 0\<rparr>"
        "storage_new 10 5 5 0" 0 F]
    by (simp add: sample_hbr_config_def hbr_spawn_def send_req_def numeral_3_eq_3 eval_nat_numeral)
qed

theorem hbr_downs_once_witness:
  "\<forall>F me c. \<exists>h outs reqs. hbr_run F (hbr_spawn me c sample_hbr_config) (replicate 4 Silence) = Some (h, outs) \<and>
     outs = reqs @ [Send_Downed c] \<and> Send_Downed c \<notin> set reqs"
proof (intro allI)
  fix F :: "nat f64_ops" and me c
  have run: "hbr_run F (hbr_spawn me c sample_hbr_config) (replicate 4 Silence) =
      Some (hbr_spawn me c sample_hbr_config\<lparr>hbr_state := Downed_State\<rparr>,
        replicate 3 (Send_Req c me (m_id c)) @ [Send_Downed c])"
    using hbr_silence_initial[of "hbr_spawn me c sample_hbr_config" 3 F]
    by (simp add: hbr_spawn_def sample_hbr_config_def send_req_def numeral_3_eq_3 eval_nat_numeral)
  from hbr_downs_once[OF run] show "\<exists>h outs reqs. hbr_run F (hbr_spawn me c sample_hbr_config) (replicate 4 Silence) = Some (h, outs) \<and>
     outs = reqs @ [Send_Downed c] \<and> Send_Downed c \<notin> set reqs" unfolding run by simp
qed

end
