(* ===== verification/Testkit.thy ===== *)
theory Testkit
  imports Remoting Udp_Serial
begin

text \<open>
  Simulated network failures, the sending half of a node and the logger (testkit/failure_config.rs,
  testkit/logging.rs, core/node.rs).  Name resolution, the random numbers and the comparison of
  \<open>f64\<close> are parameters; what reaches the socket is a list of datagrams with the delay before them.
\<close>

subsection \<open>Failure configurations\<close>

datatype failure_mode = Per_Packet | Per_Message | No_Failure

record 'f failure_config =
  drop_prob :: 'f
  delay :: "(duration \<times> duration) option"

record 'f failure_config_map =
  cluster_wide :: "'f failure_config"
  node_wide :: "socket \<Rightarrow> 'f failure_config option"

definition failure_get :: "'f failure_config_map \<Rightarrow> socket \<Rightarrow> 'f failure_config" where
  "failure_get m sock = unwrap_or (node_wide m sock) (cluster_wide m)"

subsection \<open>Sending\<close>

text \<open>A datagram batch on its way: the delay before it, the address and the datagrams.\<close>

record 'a transmission =
  tr_delay :: duration
  tr_addr :: 'a
  tr_datagrams :: "u8 list list"

text \<open>\<open>as_udp_addr\<close>: the addresses a socket resolves to; a failed lookup is \<open>None\<close>.\<close>

definition as_udp_addr ::
    "(ip_addr \<Rightarrow> u16 \<Rightarrow> 'a) \<Rightarrow> (string \<Rightarrow> u16 \<Rightarrow> 'a list option) \<Rightarrow> ('a \<Rightarrow> bool) \<Rightarrow> socket \<Rightarrow> 'a list option" where
  "as_udp_addr addr lookup is_ipv4 s =
     (case sock_host s of
        IP ip \<Rightarrow> Some [addr ip (sock_udp s)]
      | DNS name \<Rightarrow> map_option (filter is_ipv4) (lookup name (sock_udp s)))"

definition node_udp :: "(socket \<Rightarrow> 'a list option) \<Rightarrow> socket \<Rightarrow> udp_serial \<Rightarrow> 'a transmission list option" where
  "node_udp resolve sock ser =
     (case resolve sock of
        Some (a # _) \<Rightarrow> Some [\<lparr>tr_delay = 0, tr_addr = a, tr_datagrams = ser_send ser\<rparr>]
      | _ \<Rightarrow> None)"

text \<open>
  \<open>udp_unreliable_msg\<close>: \<open>roll\<close> is the random number, \<open>gen_range lo hi\<close> the random one in the range,
  which panics on an empty range.
\<close>

definition udp_unreliable_msg ::
    "(socket \<Rightarrow> 'a list option) \<Rightarrow> ('f \<Rightarrow> 'f \<Rightarrow> bool) \<Rightarrow> 'f \<Rightarrow> (nat \<Rightarrow> nat \<Rightarrow> nat) \<Rightarrow> socket \<Rightarrow> udp_serial \<Rightarrow>
     'f failure_config_map \<Rightarrow> 'a transmission list option" where
  "udp_unreliable_msg resolve f_ge roll gen_range sock ser fail_map =
     (let fail_cfg = failure_get fail_map sock in
      case resolve sock of
        Some (a # _) \<Rightarrow>
          (case delay fail_cfg of
             None \<Rightarrow>
               Some (if f_ge roll (drop_prob fail_cfg)
                 then [\<lparr>tr_delay = 0, tr_addr = a, tr_datagrams = ser_send ser\<rparr>] else [])
           | Some (mn, mx) \<Rightarrow>
               (if as_millis mx < as_millis mn then None
                else Some (if f_ge roll (drop_prob fail_cfg)
                  then [\<lparr>tr_delay = from_millis (gen_range (as_millis mn) (as_millis mx)), tr_addr = a,
                         tr_datagrams = ser_send ser\<rparr>] else [])))
      | _ \<Rightarrow> None)"

text \<open>\<open>FailureMode::Packet\<close> is not implemented: the code panics with \<open>todo!()\<close>.\<close>

definition udp_select ::
    "(socket \<Rightarrow> 'a list option) \<Rightarrow> ('f \<Rightarrow> 'f \<Rightarrow> bool) \<Rightarrow> 'f \<Rightarrow> (nat \<Rightarrow> nat \<Rightarrow> nat) \<Rightarrow> socket \<Rightarrow> udp_serial \<Rightarrow>
     failure_mode \<Rightarrow> 'f failure_config_map \<Rightarrow> 'a transmission list option" where
  "udp_select resolve f_ge roll gen_range sock ser mode fail_map =
     (case mode of
        No_Failure \<Rightarrow> node_udp resolve sock ser
      | Per_Message \<Rightarrow> udp_unreliable_msg resolve f_ge roll gen_range sock ser fail_map
      | Per_Packet \<Rightarrow> None)"

text \<open>
  Fact.  A simulated failure is all or nothing and local to its socket: a message is sent with
  all its datagrams, within the delays its socket's configuration allows, or not at all, and the
  configuration that decides is the one of the socket where there is one.
\<close>

theorem udp_select_all_or_nothing:
  assumes "udp_select resolve f_ge roll gen_range sock ser mode fail_map = Some trs"
    and "\<forall>lo hi. lo \<le> hi \<longrightarrow> lo \<le> gen_range lo hi \<and> gen_range lo hi \<le> hi"
  shows "trs = [] \<and> mode = Per_Message \<and> \<not> f_ge roll (drop_prob (failure_get fail_map sock)) \<or>
     (\<exists>a d. hd (the (resolve sock)) = a \<and> trs = [\<lparr>tr_delay = d, tr_addr = a, tr_datagrams = ser_send ser\<rparr>] \<and>
        (d = 0 \<or> (\<exists>mn mx. delay (failure_get fail_map sock) = Some (mn, mx) \<and>
           as_millis mn \<le> as_millis d \<and> as_millis d \<le> as_millis mx)))"
  using assms
  by (auto simp: udp_select_def node_udp_def udp_unreliable_msg_def Let_def
      split: failure_mode.splits option.splits list.splits if_splits)

definition sample_fail_map :: "nat failure_config_map" where
  "sample_fail_map = \<lparr>cluster_wide = \<lparr>drop_prob = 100, delay = None\<rparr>,
     node_wide = [Socket (DNS ''a'') 1 1 \<mapsto> \<lparr>drop_prob = 0, delay = Some (from_millis 3, from_millis 9)\<rparr>]\<rparr>"

theorem udp_select_all_or_nothing_witness:
  "udp_select (\<lambda>_. Some [0::nat]) (\<lambda>x y. y \<le> x) 50 (\<lambda>lo hi. lo) (Socket (DNS ''a'') 1 1) \<lparr>ser_bytes = [1]\<rparr>
     Per_Message sample_fail_map \<noteq> Some []"
proof
  assume sel: "udp_select (\<lambda>_. Some [0::nat]) (\<lambda>x y. y \<le> x) 50 (\<lambda>lo hi. lo) (Socket (DNS ''a'') 1 1) \<lparr>ser_bytes = [1]\<rparr>
     Per_Message sample_fail_map = Some []"
  from udp_select_all_or_nothing[OF sel] show False
    by (simp add: failure_get_def sample_fail_map_def)
qed

subsection \<open>Logging\<close>

datatype log_level = Trace | Debug | Info | Warn | Error | Fatal | Off

fun level_rank :: "log_level \<Rightarrow> nat" where
  "level_rank Trace = 0" | "level_rank Debug = 1" | "level_rank Info = 2" | "level_rank Warn = 3"
| "level_rank Error = 4" | "level_rank Fatal = 5" | "level_rank Off = 6"

instantiation log_level :: linorder
begin

definition less_eq_log_level :: "log_level \<Rightarrow> log_level \<Rightarrow> bool" where
  "less_eq_log_level a b \<longleftrightarrow> level_rank a \<le> level_rank b"

definition less_log_level :: "log_level \<Rightarrow> log_level \<Rightarrow> bool" where
  "less_log_level a b \<longleftrightarrow> level_rank a < level_rank b"

instance
proof
  fix x y :: log_level
  show "x \<le> y \<Longrightarrow> y \<le> x \<Longrightarrow> x = y"
    by (cases x; cases y) (simp_all add: less_eq_log_level_def)
qed (auto simp: less_eq_log_level_def less_log_level_def)

end

fun caps :: "log_level \<Rightarrow> string" where
  "caps Trace = ''TRACE''" | "caps Debug = ''DEBUG''" | "caps Info = ''INFO''" | "caps Warn = ''WARN''"
| "caps Error = ''ERROR''" | "caps Fatal = ''FATAL''" | "caps Off = ''OFF''"

datatype log_special = Sent_Bytes u64 | Recvd_Bytes u64

datatype logger_msg = Log log_level string nat nat string | Set_Level log_level | Special log_special

record logger =
  bytes_sent :: u64
  bytes_recvd :: u64
  level :: log_level

definition logger_new :: "log_level \<Rightarrow> logger" where
  "logger_new l = \<lparr>bytes_sent = 0, bytes_recvd = 0, level = l\<rparr>"

text \<open>What a line of output is made of.\<close>

definition logger_recv :: "logger_msg \<Rightarrow> logger \<Rightarrow> logger \<times> (string \<times> string \<times> nat \<times> nat \<times> string) list" where
  "logger_recv m lg =
     (case m of
        Log lv file line column text \<Rightarrow>
          (lg, if level lg \<le> lv then [(caps lv, file, line, column, text)] else [])
      | Set_Level lv \<Rightarrow> (lg\<lparr>level := lv\<rparr>, [])
      | Special s \<Rightarrow>
          ((case s of
              Sent_Bytes b \<Rightarrow> lg\<lparr>bytes_sent := bytes_sent lg + b\<rparr>
            | Recvd_Bytes b \<Rightarrow> lg\<lparr>bytes_recvd := bytes_recvd lg + b\<rparr>), []))"

text \<open>The macro \<open>log!\<close>: the environment's level decides whether the logger is sent a message.\<close>

definition log_macro :: "log_level \<Rightarrow> log_level \<Rightarrow> string \<Rightarrow> nat \<Rightarrow> nat \<Rightarrow> string \<Rightarrow> logger_msg list" where
  "log_macro env_level msg_level file line column text =
     (if env_level \<le> msg_level then [Log msg_level file line column text] else [])"

end
