(* ===== verification/Cluster.thy ===== *)
theory Cluster
  imports Ring_Monitoring Gossip Heartbeat_Receiver Testkit
begin

text \<open>
  The cluster actor (cluster/cluster.rs): joining by pings to the seed nodes, membership by gossip,
  monitoring by the heartbeat receivers of the node's charges.  Every handler is a function from the
  state to the new state and the effects, in the order the code has them; \<open>None\<close> is a panic.

  What the handlers take from outside is gathered in \<open>cluster_env\<close>: the hash functions of the ring,
  the variants of the message types, the random choice of gossip partners and whether a subscriber's
  mailbox is open.  \<open>rid\<close> is the next random identifier.  A hash set that is iterated appears as a
  set in the effect.  Timers are modelled as the runtime keeps them: a pending timer with its handle.
\<close>

subsection \<open>Messages, state and effects\<close>

datatype 'u intra_msg =
    Foo "('u, unit) actor_ref"
  | Req_Heartbeat member u64
  | Req_Gossip member
  | State_Msg gossip
  | Ping member

datatype ('u, 's, 'f) cluster_msg =
    Intra_Msg "'u intra_msg"
  | Subscribe 's
  | Failure_Map "'f failure_config_map"
  | Ping_Timeout
  | Gossip_Timeout
  | Downed member
  | Heartbeat_Tick

record cluster_update =
  cu_events :: "cluster_event list"
  cu_nodes :: "member set"
  cu_ring :: node_ring

datatype ('u, 's) cluster_effect =
    To_Members "member set" "'u intra_msg"
  | To_Socket socket "'u intra_msg"
  | To_Sockets "socket set" "'u intra_msg"
  | Heartbeat_To socket "'u destination" duration u32
  | Spawn_HBR string member member
  | Stop_HBRs "string set"
  | Notify 's cluster_update

record ('u, 's) cluster_env =
  env_hash :: "member \<Rightarrow> u64"
  env_wyrng :: "u64 \<Rightarrow> u64"
  variant_cluster_msg :: 'u
  variant_intra :: 'u
  variant_hbr_msg :: 'u
  env_choose :: "member set \<Rightarrow> nat \<Rightarrow> member set"
  env_alive :: "'s \<Rightarrow> bool"

record ('u, 's, 'f) node_state =
  ns_member :: member
  clr_dest :: "'u destination"
  hbr_dest :: "'u destination"
  subscribers :: "'s list"
  fail_map :: "'f failure_config_map"
  hb_interval_changes :: u32
  clr_config :: cluster_config
  ns_hbr_config :: "'f hbr_config"

record in_cluster =
  ic_charges :: "member \<Rightarrow> string option"
  ic_managers :: "member list"
  ic_gossip :: gossip
  ic_members :: "member set"
  ic_ring :: node_ring
  gossip_handle :: nat

record pinging =
  png_count :: u64
  png_timeout :: nat

datatype clr_state = In_Cluster in_cluster | Pinging pinging | Left

record ('u, 's, 'f) cluster =
  common :: "('u, 's, 'f) node_state"
  clr_state :: clr_state

subsection \<open>Timers\<close>

datatype timer = Ping_Timer | Gossip_Timer | Heartbeat_Timer | No_Timer

record runtime =
  next_handle :: nat
  pending :: "(nat \<times> timer \<times> duration) list"

definition schedule :: "timer \<Rightarrow> duration \<Rightarrow> runtime \<Rightarrow> nat \<times> runtime" where
  "schedule t d rt =
     (next_handle rt, rt\<lparr>next_handle := next_handle rt + 1, pending := pending rt @ [(next_handle rt, t, d)]\<rparr>)"

text \<open>\<open>spawn(async \{ \})\<close>: a task that is over at once.\<close>

definition spawn_done :: "runtime \<Rightarrow> nat \<times> runtime" where
  "spawn_done rt = (next_handle rt, rt\<lparr>next_handle := next_handle rt + 1\<rparr>)"

definition abort :: "nat \<Rightarrow> runtime \<Rightarrow> runtime" where
  "abort h rt = rt\<lparr>pending := filter (\<lambda>e. fst e \<noteq> h) (pending rt)\<rparr>"

text \<open>The timer with a handle elapses: its message is in the actor's mailbox.\<close>

definition fire :: "nat \<Rightarrow> runtime \<Rightarrow> runtime" where
  "fire h rt = abort h rt"

definition schedule_gossip_timeout :: "('u, 's, 'f) node_state \<Rightarrow> runtime \<Rightarrow> nat \<times> runtime" where
  "schedule_gossip_timeout c rt = schedule Gossip_Timer (gossip_timeout (clr_config c)) rt"

subsection \<open>Names of heartbeat receivers\<close>

fun show_nat :: "nat \<Rightarrow> string" where
  "show_nat n =
     (if n < 10 then [char_of (48 + n)] else show_nat (n div 10) @ [char_of (48 + n mod 10)])"

declare show_nat.simps [simp del]

definition from_clr :: "string \<Rightarrow> u64 \<Rightarrow> string" where
  "from_clr clr i = clr @ ''-'' @ show_nat (unat i)"

definition clr_name :: "('u, 's, 'f) node_state \<Rightarrow> string" where
  "clr_name c = actor_name (dest_name (clr_dest c))"

subsection \<open>The common part\<close>

definition new_id :: "('u, 's) cluster_env \<Rightarrow> u64 \<Rightarrow> ('u, 's, 'f) node_state \<Rightarrow> ('u, 's, 'f) node_state" where
  "new_id env rid c =
     c\<lparr>ns_member := Member (m_socket (ns_member c)) rid (m_vnodes (ns_member c)),
       hbr_dest := destination_new (variant_hbr_msg env) (variant_hbr_msg env) (from_clr (clr_name c) rid)\<rparr>"

definition heartbeat :: "('u, 's, 'f) node_state \<Rightarrow> member \<Rightarrow> ('u, 's) cluster_effect" where
  "heartbeat c m =
     Heartbeat_To (m_socket m) (hbr_dest c) (hb_interval (clr_config c)) (hb_interval_changes c)"

definition notify ::
    "('u, 's) cluster_env \<Rightarrow> in_cluster \<Rightarrow> ('u, 's, 'f) node_state \<Rightarrow> cluster_event list \<Rightarrow>
     ('u, 's, 'f) node_state \<times> ('u, 's) cluster_effect list" where
  "notify env ic c events =
     (if events = [] then (c, [])
      else
        (let msg = \<lparr>cu_events = events, cu_nodes = ic_members ic, cu_ring = ic_ring ic\<rparr> in
         (c\<lparr>subscribers := filter (env_alive env) (subscribers c)\<rparr>,
          map (\<lambda>s. Notify s msg) (subscribers c))))"

subsection \<open>In the cluster\<close>

definition alone :: "('u, 's) cluster_env \<Rightarrow> ('u, 's, 'f) node_state \<Rightarrow> runtime \<Rightarrow> in_cluster \<times> runtime" where
  "alone env c rt =
     (case spawn_done rt of (h, rt') \<Rightarrow>
       (\<lparr>ic_charges = (\<lambda>_. None), ic_managers = [],
         ic_gossip = \<lparr>states = om_of_list [(ns_member c, Up)]\<rparr>,
         ic_members = {ns_member c},
         ic_ring = ring_insert (env_hash env) (env_wyrng env) (ns_member c)
           (ring_new (replication_factor (clr_config c))),
         gossip_handle = h\<rparr>, rt'))"

fun take_charges ::
    "('u, 's, 'f) node_state \<Rightarrow> member list \<Rightarrow> (member \<Rightarrow> string option) \<Rightarrow> (member \<Rightarrow> string option) \<Rightarrow>
     ('u, 's) cluster_effect list \<Rightarrow>
     (member \<Rightarrow> string option) \<times> (member \<Rightarrow> string option) \<times> ('u, 's) cluster_effect list" where
  "take_charges c [] old new out = (old, new, out)"
| "take_charges c (m # ms) old new out =
     (case old m of
        Some hbr \<Rightarrow> take_charges c ms (old(m := None)) (new(m \<mapsto> hbr)) out
      | None \<Rightarrow>
          (let hbr = from_clr (clr_name c) (m_id m) in
           take_charges c ms old (new(m \<mapsto> hbr)) (out @ [Spawn_HBR hbr m (ns_member c)])))"

definition update_charges_managers ::
    "('u, 's) cluster_env \<Rightarrow> ('u, 's, 'f) node_state \<Rightarrow> in_cluster \<Rightarrow>
     (in_cluster \<times> ('u, 's) cluster_effect list) option" where
  "update_charges_managers env c ic =
     (case charges (env_hash env) (env_wyrng env) (ic_ring ic) (ns_member c) of
        None \<Rightarrow> None
      | Some cs \<Rightarrow>
          (case take_charges c cs (ic_charges ic) (\<lambda>_. None) [] of (old, new, out) \<Rightarrow>
             (case node_managers (env_hash env) (ic_ring ic) (ns_member c) of
                None \<Rightarrow> None
              | Some ms \<Rightarrow>
                  Some (ic\<lparr>ic_charges := new, ic_managers := ms\<rparr>, out @ [Stop_HBRs (ran old)]))))"

definition gossip_round ::
    "('u, 's) cluster_env \<Rightarrow> ('u, 's, 'f) node_state \<Rightarrow> in_cluster \<Rightarrow> member set \<Rightarrow> ('u, 's) cluster_effect" where
  "gossip_round env c ic guaranteed =
     (let g = guaranteed \<union> set (ic_managers ic) \<union> dom (ic_charges ic) \<union> {ns_member c};
          picks = env_choose env (ic_members ic - g) (gossip_disperse (clr_config c))
      in To_Members (g \<union> picks - {ns_member c}) (State_Msg (ic_gossip ic)))"

definition gossip_reqs :: "('u, 's) cluster_env \<Rightarrow> ('u, 's, 'f) node_state \<Rightarrow> in_cluster \<Rightarrow> ('u, 's) cluster_effect" where
  "gossip_reqs env c ic =
     To_Members (env_choose env (ic_members ic - {ns_member c}) (gossip_disperse (clr_config c)))
       (Req_Gossip (ns_member c))"

text \<open>The loop over the events of a merge: ring, members and, where the node itself was removed, its
  new identity.\<close>

fun apply_events ::
    "('u, 's) cluster_env \<Rightarrow> u64 \<Rightarrow> cluster_event list \<Rightarrow>
     ('u, 's, 'f) node_state \<times> in_cluster \<times> cluster_event option \<Rightarrow>
     (('u, 's, 'f) node_state \<times> in_cluster \<times> cluster_event option) option" where
  "apply_events env rid [] st = Some st"
| "apply_events env rid (e # es) (c, ic, new_self) =
     (case e of
        Added m \<Rightarrow>
          apply_events env rid es
            (c, ic\<lparr>ic_ring := ring_insert (env_hash env) (env_wyrng env) m (ic_ring ic),
               ic_members := insert m (ic_members ic)\<rparr>, new_self)
      | Removed m \<Rightarrow>
          (case ring_remove (env_hash env) (env_wyrng env) m (ic_ring ic) of
             (Inl _, _) \<Rightarrow> None
           | (Inr _, ring') \<Rightarrow>
               (if m \<notin> ic_members ic then None
                else
                  (let ic1 = ic\<lparr>ic_ring := ring', ic_members := ic_members ic - {m}\<rparr> in
                   if member_eq m (ns_member c) then
                     (let c' = new_id env rid c;
                          me = ns_member c' in
                      apply_events env rid es
                        (c', ic1\<lparr>ic_ring := ring_insert (env_hash env) (env_wyrng env) me (ic_ring ic1),
                           ic_members := insert me (ic_members ic1),
                           ic_gossip := (ic_gossip ic1)\<lparr>states := om_insert me Up (states (ic_gossip ic1))\<rparr>\<rparr>,
                         Some (Joined me)))
                   else apply_events env rid es (c, ic1, new_self))))
      | _ \<Rightarrow> apply_events env rid es (c, ic, new_self))"

type_synonym ('u, 's, 'f) handler_result =
  "(('u, 's, 'f) node_state \<times> in_cluster \<times> runtime \<times> ('u, 's) cluster_effect list) option"

definition ic_state ::
    "('u, 's) cluster_env \<Rightarrow> u64 \<Rightarrow> gossip \<Rightarrow> ('u, 's, 'f) node_state \<Rightarrow> in_cluster \<Rightarrow> runtime \<Rightarrow>
     ('u, 's, 'f) handler_result" where
  "ic_state env rid gossip c ic rt =
     (let rt1 = abort (gossip_handle ic) rt;
          merged = gossip_merge (ic_gossip ic) gossip;
          events = snd merged in
      case apply_events env rid events (c, ic\<lparr>ic_gossip := fst merged\<rparr>, None) of
        None \<Rightarrow> None
      | Some (c1, ic1, new_self) \<Rightarrow>
          (let events' = events @ (case new_self of Some e \<Rightarrow> [e] | None \<Rightarrow> []);
               rounds = (if events \<noteq> [] then [gossip_round env c1 ic1 {}] else []) in
           case update_charges_managers env c1 ic1 of
             None \<Rightarrow> None
           | Some (ic2, out) \<Rightarrow>
               (case notify env ic2 c1 events' of (c2, notes) \<Rightarrow>
                  (case schedule_gossip_timeout c2 rt1 of (h, rt2) \<Rightarrow>
                     Some (c2, ic2\<lparr>gossip_handle := h\<rparr>, rt2, rounds @ out @ notes)))))"

definition ic_ping ::
    "('u, 's) cluster_env \<Rightarrow> member \<Rightarrow> ('u, 's, 'f) node_state \<Rightarrow> in_cluster \<Rightarrow> runtime \<Rightarrow>
     ('u, 's, 'f) handler_result" where
  "ic_ping env m c ic rt =
     (if om_get (states (ic_gossip ic)) m = None then
        (let ic1 = ic\<lparr>ic_gossip := (ic_gossip ic)\<lparr>states := om_insert m Up (states (ic_gossip ic))\<rparr>,
               ic_ring := ring_insert (env_hash env) (env_wyrng env) m (ic_ring ic),
               ic_members := insert m (ic_members ic)\<rparr> in
         case update_charges_managers env c ic1 of
           None \<Rightarrow> None
         | Some (ic2, out) \<Rightarrow>
             (case notify env ic2 c [Added m] of (c2, notes) \<Rightarrow>
                Some (c2, ic2, rt, out @ notes @ [gossip_round env c2 ic2 {m}])))
      else Some (c, ic, rt, [gossip_round env c ic {m}]))"

text \<open>\<open>InCluster::process\<close>.\<close>

definition ic_process ::
    "('u, 's) cluster_env \<Rightarrow> u64 \<Rightarrow> 'u intra_msg \<Rightarrow> ('u, 's, 'f) node_state \<Rightarrow> in_cluster \<Rightarrow> runtime \<Rightarrow>
     ('u, 's, 'f) handler_result" where
  "ic_process env rid msg c ic rt =
     (case msg of
        Foo _ \<Rightarrow> Some (c, ic, rt, [])
      | Req_Gossip m \<Rightarrow> Some (c, ic, rt, [To_Socket (m_socket m) (State_Msg (ic_gossip ic))])
      | Req_Heartbeat m i \<Rightarrow> Some (c, ic, rt, if i = m_id (ns_member c) then [heartbeat c m] else [])
      | State_Msg g \<Rightarrow> ic_state env rid g c ic rt
      | Ping m \<Rightarrow> ic_ping env m c ic rt)"

definition ic_down ::
    "('u, 's) cluster_env \<Rightarrow> member \<Rightarrow> ('u, 's, 'f) node_state \<Rightarrow> in_cluster \<Rightarrow> runtime \<Rightarrow>
     ('u, 's, 'f) handler_result" where
  "ic_down env m c ic rt =
     (case om_get (states (ic_gossip ic)) m of
        None \<Rightarrow> None
      | Some Down \<Rightarrow> Some (c, ic, rt, [])
      | Some Up \<Rightarrow>
          (case ring_remove (env_hash env) (env_wyrng env) m (ic_ring ic) of
             (Inl _, _) \<Rightarrow> None
           | (Inr _, ring') \<Rightarrow>
               (if m \<notin> ic_members ic then None
                else
                  (let ic1 = ic\<lparr>ic_gossip := (ic_gossip ic)\<lparr>states := om_insert m Down (states (ic_gossip ic))\<rparr>,
                         ic_ring := ring', ic_members := ic_members ic - {m}\<rparr> in
                   case update_charges_managers env c ic1 of
                     None \<Rightarrow> None
                   | Some (ic2, out) \<Rightarrow>
                       (case notify env ic2 c [Removed m] of (c2, notes) \<Rightarrow>
                          Some (c2, ic2, rt, out @ [gossip_round env c ic2 {m}] @ notes))))))"

subsection \<open>Pinging\<close>

text \<open>\<open>Pinging::ping\<close>: the counter is a \<open>usize\<close> and wraps.\<close>

definition png_ping ::
    "('u, 's, 'f) node_state \<Rightarrow> pinging \<Rightarrow> runtime \<Rightarrow> pinging \<times> runtime \<times> ('u, 's) cluster_effect list" where
  "png_ping c png rt =
     (case schedule Ping_Timer (ping_timeout (clr_config c)) rt of (h, rt') \<Rightarrow>
        (\<lparr>png_count = png_count png - 1, png_timeout = h\<rparr>, rt',
         [To_Sockets (seed_nodes (clr_config c)) (Ping (ns_member c))]))"

text \<open>The end of both ways into a cluster: a new \<open>InCluster\<close> on the given gossip state.\<close>

definition png_join ::
    "('u, 's) cluster_env \<Rightarrow> gossip \<Rightarrow> member list \<Rightarrow> ('u, 's, 'f) node_state \<Rightarrow> runtime \<Rightarrow>
     (('u, 's, 'f) node_state \<times> clr_state option \<times> runtime \<times> ('u, 's) cluster_effect list) option" where
  "png_join env gossip ms c rt =
     (case schedule_gossip_timeout c rt of (h, rt') \<Rightarrow>
        (let ic = \<lparr>ic_charges = (\<lambda>_. None), ic_managers = [], ic_gossip = gossip, ic_members = set ms,
               ic_ring = fold (ring_insert (env_hash env) (env_wyrng env)) ms
                 (ring_new (replication_factor (clr_config c))),
               gossip_handle = h\<rparr> in
         case update_charges_managers env c ic of
           None \<Rightarrow> None
         | Some (ic1, out) \<Rightarrow>
             (let gr = gossip_round env c ic1 {} in
              case notify env ic1 c [Joined (ns_member c)] of (c1, notes) \<Rightarrow>
                Some (c1, Some (In_Cluster ic1), rt', out @ [gr] @ notes))))"

definition png_process ::
    "('u, 's) cluster_env \<Rightarrow> u64 \<Rightarrow> 'u intra_msg \<Rightarrow> ('u, 's, 'f) node_state \<Rightarrow> runtime \<Rightarrow>
     (('u, 's, 'f) node_state \<times> clr_state option \<times> runtime \<times> ('u, 's) cluster_effect list) option" where
  "png_process env rid msg c rt =
     (case msg of
        Req_Heartbeat m i \<Rightarrow>
          Some (c, None, rt, (if i = m_id (ns_member c) then [heartbeat c m] else []) @
            [To_Socket (m_socket m) (Req_Gossip (ns_member c))])
      | State_Msg gossip \<Rightarrow>
          (let me = om_get (states gossip) (ns_member c);
               downed = opt_filter (\<lambda>s. Down \<le> s) me \<noteq> None;
               c1 = (if downed then new_id env rid c else c);
               gossip' = (if me = None \<or> downed
                 then gossip\<lparr>states := om_insert (ns_member c1) Up (states gossip)\<rparr> else gossip);
               ms = map fst (filter (\<lambda>e. snd e < Down) (entries (states gossip'))) in
           png_join env gossip' ms c1 rt)
      | Ping m \<Rightarrow>
          (if m_socket m \<notin> seed_nodes (clr_config c) then Some (c, None, rt, [])
           else
             (let gossip = \<lparr>states = om_of_list [(m, Up), (ns_member c, Up)]\<rparr> in
              png_join env gossip (om_keys (states gossip)) c rt))
      | _ \<Rightarrow> Some (c, None, rt, []))"

subsection \<open>The actor\<close>

definition state_process ::
    "('u, 's) cluster_env \<Rightarrow> u64 \<Rightarrow> 'u intra_msg \<Rightarrow> ('u, 's, 'f) cluster \<Rightarrow> runtime \<Rightarrow>
     (('u, 's, 'f) cluster \<times> runtime \<times> ('u, 's) cluster_effect list) option" where
  "state_process env rid msg cl rt =
     (case clr_state cl of
        In_Cluster ic \<Rightarrow>
          (case ic_process env rid msg (common cl) ic rt of
             None \<Rightarrow> None
           | Some (c, ic', rt', out) \<Rightarrow> Some (cl\<lparr>common := c, clr_state := In_Cluster ic'\<rparr>, rt', out))
      | Pinging png \<Rightarrow>
          (case png_process env rid msg (common cl) rt of
             None \<Rightarrow> None
           | Some (c, new_state, rt', out) \<Rightarrow>
               Some (cl\<lparr>common := c, clr_state := unwrap_or new_state (Pinging png)\<rparr>, rt', out))
      | Left \<Rightarrow> Some (cl, rt, []))"

definition create_cluster ::
    "('u, 's) cluster_env \<Rightarrow> ('u, 's, 'f) cluster \<Rightarrow> runtime \<Rightarrow>
     ('u, 's, 'f) cluster \<times> runtime \<times> ('u, 's) cluster_effect list" where
  "create_cluster env cl rt =
     (case alone env (common cl) rt of (ic, rt') \<Rightarrow>
        (case notify env ic (common cl) [Alone (ns_member (common cl))] of (c, notes) \<Rightarrow>
           (cl\<lparr>common := c, clr_state := In_Cluster ic\<rparr>, rt', notes)))"

definition cluster_new ::
    "('u, 's) cluster_env \<Rightarrow> socket \<Rightarrow> string \<Rightarrow> 's list \<Rightarrow> 'f failure_config_map \<Rightarrow> cluster_config \<Rightarrow>
     'f hbr_config \<Rightarrow> u64 \<Rightarrow> ('u, 's, 'f) cluster" where
  "cluster_new env sock name subrs fm clr_conf hbr_cfg rid =
     (let clr_conf = clr_conf\<lparr>seed_nodes := seed_nodes clr_conf - {sock}\<rparr> in
      \<lparr>common = \<lparr>ns_member = Member sock rid (vnodes clr_conf),
         clr_dest = destination_new (variant_cluster_msg env) (variant_intra env) name,
         hbr_dest = destination_new (variant_hbr_msg env) (variant_hbr_msg env) (from_clr name rid),
         subscribers = subrs, fail_map = fm, hb_interval_changes = 0, clr_config = clr_conf,
         ns_hbr_config = hbr_cfg\<rparr>,
       clr_state = Left\<rparr>)"

definition cluster_pre_start ::
    "('u, 's) cluster_env \<Rightarrow> ('u, 's, 'f) cluster \<Rightarrow> runtime \<Rightarrow>
     ('u, 's, 'f) cluster \<times> runtime \<times> ('u, 's) cluster_effect list" where
  "cluster_pre_start env cl rt =
     (case (if seed_nodes (clr_config (common cl)) = {} then create_cluster env cl rt
            else
              (case spawn_done rt of (h, rt1) \<Rightarrow>
                 (case png_ping (common cl)
                     \<lparr>png_count = of_nat (num_pings (clr_config (common cl))), png_timeout = h\<rparr> rt1 of
                   (png, rt2, out) \<Rightarrow> (cl\<lparr>clr_state := Pinging png\<rparr>, rt2, out)))) of
        (cl', rt', out) \<Rightarrow>
          (cl', snd (schedule Heartbeat_Timer (hb_interval (clr_config (common cl'))) rt'), out))"

definition cluster_recv ::
    "('u, 's) cluster_env \<Rightarrow> u64 \<Rightarrow> ('u, 's, 'f) cluster_msg \<Rightarrow> ('u, 's, 'f) cluster \<Rightarrow> runtime \<Rightarrow>
     (('u, 's, 'f) cluster \<times> runtime \<times> ('u, 's) cluster_effect list) option" where
  "cluster_recv env rid msg cl rt =
     (let c = common cl in
      case msg of
        Intra_Msg m \<Rightarrow> state_process env rid m cl rt
      | Subscribe subr \<Rightarrow>
          (let notes = (case clr_state cl of
                 In_Cluster ic \<Rightarrow>
                   [Notify subr \<lparr>cu_events = [if card (ic_members ic) = 1 then Alone (ns_member c) else Joined (ns_member c)],
                      cu_nodes = ic_members ic, cu_ring = ic_ring ic\<rparr>]
               | _ \<Rightarrow> []) in
           Some (cl\<lparr>common := c\<lparr>subscribers := subscribers c @ [subr]\<rparr>\<rparr>, rt, notes))
      | Failure_Map fm \<Rightarrow> Some (cl\<lparr>common := c\<lparr>fail_map := fm\<rparr>\<rparr>, rt, [])
      | Ping_Timeout \<Rightarrow>
          (case clr_state cl of
             Pinging png \<Rightarrow>
               (if png_count png \<noteq> 0 then
                  (case png_ping c png rt of (png', rt', out) \<Rightarrow>
                     Some (cl\<lparr>clr_state := Pinging png'\<rparr>, rt', out))
                else Some (create_cluster env cl rt))
           | _ \<Rightarrow> Some (cl, rt, []))
      | Gossip_Timeout \<Rightarrow>
          (case clr_state cl of
             In_Cluster ic \<Rightarrow>
               Some (cl, snd (schedule_gossip_timeout c rt), [gossip_round env c ic {}, gossip_reqs env c ic])
           | _ \<Rightarrow> Some (cl, rt, []))
      | Downed m \<Rightarrow>
          (case clr_state cl of
             In_Cluster ic \<Rightarrow>
               (case ic_down env m c ic rt of
                  None \<Rightarrow> None
                | Some (c', ic', rt', out) \<Rightarrow> Some (cl\<lparr>common := c', clr_state := In_Cluster ic'\<rparr>, rt', out))
           | _ \<Rightarrow> Some (cl, rt, []))
      | Heartbeat_Tick \<Rightarrow>
          Some (cl, snd (schedule Heartbeat_Timer (hb_interval (clr_config c)) rt),
            case clr_state cl of In_Cluster ic \<Rightarrow> map (heartbeat c) (ic_managers ic) | _ \<Rightarrow> []))"

definition cluster_post_stop :: "('u, 's, 'f) cluster \<Rightarrow> ('u, 's) cluster_effect list" where
  "cluster_post_stop cl =
     (case clr_state cl of In_Cluster ic \<Rightarrow> [Stop_HBRs (ran (ic_charges ic))] | _ \<Rightarrow> [])"

end
