(* ===== verification/Cluster_Correct.thy ===== *)
theory Cluster_Correct
  imports Cluster
begin

text \<open>
  Correctness of the cluster actor (cluster/cluster.rs): its invariant, kept by every handler, from
  which no handler panics; what the subscribers are told; who is monitored.  The ring is used through
  the interface \<open>monitoring_ring\<close> only.
\<close>

subsection \<open>Charges and managers follow the ring\<close>

definition hbr_name :: "('u, 's, 'f) node_state \<Rightarrow> member \<Rightarrow> string" where
  "hbr_name c m = from_clr (clr_name c) (m_id m)"

lemma take_charges_eq:
  "distinct cs \<Longrightarrow> take_charges c cs old new out =
     (\<lambda>m. if m \<in> set cs then None else old m,
      \<lambda>m. if m \<in> set cs then Some (unwrap_or (old m) (hbr_name c m)) else new m,
      out @ map (\<lambda>m. Spawn_HBR (hbr_name c m) m (ns_member c)) (filter (\<lambda>m. old m = None) cs))"
proof (induction cs arbitrary: old new out)
  case Nil
  then show ?case by simp
next
  case (Cons x xs)
  show ?case
  proof (cases "old x")
    case None
    with Cons show ?thesis by (auto simp: fun_eq_iff hbr_name_def Let_def)
  next
    case (Some h)
    have "filter (\<lambda>m. (old(x := None)) m = None) xs = filter (\<lambda>m. old m = None) xs"
      by (rule filter_cong) (use Cons.prems in auto)
    moreover have "take_charges c (x # xs) old new out = take_charges c xs (old(x := None)) (new(x \<mapsto> h)) out"
      by (simp add: Some)
    moreover have "filter (\<lambda>m. old m = None) (x # xs) = filter (\<lambda>m. old m = None) xs" by (simp add: Some)
    moreover have "(\<lambda>m. if m \<in> set xs then None else (old(x := None)) m) =
        (\<lambda>m. if m \<in> set (x # xs) then None else old m)" by auto
    moreover have "(\<lambda>m. if m \<in> set xs then Some (unwrap_or ((old(x := None)) m) (hbr_name c m)) else (new(x \<mapsto> h)) m) =
        (\<lambda>m. if m \<in> set (x # xs) then Some (unwrap_or (old m) (hbr_name c m)) else new m)"
      using Cons.prems Some by auto
    moreover have "distinct xs" using Cons.prems by simp
    ultimately show ?thesis
      using Cons.IH[of "old(x := None)" "new(x \<mapsto> h)" out] by (simp only:)
  qed
qed

definition charges_of :: "('u, 's) cluster_env \<Rightarrow> ('u, 's, 'f) node_state \<Rightarrow> in_cluster \<Rightarrow> member list" where
  "charges_of env c ic = the (charges (env_hash env) (env_wyrng env) (ic_ring ic) (ns_member c))"

definition managers_of :: "('u, 's) cluster_env \<Rightarrow> ('u, 's, 'f) node_state \<Rightarrow> in_cluster \<Rightarrow> member list" where
  "managers_of env c ic = the (node_managers (env_hash env) (ic_ring ic) (ns_member c))"

text \<open>The ring of the members, and the node among them.\<close>

definition ring_ok :: "('u, 's) cluster_env \<Rightarrow> member set \<Rightarrow> ('u, 's, 'f) node_state \<Rightarrow> in_cluster \<Rightarrow> bool" where
  "ring_ok env U c ic \<longleftrightarrow>
     no_collisions (env_hash env) (env_wyrng env) U \<and> ic_members ic \<subseteq> U \<and> ns_member c \<in> ic_members ic \<and>
     ring_of (env_hash env) (env_wyrng env) (ic_members ic) (ic_ring ic)"

lemma ring_okD:
  assumes "ring_ok env U c ic"
  shows "no_collisions (env_hash env) (env_wyrng env) (ic_members ic)"
    "charges (env_hash env) (env_wyrng env) (ic_ring ic) (ns_member c) = Some (charges_of env c ic)"
    "node_managers (env_hash env) (ic_ring ic) (ns_member c) = Some (managers_of env c ic)"
    "distinct (charges_of env c ic)"
    "set (charges_of env c ic) \<subseteq> ic_members ic - {ns_member c}"
proof -
  from assms have r: "ring_of (env_hash env) (env_wyrng env) (ic_members ic) (ic_ring ic)"
    and me: "ns_member c \<in> ic_members ic" by (simp_all add: ring_ok_def)
  show nc: "no_collisions (env_hash env) (env_wyrng env) (ic_members ic)"
    using assms node_ring.safe_subset by (auto simp: ring_ok_def)
  show "charges (env_hash env) (env_wyrng env) (ic_ring ic) (ns_member c) = Some (charges_of env c ic)"
    "node_managers (env_hash env) (ic_ring ic) (ns_member c) = Some (managers_of env c ic)"
    using node_ring.charges_some[OF r me] node_ring.managers_some[OF r me]
    by (auto simp: charges_of_def managers_of_def)
  show "distinct (charges_of env c ic)"
    unfolding charges_of_def by (rule node_ring.charges_distinct[OF r nc me])
  show "set (charges_of env c ic) \<subseteq> ic_members ic - {ns_member c}"
    unfolding charges_of_def by (rule node_ring.charges_members[OF r me])
qed

lemma update_raw:
  assumes ok: "ring_ok env U c ic"
  shows "update_charges_managers env c ic = Some
     (ic\<lparr>ic_charges := (\<lambda>m. if m \<in> set (charges_of env c ic)
           then Some (unwrap_or (ic_charges ic m) (hbr_name c m)) else None),
         ic_managers := managers_of env c ic\<rparr>,
      map (\<lambda>m. Spawn_HBR (hbr_name c m) m (ns_member c))
        (filter (\<lambda>m. ic_charges ic m = None) (charges_of env c ic)) @
      [Stop_HBRs (ran (\<lambda>m. if m \<in> set (charges_of env c ic) then None else ic_charges ic m))])"
  using ring_okD(2-4)[OF ok] by (simp add: update_charges_managers_def take_charges_eq)

text \<open>
  Fact.  Monitoring follows the ring.  After \<open>update_charges_managers\<close> there is a heartbeat
  receiver for exactly the charges of the node; receivers of charges that remain are kept, one is
  spawned for every new charge, and exactly the receivers of lost charges are stopped.  It never
  panics while the node is in its own ring.
\<close>

theorem update_charges_managers_diff:
  assumes "ring_ok env U c ic"
  shows "\<exists>ic' out. update_charges_managers env c ic = Some (ic', out) \<and>
     dom (ic_charges ic') = set (charges_of env c ic) \<and> ic_managers ic' = managers_of env c ic \<and>
     (\<forall>m \<in> dom (ic_charges ic) \<inter> dom (ic_charges ic'). ic_charges ic' m = ic_charges ic m) \<and>
     {m. \<exists>n r. Spawn_HBR n m r \<in> set out} = dom (ic_charges ic') - dom (ic_charges ic) \<and>
     (\<forall>hs. Stop_HBRs hs \<in> set out \<longrightarrow>
        hs = {h. \<exists>m. ic_charges ic m = Some h \<and> m \<notin> dom (ic_charges ic')})"
  unfolding update_raw[OF assms] by (auto simp: ran_def dom_def image_iff split: if_splits)

subsection \<open>The events of a merge applied to ring and members\<close>

text \<open>The membership that a list of events leads to.\<close>

definition after_events :: "cluster_event list \<Rightarrow> member set \<Rightarrow> member set" where
  "after_events es M = (M - {m. Removed m \<in> set es}) \<union> {m. Added m \<in> set es}"

definition applicable :: "cluster_event list \<Rightarrow> member set \<Rightarrow> bool" where
  "applicable es M \<longleftrightarrow>
     distinct (map event_member es) \<and>
     (\<forall>e\<in>set es. (\<exists>m. e = Added m \<and> m \<notin> M) \<or> (\<exists>m. e = Removed m \<and> m \<in> M))"

lemma applicable_Added:
  assumes "applicable (Added m # es) M"
  shows "m \<notin> M" "applicable es (insert m M)" "after_events (Added m # es) M = after_events es (insert m M)"
    "Added m \<notin> set es" "Removed m \<notin> set es"
proof -
  have ne: "event_member e \<noteq> m" if "e \<in> set es" for e
    using assms that by (auto simp: applicable_def)
  then show n: "Added m \<notin> set es" "Removed m \<notin> set es" by force+
  show "m \<notin> M" using assms by (auto simp: applicable_def)
  have "(\<exists>m'. e = Added m' \<and> m' \<notin> insert m M) \<or> (\<exists>m'. e = Removed m' \<and> m' \<in> insert m M)" if "e \<in> set es" for e
    using assms ne[OF that] that by (cases e) (auto simp: applicable_def)
  then show "applicable es (insert m M)"
    using assms by (simp add: applicable_def)
  show "after_events (Added m # es) M = after_events es (insert m M)"
    using n by (auto simp: after_events_def)
qed

lemma applicable_Removed:
  assumes "applicable (Removed m # es) M"
  shows "m \<in> M" "applicable es (M - {m})" "after_events (Removed m # es) M = after_events es (M - {m})"
    "Added m \<notin> set es" "Removed m \<notin> set es"
proof -
  have ne: "event_member e \<noteq> m" if "e \<in> set es" for e
    using assms that by (auto simp: applicable_def)
  then show n: "Added m \<notin> set es" "Removed m \<notin> set es" by force+
  show "m \<in> M" using assms by (auto simp: applicable_def)
  have "(\<exists>m'. e = Added m' \<and> m' \<notin> M - {m}) \<or> (\<exists>m'. e = Removed m' \<and> m' \<in> M - {m})" if "e \<in> set es" for e
    using assms ne[OF that] that by (cases e) (auto simp: applicable_def)
  then show "applicable es (M - {m})"
    using assms by (simp add: applicable_def)
  show "after_events (Removed m # es) M = after_events es (M - {m})"
    using n by (auto simp: after_events_def)
qed

lemma applicable_fresh:
  "applicable es M \<Longrightarrow> x \<notin> M \<Longrightarrow> Added x \<notin> set es \<Longrightarrow> applicable es (insert x M) \<and> Removed x \<notin> set es"
  unfolding applicable_def by blast

lemma after_events_fresh:
  "Removed x \<notin> set es \<Longrightarrow> after_events es (insert x M) = insert x (after_events es M)"
  by (auto simp: after_events_def)

text \<open>The identity the node takes when it finds itself removed.\<close>

definition fresh_self :: "u64 \<Rightarrow> ('u, 's, 'f) node_state \<Rightarrow> member" where
  "fresh_self rid c = Member (m_socket (ns_member c)) rid (m_vnodes (ns_member c))"

lemma ns_member_new_id [simp]: "ns_member (new_id env rid c) = fresh_self rid c"
  by (simp add: new_id_def fresh_self_def)

lemma new_id_simps [simp]:
  "clr_config (new_id env rid c) = clr_config c" "clr_dest (new_id env rid c) = clr_dest c"
  "subscribers (new_id env rid c) = subscribers c" "clr_name (new_id env rid c) = clr_name c"
  by (simp_all add: new_id_def clr_name_def)

lemma apply_events_other:
  "ns_member c \<notin> event_member ` set es \<Longrightarrow> applicable es (ic_members ic) \<Longrightarrow>
   no_collisions (env_hash env) (env_wyrng env) U \<Longrightarrow> ic_members ic \<subseteq> U \<Longrightarrow>
   {m. Added m \<in> set es} \<subseteq> U \<Longrightarrow>
   ring_of (env_hash env) (env_wyrng env) (ic_members ic) (ic_ring ic) \<Longrightarrow>
   \<exists>ring'. apply_events env rid es (c, ic, ns) =
     Some (c, ic\<lparr>ic_ring := ring', ic_members := after_events es (ic_members ic)\<rparr>, ns) \<and>
     ring_of (env_hash env) (env_wyrng env) (after_events es (ic_members ic)) ring' \<and>
     rep_factor ring' = rep_factor (ic_ring ic)"
proof (induction es arbitrary: ic)
  case Nil
  then show ?case by (cases ic, intro exI[of _ "ic_ring ic"]) (simp add: after_events_def)
next
  case (Cons e es)
  let ?H = "env_hash env" and ?W = "env_wyrng env"
  from Cons.prems(2) consider m where "e = Added m" | m where "e = Removed m"
    by (auto simp: applicable_def)
  then show ?case
  proof cases
    case (1 m)
    note a = applicable_Added[OF Cons.prems(2)[unfolded 1]]
    let ?ic = "ic\<lparr>ic_ring := ring_insert ?H ?W m (ic_ring ic), ic_members := insert m (ic_members ic)\<rparr>"
    have sub: "insert m (ic_members ic) \<subseteq> U" using Cons.prems(4,5) 1 by auto
    have r: "ring_of ?H ?W (ic_members ?ic) (ic_ring ?ic)"
      using node_ring.insert_rings[OF Cons.prems(6) node_ring.safe_subset[OF Cons.prems(3) sub]] by simp
    have "\<exists>ring'. apply_events env rid es (c, ?ic, ns) =
       Some (c, ?ic\<lparr>ic_ring := ring', ic_members := after_events es (ic_members ?ic)\<rparr>, ns) \<and>
       ring_of ?H ?W (after_events es (ic_members ?ic)) ring' \<and> rep_factor ring' = rep_factor (ic_ring ?ic)"
      by (rule Cons.IH) (use Cons.prems 1 a sub r in auto)
    then show ?thesis using 1 a(3) by auto
  next
    case (2 m)
    note a = applicable_Removed[OF Cons.prems(2)[unfolded 2]]
    have safe: "no_collisions ?H ?W (ic_members ic)" using node_ring.safe_subset[OF Cons.prems(3,4)] .
    obtain ring1 where rm: "ring_remove ?H ?W m (ic_ring ic) = (Inr (), ring1)"
      and r1: "ring_of ?H ?W (ic_members ic - {m}) ring1"
      using node_ring.remove_ok[OF Cons.prems(6) safe a(1)] node_ring.remove_rings[OF Cons.prems(6) safe a(1)]
      by (metis prod.collapse)
    have rep: "rep_factor ring1 = rep_factor (ic_ring ic)"
      using rep_factor_ring_remove[of ?H ?W m "ic_ring ic"] by (simp add: rm)
    let ?ic = "ic\<lparr>ic_ring := ring1, ic_members := ic_members ic - {m}\<rparr>"
    have ne: "m \<noteq> ns_member c" using Cons.prems(1) 2 by auto
    have "\<exists>ring'. apply_events env rid es (c, ?ic, ns) =
       Some (c, ?ic\<lparr>ic_ring := ring', ic_members := after_events es (ic_members ?ic)\<rparr>, ns) \<and>
       ring_of ?H ?W (after_events es (ic_members ?ic)) ring' \<and> rep_factor ring' = rep_factor (ic_ring ?ic)"
      by (rule Cons.IH) (use Cons.prems 2 a r1 in auto)
    then show ?thesis using 2 a(1,3) rm ne rep by (auto simp: Let_def)
  qed
qed

lemma apply_events_append:
  "apply_events env rid (es @ fs) st =
     (case apply_events env rid es st of None \<Rightarrow> None | Some st' \<Rightarrow> apply_events env rid fs st')"
proof (induction env rid es st rule: apply_events.induct)
  case (1 env rid st)
  then show ?case by simp
next
  case (2 env rid e es c ic new_self)
  then show ?case
    by (cases e) (auto simp: Let_def split: prod.splits sum.splits option.splits)
qed

lemma merge_applicable:
  "applicable (snd (gossip_merge a b)) (up_members a)"
  "after_events (snd (gossip_merge a b)) (up_members a) = up_members (fst (gossip_merge a b))"
proof -
  let ?es = "snd (gossip_merge a b)"
  have ev: "Added m \<in> set ?es \<longleftrightarrow> om_get (states a) m = None \<and> om_get (states b) m = Some Up"
    "Removed m \<in> set ?es \<longleftrightarrow> om_get (states a) m = Some Up \<and> om_get (states b) m = Some Down" for m
    by (auto simp: set_merge_events)
  have "(\<exists>m. e = Added m \<and> m \<notin> up_members a) \<or> (\<exists>m. e = Removed m \<and> m \<in> up_members a)" if "e \<in> set ?es" for e
    using that by (auto simp: set_merge_events up_members_def)
  then show "applicable ?es (up_members a)"
    by (simp add: applicable_def distinct_merge_events)
  have "max x y = Some Up \<longleftrightarrow> x = Some Up \<and> y \<noteq> Some Down \<or> x = None \<and> y = Some Up" for x y
    by (cases x; cases y; cases "the x"; cases "the y") (auto simp: max_def less_eq_machine_state_def)
  then show "after_events ?es (up_members a) = up_members (fst (gossip_merge a b))"
    by (auto simp: after_events_def ev up_members_def om_get_gossip_merge)
qed

lemma applicable_append:
  "applicable (es @ fs) M \<Longrightarrow>
   applicable es M \<and> applicable fs (after_events es M) \<and>
   after_events (es @ fs) M = after_events fs (after_events es M)"
proof (induction es arbitrary: M)
  case Nil
  then show ?case by (simp add: applicable_def after_events_def)
next
  case (Cons e es)
  have tl: "applicable (e # es) M" using Cons.prems by (simp add: applicable_def)
  from Cons.prems consider m where "e = Added m" | m where "e = Removed m"
    by (auto simp: applicable_def)
  then show ?case
  proof cases
    case (1 m)
    have app: "applicable (Added m # (es @ fs)) M" using Cons.prems 1 by simp
    from Cons.IH[OF applicable_Added(2)[OF app]] show ?thesis
      using applicable_Added(3)[OF app] applicable_Added(3)[OF tl[unfolded 1]] tl 1 by simp
  next
    case (2 m)
    have app: "applicable (Removed m # (es @ fs)) M" using Cons.prems 2 by simp
    from Cons.IH[OF applicable_Removed(2)[OF app]] show ?thesis
      using applicable_Removed(3)[OF app] applicable_Removed(3)[OF tl[unfolded 2]] tl 2 by simp
  qed
qed

lemma apply_events_self:
  assumes app: "applicable es (ic_members ic)" and nc: "no_collisions (env_hash env) (env_wyrng env) U"
    and MU: "ic_members ic \<subseteq> U" and added: "{m. Added m \<in> set es} \<subseteq> U"
    and ring: "ring_of (env_hash env) (env_wyrng env) (ic_members ic) (ic_ring ic)"
    and rem: "Removed (ns_member c) \<in> set es"
    and fresh: "fresh_self rid c \<in> U" "fresh_self rid c \<notin> ic_members ic" "Added (fresh_self rid c) \<notin> set es"
  shows "\<exists>ring'. apply_events env rid es (c, ic, ns) =
     Some (new_id env rid c,
       ic\<lparr>ic_ring := ring', ic_members := insert (fresh_self rid c) (after_events es (ic_members ic)),
         ic_gossip := (ic_gossip ic)\<lparr>states := om_insert (fresh_self rid c) Up (states (ic_gossip ic))\<rparr>\<rparr>,
       Some (Joined (fresh_self rid c))) \<and>
     ring_of (env_hash env) (env_wyrng env) (insert (fresh_self rid c) (after_events es (ic_members ic))) ring' \<and>
     rep_factor ring' = rep_factor (ic_ring ic)"
proof -
  let ?H = "env_hash env" and ?W = "env_wyrng env" and ?M = "ic_members ic" and ?me = "ns_member c"
  let ?me' = "fresh_self rid c"
  obtain es1 es2 where es: "es = es1 @ Removed ?me # es2" using rem by (meson split_list)
  note ap = applicable_append[OF app[unfolded es]]
  let ?M1 = "after_events es1 ?M"
  have rm: "applicable (Removed ?me # es2) ?M1" using ap by simp
  note a = applicable_Removed[OF rm]
  have dist: "?me \<notin> event_member ` set es1" "?me \<notin> event_member ` set es2"
    using app unfolding es applicable_def by auto
  obtain ring1 where run1: "apply_events env rid es1 (c, ic, ns) = Some (c, ic\<lparr>ic_ring := ring1, ic_members := ?M1\<rparr>, ns)"
    and r1: "ring_of ?H ?W ?M1 ring1" "rep_factor ring1 = rep_factor (ic_ring ic)"
    using apply_events_other[OF dist(1) conjunct1[OF ap] nc MU _ ring, of rid ns] added unfolding es by auto
  have M1U: "?M1 \<subseteq> U" using MU added unfolding es by (auto simp: after_events_def)
  have safe1: "no_collisions ?H ?W ?M1" by (rule node_ring.safe_subset[OF nc M1U])
  obtain ring2 where run2: "ring_remove ?H ?W ?me ring1 = (Inr (), ring2)" and r2: "ring_of ?H ?W (?M1 - {?me}) ring2"
    using node_ring.remove_ok[OF r1(1) safe1 a(1)] node_ring.remove_rings[OF r1(1) safe1 a(1)]
    by (metis prod.collapse)
  have rep2: "rep_factor ring2 = rep_factor (ic_ring ic)"
    using rep_factor_ring_remove[of ?H ?W ?me ring1] by (simp add: run2 r1(2))
  have fr: "?me' \<notin> ?M1 - {?me}" "Added ?me' \<notin> set es2"
    using fresh(2,3) unfolding es by (auto simp: after_events_def)
  let ?ic = "ic\<lparr>ic_ring := ring_insert ?H ?W ?me' ring2, ic_members := insert ?me' (?M1 - {?me}),
      ic_gossip := (ic_gossip ic)\<lparr>states := om_insert ?me' Up (states (ic_gossip ic))\<rparr>\<rparr>"
  have f2: "applicable es2 (insert ?me' (?M1 - {?me}))" "Removed ?me' \<notin> set es2"
    using applicable_fresh[OF a(2) fr] by auto
  have sub: "insert ?me' (?M1 - {?me}) \<subseteq> U" using M1U fresh(1) by auto
  have r3: "ring_of ?H ?W (ic_members ?ic) (ic_ring ?ic)"
    using node_ring.insert_rings[OF r2 node_ring.safe_subset[OF nc sub]] by simp
  have me'_es2: "ns_member (new_id env rid c) \<notin> event_member ` set es2"
    using f2(1) f2(2) fr(2) by (auto simp: applicable_def)
  have "\<exists>ring'. apply_events env rid es2 (new_id env rid c, ?ic, Some (Joined ?me')) =
     Some (new_id env rid c, ?ic\<lparr>ic_ring := ring', ic_members := after_events es2 (ic_members ?ic)\<rparr>, Some (Joined ?me')) \<and>
     ring_of ?H ?W (after_events es2 (ic_members ?ic)) ring' \<and> rep_factor ring' = rep_factor (ic_ring ?ic)"
    by (rule apply_events_other[OF me'_es2 _ nc _ _ r3]) (use f2 sub added in \<open>auto simp: es\<close>)
  moreover have "after_events es2 (insert ?me' (?M1 - {?me})) = insert ?me' (after_events es ?M)"
    using after_events_fresh[OF f2(2)] a(3) ap by (simp add: es)
  moreover have "apply_events env rid es (c, ic, ns) =
      apply_events env rid es2 (new_id env rid c, ?ic, Some (Joined ?me'))"
    unfolding es apply_events_append run1 using a(1) run2 by (simp add: Let_def)
  ultimately obtain ring' where run: "apply_events env rid es (c, ic, ns) = Some (new_id env rid c,
      ?ic\<lparr>ic_ring := ring', ic_members := insert ?me' (after_events es ?M)\<rparr>, Some (Joined ?me'))"
    and post: "ring_of ?H ?W (insert ?me' (after_events es ?M)) ring'" "rep_factor ring' = rep_factor (ic_ring ic)"
    using rep2 by auto
  have "?ic\<lparr>ic_ring := ring', ic_members := insert ?me' (after_events es ?M)\<rparr> =
      ic\<lparr>ic_ring := ring', ic_members := insert ?me' (after_events es ?M),
        ic_gossip := (ic_gossip ic)\<lparr>states := om_insert ?me' Up (states (ic_gossip ic))\<rparr>\<rparr>"
    by (cases ic) simp
  with run post show ?thesis by metis
qed

subsection \<open>The invariant of a node in the cluster\<close>

definition known :: "in_cluster \<Rightarrow> member set" where
  "known ic = {m. om_get (states (ic_gossip ic)) m \<noteq> None}"

definition ic_inv :: "('u, 's) cluster_env \<Rightarrow> member set \<Rightarrow> ('u, 's, 'f) node_state \<Rightarrow> in_cluster \<Rightarrow> bool" where
  "ic_inv env U c ic \<longleftrightarrow>
     ring_ok env U c ic \<and> rep_factor (ic_ring ic) = replication_factor (clr_config c) \<and>
     ic_members ic = up_members (ic_gossip ic) \<and> known ic \<subseteq> U \<and>
     ic_managers ic = managers_of env c ic \<and>
     ic_charges ic = (\<lambda>m. if m \<in> set (charges_of env c ic) then Some (hbr_name c m) else None)"

text \<open>What a handler may assume of the charges before it calls \<open>update_charges_managers\<close>.\<close>

definition pre_update :: "('u, 's) cluster_env \<Rightarrow> member set \<Rightarrow> ('u, 's, 'f) node_state \<Rightarrow> in_cluster \<Rightarrow> bool" where
  "pre_update env U c ic \<longleftrightarrow>
     ring_ok env U c ic \<and> rep_factor (ic_ring ic) = replication_factor (clr_config c) \<and>
     ic_members ic = up_members (ic_gossip ic) \<and> known ic \<subseteq> U \<and>
     (\<forall>m h. ic_charges ic m = Some h \<longrightarrow> h = hbr_name c m)"

definition spawned :: "('u, 's) cluster_effect list \<Rightarrow> member set" where
  "spawned out = {m. \<exists>n r. Spawn_HBR n m r \<in> set out}"

lemma spawned_simps [simp]:
  "spawned [] = {}"
  "spawned (e # out) = (case e of Spawn_HBR n m r \<Rightarrow> {m} | _ \<Rightarrow> {}) \<union> spawned out"
  "spawned (out @ out') = spawned out \<union> spawned out'"
  by (auto simp: spawned_def split: cluster_effect.splits)

lemma spawned_Notify [simp]: "spawned (map (\<lambda>s. Notify s msg) ss) = {}"
  by (auto simp: spawned_def)

lemma spawned_heartbeats [simp]: "spawned (map (heartbeat c) ms) = {}"
  by (auto simp: spawned_def heartbeat_def)

text \<open>The parts of the node's state that no handler changes.\<close>

definition same_node :: "('u, 's, 'f) node_state \<Rightarrow> ('u, 's, 'f) node_state \<Rightarrow> bool" where
  "same_node c c' \<longleftrightarrow> clr_config c' = clr_config c \<and> clr_dest c' = clr_dest c"

lemma same_node_simps [simp]: "same_node c c" "same_node c (new_id env rid c)"
  "same_node c (c\<lparr>subscribers := ss\<rparr>)" "same_node c (c\<lparr>fail_map := fm\<rparr>)"
  by (simp_all add: same_node_def)

lemma notify_state:
  assumes "notify env ic c es = (c', out)"
  shows "ns_member c' = ns_member c" "same_node c c'" "clr_name c' = clr_name c" "spawned out = {}"
  using assms by (auto simp: notify_def Let_def clr_name_def split: if_splits)

lemma hbr_name_cong: "same_node c c' \<Longrightarrow> hbr_name c' m = hbr_name c m"
  by (simp add: hbr_name_def clr_name_def same_node_def)

lemma ic_inv_cong:
  assumes "ns_member c' = ns_member c" "same_node c c'"
  shows "ic_inv env U c' ic = ic_inv env U c ic"
proof -
  have "clr_config c' = clr_config c" using assms(2) by (simp add: same_node_def)
  then show ?thesis
    by (simp add: ic_inv_def ring_ok_def charges_of_def managers_of_def hbr_name_cong[OF assms(2)] assms(1) cong: if_cong)
qed

lemma ic_inv_handle [simp]: "ic_inv env U c (ic\<lparr>gossip_handle := h\<rparr>) = ic_inv env U c ic"
  by (simp add: ic_inv_def ring_ok_def charges_of_def managers_of_def known_def)

lemma known_handle [simp]: "known (ic\<lparr>gossip_handle := h\<rparr>) = known ic"
  by (simp add: known_def)

lemma up_members_known: "up_members (ic_gossip ic) \<subseteq> known ic"
  by (auto simp: up_members_def known_def)

lemma update_inv:
  assumes "pre_update env U c ic"
  obtains ic' out where "update_charges_managers env c ic = Some (ic', out)" "ic_inv env U c ic'"
    "ic_gossip ic' = ic_gossip ic" "ic_members ic' = ic_members ic" "ic_ring ic' = ic_ring ic"
    "spawned out \<subseteq> ic_members ic - {ns_member c}" "gossip_handle ic' = gossip_handle ic"
proof -
  let ?cs = "charges_of env c ic"
  let ?new = "\<lambda>m. if m \<in> set ?cs then Some (unwrap_or (ic_charges ic m) (hbr_name c m)) else None"
  let ?ic = "ic\<lparr>ic_charges := ?new, ic_managers := managers_of env c ic\<rparr>"
  from assms have ok: "ring_ok env U c ic" by (simp add: pre_update_def)
  have "unwrap_or (ic_charges ic m) (hbr_name c m) = hbr_name c m" for m
    using assms by (cases "ic_charges ic m") (auto simp: pre_update_def)
  then have new: "?new = (\<lambda>m. if m \<in> set ?cs then Some (hbr_name c m) else None)" by auto
  have same: "charges_of env c ?ic = ?cs" "managers_of env c ?ic = managers_of env c ic" "known ?ic = known ic"
      "ring_ok env U c ?ic = ring_ok env U c ic"
    by (simp_all add: ring_ok_def charges_of_def managers_of_def known_def)
  have "ic_inv env U c ?ic"
    unfolding ic_inv_def same using assms new by (simp add: pre_update_def)
  moreover have "spawned (map (\<lambda>m. Spawn_HBR (hbr_name c m) m (ns_member c))
        (filter (\<lambda>m. ic_charges ic m = None) ?cs) @
      [Stop_HBRs (ran (\<lambda>m. if m \<in> set ?cs then None else ic_charges ic m))]) \<subseteq> ic_members ic - {ns_member c}"
    using ring_okD(5)[OF ok] by (auto simp: spawned_def)
  ultimately show ?thesis
    using that[OF update_raw[OF ok]] by simp
qed

definition handler_ok ::
    "('u, 's) cluster_env \<Rightarrow> member set \<Rightarrow> ('u, 's, 'f) node_state \<Rightarrow> in_cluster \<Rightarrow> ('u, 's, 'f) handler_result \<Rightarrow> bool" where
  "handler_ok env U c ic res \<longleftrightarrow>
     (\<exists>c' ic' rt' out. res = Some (c', ic', rt', out) \<and> ic_inv env U c' ic' \<and> same_node c c' \<and>
        known ic \<subseteq> known ic' \<and> spawned out \<subseteq> known ic' - {ns_member c'} \<and>
        (ns_member c' = ns_member c \<or> ns_member c' \<notin> known ic))"

lemma ic_invD:
  assumes "ic_inv env U c ic"
  shows "no_collisions (env_hash env) (env_wyrng env) U" "ic_members ic \<subseteq> U" "ns_member c \<in> ic_members ic"
    "ring_of (env_hash env) (env_wyrng env) (ic_members ic) (ic_ring ic)"
    "rep_factor (ic_ring ic) = replication_factor (clr_config c)"
    "ic_members ic = up_members (ic_gossip ic)" "known ic \<subseteq> U"
    "\<And>m h. ic_charges ic m = Some h \<Longrightarrow> h = hbr_name c m"
  using assms by (auto simp: ic_inv_def ring_ok_def split: if_splits)

lemma ic_ping_ok:
  assumes inv: "ic_inv env U c ic" and m: "m \<in> U"
  shows "handler_ok env U c ic (ic_ping env m c ic rt)"
proof (cases "om_get (states (ic_gossip ic)) m")
  case (Some s)
  with inv show ?thesis by (auto simp: handler_ok_def ic_ping_def gossip_round_def Let_def)
next
  case None
  note d = ic_invD[OF inv]
  let ?ic1 = "ic\<lparr>ic_gossip := (ic_gossip ic)\<lparr>states := om_insert m Up (states (ic_gossip ic))\<rparr>,
      ic_ring := ring_insert (env_hash env) (env_wyrng env) m (ic_ring ic), ic_members := insert m (ic_members ic)\<rparr>"
  have safe: "no_collisions (env_hash env) (env_wyrng env) (insert m (ic_members ic))"
    by (rule node_ring.safe_subset[OF d(1)]) (use d(2) m in auto)
  have "ring_ok env U c ?ic1"
    using d m node_ring.insert_rings[OF d(4) safe] by (auto simp: ring_ok_def)
  then have "pre_update env U c ?ic1"
    using d m by (auto simp: pre_update_def up_members_def known_def)
  then obtain ic' out where up: "update_charges_managers env c ?ic1 = Some (ic', out)" "ic_inv env U c ic'"
      "ic_gossip ic' = ic_gossip ?ic1" "ic_members ic' = ic_members ?ic1"
      "spawned out \<subseteq> ic_members ?ic1 - {ns_member c}"
    by (rule update_inv)
  obtain c2 nts where n: "notify env ic' c [Added m] = (c2, nts)" by (cases "notify env ic' c [Added m]")
  note ns = notify_state[OF n]
  have "known ic \<subseteq> known ic'" using up(3) by (auto simp: known_def)
  moreover have "spawned out \<subseteq> known ic' - {ns_member c}"
    using up(3-5) d(6) by (auto simp: known_def up_members_def)
  ultimately show ?thesis
    using None up(1,2) n ns ic_inv_cong[OF ns(1,2)]
    by (simp add: handler_ok_def ic_ping_def Let_def gossip_round_def)
qed

lemma ic_down_ok:
  assumes inv: "ic_inv env U c ic" and m: "m \<in> known ic" "m \<noteq> ns_member c"
  shows "handler_ok env U c ic (ic_down env m c ic rt)"
proof (cases "om_get (states (ic_gossip ic)) m = Some Up")
  case False
  with m(1) have "om_get (states (ic_gossip ic)) m = Some Down"
    by (cases "the (om_get (states (ic_gossip ic)) m)") (auto simp: known_def)
  with inv show ?thesis by (auto simp: handler_ok_def ic_down_def)
next
  case True
  note d = ic_invD[OF inv]
  have mM: "m \<in> ic_members ic" using True d(6) by (simp add: up_members_def)
  have safe: "no_collisions (env_hash env) (env_wyrng env) (ic_members ic)"
    using node_ring.safe_subset[OF d(1,2)] .
  obtain ring1 where rm: "ring_remove (env_hash env) (env_wyrng env) m (ic_ring ic) = (Inr (), ring1)"
    and r1: "ring_of (env_hash env) (env_wyrng env) (ic_members ic - {m}) ring1"
    using node_ring.remove_ok[OF d(4) safe mM] node_ring.remove_rings[OF d(4) safe mM]
    by (metis prod.collapse)
  have rep: "rep_factor ring1 = rep_factor (ic_ring ic)"
    using rep_factor_ring_remove[of "env_hash env" "env_wyrng env" m "ic_ring ic"] by (simp add: rm)
  let ?ic1 = "ic\<lparr>ic_gossip := (ic_gossip ic)\<lparr>states := om_insert m Down (states (ic_gossip ic))\<rparr>,
      ic_ring := ring1, ic_members := ic_members ic - {m}\<rparr>"
  have "ring_ok env U c ?ic1" using d m(2) r1 by (auto simp: ring_ok_def)
  then have "pre_update env U c ?ic1"
    using d m(1) rep by (auto simp: pre_update_def up_members_def known_def)
  then obtain ic' out where up: "update_charges_managers env c ?ic1 = Some (ic', out)" "ic_inv env U c ic'"
      "ic_gossip ic' = ic_gossip ?ic1" "ic_members ic' = ic_members ?ic1"
      "spawned out \<subseteq> ic_members ?ic1 - {ns_member c}"
    by (rule update_inv)
  obtain c2 nts where n: "notify env ic' c [Removed m] = (c2, nts)" by (cases "notify env ic' c [Removed m]")
  note ns = notify_state[OF n]
  have "known ic \<subseteq> known ic'" using up(3) by (auto simp: known_def)
  moreover have "spawned out \<subseteq> known ic' - {ns_member c}"
    using up(3-5) d(6) by (auto simp: known_def up_members_def)
  ultimately show ?thesis
    using True up(1,2) n ns ic_inv_cong[OF ns(1,2)] rm mM
    by (simp add: handler_ok_def ic_down_def Let_def gossip_round_def)
qed

end
