(* ===== verification/Cluster_Invariant.thy ===== *)
theory Cluster_Invariant
  imports Cluster_Correct
begin

text \<open>
  The cluster actor as a whole: every message it can receive keeps its invariant and no handler
  panics, over any sequence of messages; a node that learns of its own removal comes back under a new
  identity; what the subscribers are told; the gossip timers.
\<close>

subsection \<open>Gossip received in the cluster\<close>

definition gossip_known :: "gossip \<Rightarrow> member set" where
  "gossip_known g = {m. om_get (states g) m \<noteq> None}"

lemma known_gossip: "known ic = gossip_known (ic_gossip ic)"
  by (simp add: known_def gossip_known_def)

lemma known_merge: "gossip_known (fst (gossip_merge a b)) = gossip_known a \<union> gossip_known b"
proof -
  have "max x y = None \<longleftrightarrow> x = None \<and> y = None" for x y :: "machine_state option"
    by (cases x; cases y) (auto simp: max_def)
  then show ?thesis by (auto simp: gossip_known_def om_get_gossip_merge simp del: not_None_eq)
qed

lemma gossip_known_insert [simp]:
  "gossip_known \<lparr>states = om_insert m s st\<rparr> = insert m (gossip_known \<lparr>states = st\<rparr>)"
  "gossip_known (g\<lparr>states := om_insert m s (states g)\<rparr>) = insert m (gossip_known g)"
  by (auto simp: gossip_known_def)

lemma up_members_insert [simp]:
  "up_members (g\<lparr>states := om_insert m Up (states g)\<rparr>) = insert m (up_members g)"
  by (auto simp: up_members_def)

definition fresh_ok :: "u64 \<Rightarrow> member set \<Rightarrow> ('u, 's, 'f) node_state \<Rightarrow> member set \<Rightarrow> bool" where
  "fresh_ok rid U c S \<longleftrightarrow> fresh_self rid c \<in> U \<and> fresh_self rid c \<notin> S"

text \<open>What a merge leaves: the node as it was, or under a new identity where it was removed.\<close>

definition merged_with ::
    "('u, 's) cluster_env \<Rightarrow> u64 \<Rightarrow> gossip \<Rightarrow> ('u, 's, 'f) node_state \<Rightarrow> in_cluster \<Rightarrow>
     ('u, 's, 'f) node_state \<Rightarrow> in_cluster \<Rightarrow> cluster_event option \<Rightarrow> bool" where
  "merged_with env rid g c ic c1 ic1 ns \<longleftrightarrow>
     (let g' = fst (gossip_merge (ic_gossip ic) g);
          es = snd (gossip_merge (ic_gossip ic) g) in
      if Removed (ns_member c) \<in> set es
      then c1 = new_id env rid c \<and> ns = Some (Joined (ns_member c1)) \<and>
        ic_gossip ic1 = g'\<lparr>states := om_insert (ns_member c1) Up (states g')\<rparr> \<and>
        ic_members ic1 = insert (ns_member c1) (after_events es (ic_members ic))
      else c1 = c \<and> ns = None \<and> ic_gossip ic1 = g' \<and> ic_members ic1 = after_events es (ic_members ic))"

lemma merged_with_self:
  "merged_with env rid g c ic c1 ic1 ns \<Longrightarrow> c1 = c \<and> ns = None \<or> c1 = new_id env rid c \<and> ns = Some (Joined (ns_member c1))"
  by (simp add: merged_with_def Let_def split: if_splits)

lemma apply_merge:
  fixes c :: "('u, 's, 'f) node_state"
  assumes inv: "ic_inv env U c ic" and g: "gossip_known g \<subseteq> U"
    and fresh: "fresh_ok rid U c (known ic \<union> gossip_known g)"
  obtains c1 ic1 ns where
    "apply_events env rid (snd (gossip_merge (ic_gossip ic) g))
       (c, ic\<lparr>ic_gossip := fst (gossip_merge (ic_gossip ic) g)\<rparr>, None) = Some (c1, ic1, ns)"
    "pre_update env U c1 ic1" "same_node c c1"
    "known ic1 = known ic \<union> gossip_known g \<union> {ns_member c1}"
    "merged_with env rid g c ic c1 ic1 ns"
proof -
  let ?es = "snd (gossip_merge (ic_gossip ic) g)" and ?g = "fst (gossip_merge (ic_gossip ic) g)"
  let ?ic = "ic\<lparr>ic_gossip := ?g\<rparr>"
  note d = ic_invD[OF inv]
  have app: "applicable ?es (ic_members ?ic)"
    and aft: "after_events ?es (ic_members ?ic) = up_members ?g"
    using merge_applicable[of "ic_gossip ic" g] d(6) by simp_all
  have MU: "ic_members ?ic \<subseteq> U" using d(2) by simp
  have added: "{m. Added m \<in> set ?es} \<subseteq> gossip_known g" by (auto simp: set_merge_events gossip_known_def)
  have ring: "ring_of (env_hash env) (env_wyrng env) (ic_members ?ic) (ic_ring ?ic)" using d(4) by simp
  have ch: "\<And>m h. ic_charges ic m = Some h \<Longrightarrow> h = hbr_name c m" using d(8) .
  have me: "ns_member c \<in> known ic" using d(3,6) up_members_known by auto
  have notadd: "Added (ns_member c) \<notin> set ?es"
    using me by (auto simp: set_merge_events known_def)
  show thesis
  proof (cases "Removed (ns_member c) \<in> set ?es")
    case False
    have "ns_member c \<notin> event_member ` set ?es"
      using False notadd app by (auto simp: applicable_def)
    then obtain ring' where run: "apply_events env rid ?es (c, ?ic, None) =
        Some (c, ?ic\<lparr>ic_ring := ring', ic_members := up_members ?g\<rparr>, None)"
      and r: "ring_of (env_hash env) (env_wyrng env) (up_members ?g) ring'"
      and rep: "rep_factor ring' = rep_factor (ic_ring ?ic)"
      using apply_events_other[OF _ app d(1) MU _ ring, of c rid None] added g aft by auto
    let ?ic1 = "?ic\<lparr>ic_ring := ring', ic_members := up_members ?g\<rparr>"
    have kn: "known ?ic1 = known ic \<union> gossip_known g" by (simp add: known_gossip known_merge)
    have "up_members ?g \<subseteq> known ?ic1" using up_members_known[of ?ic1] by simp
    moreover have "known ?ic1 \<subseteq> U" using kn d(7) g by auto
    moreover have "ns_member c \<in> up_members ?g"
      using d(3) False aft[symmetric] by (simp add: after_events_def)
    ultimately have pre: "pre_update env U c ?ic1"
      using d(1,5) r rep ch by (auto simp: pre_update_def ring_ok_def)
    have kn': "known ?ic1 = known ic \<union> gossip_known g \<union> {ns_member c}" using kn me by auto
    have "merged_with env rid g c ic c ?ic1 None"
      using False aft by (simp add: merged_with_def Let_def)
    then show thesis by (rule that[OF run pre same_node_simps(1) kn'])
  next
    case True
    let ?me' = "fresh_self rid c"
    from fresh have f: "?me' \<in> U" "?me' \<notin> known ic" "?me' \<notin> gossip_known g" by (auto simp: fresh_ok_def)
    have f2: "?me' \<notin> ic_members ?ic" "Added ?me' \<notin> set ?es"
      using f d(6) up_members_known added by auto
    obtain ring' where run: "apply_events env rid ?es (c, ?ic, None) =
        Some (new_id env rid c, ?ic\<lparr>ic_ring := ring', ic_members := insert ?me' (up_members ?g),
           ic_gossip := (ic_gossip ?ic)\<lparr>states := om_insert ?me' Up (states (ic_gossip ?ic))\<rparr>\<rparr>, Some (Joined ?me'))"
      and r: "ring_of (env_hash env) (env_wyrng env) (insert ?me' (up_members ?g)) ring'"
      and rep: "rep_factor ring' = rep_factor (ic_ring ?ic)"
      using apply_events_self[OF app d(1) MU _ ring True f(1) f2, of None] added g aft by auto
    let ?ic1 = "?ic\<lparr>ic_ring := ring', ic_members := insert ?me' (up_members ?g),
           ic_gossip := (ic_gossip ?ic)\<lparr>states := om_insert ?me' Up (states (ic_gossip ?ic))\<rparr>\<rparr>"
    have kn: "known ?ic1 = insert ?me' (known ic \<union> gossip_known g)"
      by (simp add: known_gossip known_merge)
    have "insert ?me' (up_members ?g) \<subseteq> known ?ic1" using up_members_known[of ?ic1] by simp
    moreover have "known ?ic1 \<subseteq> U" using kn d(7) g f(1) by auto
    moreover have "hbr_name (new_id env rid c) m = hbr_name c m" for m by (simp add: hbr_name_def)
    ultimately have pre: "pre_update env U (new_id env rid c) ?ic1"
      using d(1,5) r rep ch by (auto simp: pre_update_def ring_ok_def)
    have kn': "known ?ic1 = known ic \<union> gossip_known g \<union> {ns_member (new_id env rid c)}" using kn by auto
    have "merged_with env rid g c ic (new_id env rid c) ?ic1 (Some (Joined ?me'))"
      using True aft by (simp add: merged_with_def Let_def)
    then show thesis by (rule that[OF run pre same_node_simps(2) kn'])
  qed
qed

text \<open>The whole handler for received gossip: merge, charges and managers, subscribers, timer.\<close>

lemma ic_state_run:
  fixes c :: "('u, 's, 'f) node_state"
  assumes inv: "ic_inv env U c ic" and g: "gossip_known g \<subseteq> U"
    and fresh: "fresh_ok rid U c (known ic \<union> gossip_known g)"
  obtains c1 ic1 ns ic2 out c2 nts h rt2 rounds where
    "merged_with env rid g c ic c1 ic1 ns" "same_node c c1"
    "known ic1 = known ic \<union> gossip_known g \<union> {ns_member c1}"
    "update_charges_managers env c1 ic1 = Some (ic2, out)" "ic_inv env U c1 ic2"
    "ic_gossip ic2 = ic_gossip ic1" "ic_members ic2 = ic_members ic1"
    "spawned out \<subseteq> ic_members ic1 - {ns_member c1}"
    "notify env ic2 c1 (snd (gossip_merge (ic_gossip ic) g) @ (case ns of Some e \<Rightarrow> [e] | None \<Rightarrow> [])) = (c2, nts)"
    "schedule_gossip_timeout c2 (abort (gossip_handle ic) rt) = (h, rt2)" "spawned rounds = {}"
    "ic_state env rid g c ic rt = Some (c2, ic2\<lparr>gossip_handle := h\<rparr>, rt2, rounds @ out @ nts)"
    "\<forall>r u. Notify r u \<notin> set rounds"
proof -
  let ?es = "snd (gossip_merge (ic_gossip ic) g)"
  obtain c1 ic1 ns where ap: "apply_events env rid ?es
       (c, ic\<lparr>ic_gossip := fst (gossip_merge (ic_gossip ic) g)\<rparr>, None) = Some (c1, ic1, ns)"
    and pre: "pre_update env U c1 ic1" and m: "same_node c c1"
      "known ic1 = known ic \<union> gossip_known g \<union> {ns_member c1}" "merged_with env rid g c ic c1 ic1 ns"
    by (rule apply_merge[OF assms])
  obtain ic2 out where up: "update_charges_managers env c1 ic1 = Some (ic2, out)" "ic_inv env U c1 ic2"
      "ic_gossip ic2 = ic_gossip ic1" "ic_members ic2 = ic_members ic1"
      "spawned out \<subseteq> ic_members ic1 - {ns_member c1}"
    by (rule update_inv[OF pre])
  let ?es' = "?es @ (case ns of Some e \<Rightarrow> [e] | None \<Rightarrow> [])"
  let ?rounds = "if ?es \<noteq> [] then [gossip_round env c1 ic1 {}] else []"
  obtain c2 nts where n: "notify env ic2 c1 ?es' = (c2, nts)" by (cases "notify env ic2 c1 ?es'")
  obtain h rt2 where s: "schedule_gossip_timeout c2 (abort (gossip_handle ic) rt) = (h, rt2)"
    by (cases "schedule_gossip_timeout c2 (abort (gossip_handle ic) rt)")
  have "ic_state env rid g c ic rt = Some (c2, ic2\<lparr>gossip_handle := h\<rparr>, rt2, ?rounds @ out @ nts)"
    using ap up(1) n s by (simp add: ic_state_def Let_def)
  moreover have "spawned ?rounds = {}" "\<forall>r u. Notify r u \<notin> set ?rounds" by (simp_all add: gossip_round_def Let_def)
  ultimately show thesis using that[OF m(3,1,2) up n s] by blast
qed

lemma ic_state_ok:
  assumes inv: "ic_inv env U c ic" and g: "gossip_known g \<subseteq> U"
    and fresh: "fresh_ok rid U c (known ic \<union> gossip_known g)"
  shows "handler_ok env U c ic (ic_state env rid g c ic rt)"
proof (rule ic_state_run[OF assms, of rt])
  fix c1 ic1 ns ic2 out c2 nts h rt2 rounds
  assume mw: "merged_with env rid g c ic c1 ic1 ns" "same_node c c1"
    and kn: "known ic1 = known ic \<union> gossip_known g \<union> {ns_member c1}"
    and up: "ic_inv env U c1 ic2" "ic_gossip ic2 = ic_gossip ic1" "ic_members ic2 = ic_members ic1"
      "spawned out \<subseteq> ic_members ic1 - {ns_member c1}"
    and n: "notify env ic2 c1 (snd (gossip_merge (ic_gossip ic) g) @
      (case ns of Some e \<Rightarrow> [e] | None \<Rightarrow> [])) = (c2, nts)"
    and run: "spawned rounds = {}"
      "ic_state env rid g c ic rt = Some (c2, ic2\<lparr>gossip_handle := h\<rparr>, rt2, rounds @ out @ nts)"
  note nt = notify_state[OF n]
  have kn2: "known ic2 = known ic1" using up(2) by (simp add: known_def)
  have "spawned out \<subseteq> known ic2 - {ns_member c2}"
    using up(3,4) ic_invD(6)[OF up(1)] up_members_known[of ic2] nt(1) by auto
  moreover have "ns_member c2 = ns_member c \<or> ns_member c2 \<notin> known ic"
    using merged_with_self[OF mw(1)] nt(1) fresh by (auto simp: fresh_ok_def)
  moreover have "same_node c c2" using mw(2) nt(2) by (simp add: same_node_def)
  moreover have "ic_inv env U c2 ic2" using up(1) ic_inv_cong[OF nt(1,2)] by simp
  ultimately show ?thesis
    unfolding handler_ok_def run(2) using kn kn2 nt(4) run(1) by auto
qed

text \<open>What a node may be sent: members of the universe, and a new identifier that is really new.\<close>

definition state_admissible ::
    "u64 \<Rightarrow> member set \<Rightarrow> ('u, 's, 'f) node_state \<Rightarrow> member set \<Rightarrow> 'u intra_msg \<Rightarrow> bool" where
  "state_admissible rid U c S msg \<longleftrightarrow>
     (case msg of
        State_Msg g \<Rightarrow> gossip_known g \<subseteq> U \<and> fresh_ok rid U c (S \<union> gossip_known g)
      | Ping m \<Rightarrow> m \<in> U
      | _ \<Rightarrow> True)"

lemma ic_process_ok:
  assumes inv: "ic_inv env U c ic" and adm: "state_admissible rid U c (known ic) msg"
  shows "handler_ok env U c ic (ic_process env rid msg c ic rt)"
proof (cases msg)
  case (State_Msg g)
  with assms show ?thesis by (simp add: ic_process_def ic_state_ok state_admissible_def)
next
  case (Ping m)
  with assms show ?thesis by (simp add: ic_process_def ic_ping_ok state_admissible_def)
qed (use inv in \<open>auto simp: handler_ok_def ic_process_def heartbeat_def\<close>)

subsection \<open>Joining\<close>

lemma up_members_entries: "set (map fst (filter (\<lambda>e. snd e < Down) (entries (states g)))) = up_members g"
proof -
  have "set (map fst (filter (\<lambda>e. snd e < Down) (entries (states g)))) = {m. (m, Up) \<in> set (entries (states g))}"
    by force
  then show ?thesis by (simp add: up_members_def om_in_entries_iff)
qed

lemma png_join_ok:
  fixes c :: "('u, 's, 'f) node_state"
  assumes nc: "no_collisions (env_hash env) (env_wyrng env) U" and U: "gossip_known g \<subseteq> U"
    and ms: "set ms = up_members g" and me: "ns_member c \<in> set ms"
  obtains c' ic rt' out where "png_join env g ms c rt = Some (c', Some (In_Cluster ic), rt', out)"
    "ic_inv env U c' ic" "same_node c c'" "ns_member c' = ns_member c" "ic_gossip ic = g"
    "spawned out \<subseteq> known ic - {ns_member c'}"
proof -
  obtain h rt' where s: "schedule_gossip_timeout c rt = (h, rt')" by (cases "schedule_gossip_timeout c rt")
  let ?ic = "\<lparr>ic_charges = (\<lambda>_. None), ic_managers = [], ic_gossip = g, ic_members = set ms,
     ic_ring = fold (ring_insert (env_hash env) (env_wyrng env)) ms
       (ring_new (replication_factor (clr_config c))), gossip_handle = h\<rparr>"
  have msU: "set ms \<subseteq> U" using U ms by (auto simp: up_members_def gossip_known_def)
  have "ring_of (env_hash env) (env_wyrng env) (set ms) (ic_ring ?ic)"
    using node_ring.fold_insert_new_rings[OF node_ring.safe_subset[OF nc msU]] by simp
  moreover have "rep_factor (fold (ring_insert (env_hash env) (env_wyrng env)) xs r) = rep_factor r" for xs r
    by (induction xs arbitrary: r) simp_all
  then have "rep_factor (ic_ring ?ic) = replication_factor (clr_config c)" by (simp add: ring_new_def)
  moreover have "known ?ic \<subseteq> U" using U by (simp add: known_gossip)
  ultimately have "pre_update env U c ?ic"
    using nc msU me ms by (simp add: pre_update_def ring_ok_def)
  then obtain ic1 out where up: "update_charges_managers env c ?ic = Some (ic1, out)" "ic_inv env U c ic1"
      "ic_gossip ic1 = ic_gossip ?ic" "ic_members ic1 = ic_members ?ic"
      "spawned out \<subseteq> ic_members ?ic - {ns_member c}"
    by (rule update_inv)
  obtain c1 nts where n: "notify env ic1 c [Joined (ns_member c)] = (c1, nts)"
    by (cases "notify env ic1 c [Joined (ns_member c)]")
  note nt = notify_state[OF n]
  have run: "png_join env g ms c rt = Some (c1, Some (In_Cluster ic1), rt', out @ [gossip_round env c ic1 {}] @ nts)"
    using s up(1) n by (simp add: png_join_def Let_def)
  have "spawned out \<subseteq> known ic1 - {ns_member c1}"
    using up(3,5) ms nt(1) by (auto simp: known_gossip up_members_def gossip_known_def)
  then show thesis
    using that[OF run] up(2,3) nt ic_inv_cong[OF nt(1,2)] by (auto simp: gossip_round_def Let_def)
qed

lemma png_process_ok:
  fixes c :: "('u, 's, 'f) node_state"
  assumes nc: "no_collisions (env_hash env) (env_wyrng env) U" and me: "ns_member c \<in> U"
    and adm: "state_admissible rid U c {} msg"
  shows "\<exists>c' st rt' out. png_process env rid msg c rt = Some (c', st, rt', out) \<and> same_node c c' \<and>
     (case st of
        None \<Rightarrow> c' = c \<and> spawned out = {}
      | Some (In_Cluster ic) \<Rightarrow> ic_inv env U c' ic \<and> spawned out \<subseteq> known ic - {ns_member c'}
      | _ \<Rightarrow> False)"
proof (cases msg)
  case (State_Msg g)
  let ?me = "om_get (states g) (ns_member c)"
  let ?downed = "opt_filter (\<lambda>s. Down \<le> s) ?me \<noteq> None"
  let ?c1 = "if ?downed then new_id env rid c else c"
  let ?g = "if ?me = None \<or> ?downed then g\<lparr>states := om_insert (ns_member ?c1) Up (states g)\<rparr> else g"
  let ?ms = "map fst (filter (\<lambda>e. snd e < Down) (entries (states ?g)))"
  from adm State_Msg have g: "gossip_known g \<subseteq> U" "fresh_self rid c \<in> U"
    by (simp_all add: state_admissible_def fresh_ok_def)
  have gU: "gossip_known ?g \<subseteq> U" using g me by auto
  have up: "ns_member ?c1 \<in> up_members ?g"
  proof (cases ?me)
    case None
    then show ?thesis by simp
  next
    case (Some s)
    then show ?thesis by (cases s) (auto simp: up_members_def opt_filter_def less_eq_machine_state_def)
  qed
  obtain c' ic rt' out where j: "png_join env ?g ?ms ?c1 rt = Some (c', Some (In_Cluster ic), rt', out)"
    "ic_inv env U c' ic" "same_node ?c1 c'" "spawned out \<subseteq> known ic - {ns_member c'}"
    by (rule png_join_ok[OF nc gU up_members_entries]) (use up up_members_entries[of ?g] in auto)
  have "png_process env rid msg c rt = png_join env ?g ?ms ?c1 rt"
    by (simp add: png_process_def State_Msg Let_def)
  moreover have "same_node c c'" using j(3) by (simp add: same_node_def split: if_splits)
  ultimately show ?thesis using j by auto
next
  case (Ping m)
  show ?thesis
  proof (cases "m_socket m \<in> seed_nodes (clr_config c)")
    case False
    with Ping show ?thesis by (auto simp: png_process_def)
  next
    case True
    let ?g = "\<lparr>states = om_of_list [(m, Up), (ns_member c, Up)]\<rparr>"
    have get: "om_get (om_of_list [(m, Up), (ns_member c, Up)]) x = (if x = ns_member c \<or> x = m then Some Up else None)" for x
      by (simp add: om_get_of_list)
    have kn: "gossip_known ?g = {m, ns_member c}" and up: "up_members ?g = {m, ns_member c}"
      by (auto simp: gossip_known_def up_members_def get split: if_splits)
    have ks: "set (om_keys (states ?g)) = up_members ?g"
      unfolding up by (auto simp: set_om_keys get split: if_splits)
    have gU: "gossip_known ?g \<subseteq> U" using kn me adm Ping by (auto simp: state_admissible_def)
    obtain c' ic rt' out where j: "png_join env ?g (om_keys (states ?g)) c rt = Some (c', Some (In_Cluster ic), rt', out)"
      "ic_inv env U c' ic" "same_node c c'" "spawned out \<subseteq> known ic - {ns_member c'}"
      by (rule png_join_ok[OF nc gU ks]) (use up ks in auto)
    have "png_process env rid msg c rt = png_join env ?g (om_keys (states ?g)) c rt"
      using True by (simp add: png_process_def Ping Let_def)
    then show ?thesis using j by auto
  qed
qed (auto simp: png_process_def heartbeat_def)

subsection \<open>The actor\<close>

text \<open>The invariant of the actor, with the members for which it has ever spawned a heartbeat receiver.\<close>

definition cluster_inv :: "('u, 's) cluster_env \<Rightarrow> member set \<Rightarrow> ('u, 's, 'f) cluster \<Rightarrow> member set \<Rightarrow> bool" where
  "cluster_inv env U cl S \<longleftrightarrow>
     no_collisions (env_hash env) (env_wyrng env) U \<and> ns_member (common cl) \<in> U \<and>
     (case clr_state cl of
        In_Cluster ic \<Rightarrow> ic_inv env U (common cl) ic \<and> S \<subseteq> known ic - {ns_member (common cl)}
      | _ \<Rightarrow> S = {})"

text \<open>A message that may arrive: only a spawned heartbeat receiver reports a member down.\<close>

definition admissible ::
    "u64 \<Rightarrow> member set \<Rightarrow> ('u, 's, 'f) cluster \<Rightarrow> member set \<Rightarrow> ('u, 's, 'f) cluster_msg \<Rightarrow> bool" where
  "admissible rid U cl S msg \<longleftrightarrow>
     (case msg of
        Intra_Msg m \<Rightarrow>
          state_admissible rid U (common cl) (case clr_state cl of In_Cluster ic \<Rightarrow> known ic | _ \<Rightarrow> {}) m
      | Downed m \<Rightarrow> m \<in> S
      | _ \<Rightarrow> True)"

inductive cluster_reach ::
    "('u, 's) cluster_env \<Rightarrow> member set \<Rightarrow> ('u, 's, 'f) cluster \<Rightarrow> runtime \<Rightarrow> member set \<Rightarrow> bool"
  for env :: "('u, 's) cluster_env" and U :: "member set" where
  start: "no_collisions (env_hash env) (env_wyrng env) U \<Longrightarrow>
    cl = cluster_new env sock name subrs fm cfg hcfg rid \<Longrightarrow> ns_member (common cl) \<in> U \<Longrightarrow>
    cluster_pre_start env cl rt = (cl', rt', out) \<Longrightarrow> cluster_reach env U cl' rt' (spawned out)"
| recv: "cluster_reach env U cl rt S \<Longrightarrow> admissible rid U cl S msg \<Longrightarrow>
    cluster_recv env rid msg cl rt = Some (cl', rt', out) \<Longrightarrow>
    cluster_reach env U cl' rt' (S \<union> spawned out)"
| timer: "cluster_reach env U cl rt S \<Longrightarrow> cluster_reach env U cl (fire h rt) S"

lemma alone_inv:
  assumes nc: "no_collisions (env_hash env) (env_wyrng env) U" and me: "ns_member c \<in> U"
    and al: "alone env c rt = (ic, rt')"
  shows "ic_inv env U c ic" "known ic = {ns_member c}"
proof -
  let ?me = "ns_member c"
  have safe: "no_collisions (env_hash env) (env_wyrng env) (insert ?me {})"
    by (rule node_ring.safe_subset[OF nc]) (use me in auto)
  have r: "ring_of (env_hash env) (env_wyrng env) {?me}
      (ring_insert (env_hash env) (env_wyrng env) ?me (ring_new (replication_factor (clr_config c))))"
    using node_ring.insert_rings[OF node_ring.new_rings safe] .
  have get: "om_get (om_of_list [(?me, Up)]) x = (if x = ?me then Some Up else None)" for x
    by (simp add: om_get_of_list)
  from al have ic: "ic_ring ic = ring_insert (env_hash env) (env_wyrng env) ?me (ring_new (replication_factor (clr_config c)))"
      "ic_members ic = {?me}" "ic_gossip ic = \<lparr>states = om_of_list [(?me, Up)]\<rparr>"
      "ic_managers ic = []" "ic_charges ic = (\<lambda>_. None)"
    by (auto simp: alone_def split: prod.splits)
  show kn: "known ic = {?me}" by (auto simp: known_def ic get split: if_splits)
  have mem: "?me \<in> {?me}" by simp
  have "set (managers_of env c ic) \<subseteq> {?me} - {?me}" "set (charges_of env c ic) \<subseteq> {?me} - {?me}"
    unfolding managers_of_def charges_of_def ic(1)
    by (rule node_ring.managers_others[OF r mem], rule node_ring.charges_members[OF r mem])
  then have "managers_of env c ic = []" "charges_of env c ic = []" by auto
  moreover have "up_members (ic_gossip ic) = {?me}" by (auto simp: up_members_def ic get split: if_splits)
  ultimately show "ic_inv env U c ic"
    using nc me r kn by (simp add: ic_inv_def ring_ok_def ic ring_new_def)
qed

lemma create_cluster_inv:
  assumes nc: "no_collisions (env_hash env) (env_wyrng env) U" and me: "ns_member (common cl) \<in> U"
    and cr: "create_cluster env cl rt = (cl', rt', out)"
  shows "cluster_inv env U cl' {}" "spawned out = {}"
proof -
  obtain ic rt1 where a: "alone env (common cl) rt = (ic, rt1)" by (cases "alone env (common cl) rt")
  obtain c nts where n: "notify env ic (common cl) [Alone (ns_member (common cl))] = (c, nts)"
    by (cases "notify env ic (common cl) [Alone (ns_member (common cl))]")
  note nt = notify_state[OF n]
  show "cluster_inv env U cl' {}" "spawned out = {}"
    using cr a n alone_inv[OF nc me a] nt nc me ic_inv_cong[OF nt(1,2)]
    by (auto simp: create_cluster_def cluster_inv_def)
qed

lemma png_ping_state:
  "png_ping c png rt = (png', rt', out) \<Longrightarrow> spawned out = {}"
  by (auto simp: png_ping_def split: prod.splits)

lemma pre_start_inv:
  assumes nc: "no_collisions (env_hash env) (env_wyrng env) U" and me: "ns_member (common cl) \<in> U"
    and st: "cluster_pre_start env cl rt = (cl', rt', out)"
  shows "cluster_inv env U cl' (spawned out)"
proof (cases "seed_nodes (clr_config (common cl)) = {}")
  case True
  obtain cl1 rt1 out1 where cr: "create_cluster env cl rt = (cl1, rt1, out1)" by (cases "create_cluster env cl rt")
  with st True have "cl' = cl1" "out = out1" by (auto simp: cluster_pre_start_def)
  then show ?thesis using create_cluster_inv[OF nc me cr] by simp
next
  case False
  with st show ?thesis using nc me
    by (auto simp: cluster_pre_start_def cluster_inv_def split: prod.splits dest!: png_ping_state)
qed

lemma handler_cluster_inv:
  assumes ok: "handler_ok env U (common cl) ic res" and res: "res = Some (c', ic', rt', out)"
    and nc: "no_collisions (env_hash env) (env_wyrng env) U"
    and S: "S \<subseteq> known ic - {ns_member (common cl)}"
  shows "cluster_inv env U (cl\<lparr>common := c', clr_state := In_Cluster ic'\<rparr>) (S \<union> spawned out)"
proof -
  from ok res have inv: "ic_inv env U c' ic'" and k: "known ic \<subseteq> known ic'" "spawned out \<subseteq> known ic' - {ns_member c'}"
    "ns_member c' = ns_member (common cl) \<or> ns_member c' \<notin> known ic"
    by (auto simp: handler_ok_def)
  moreover have "ns_member c' \<in> U" using ic_invD(2,3)[OF inv] by auto
  ultimately show ?thesis using nc S by (auto simp: cluster_inv_def)
qed

lemma state_process_inv:
  assumes inv: "cluster_inv env U cl S" and adm: "admissible rid U cl S (Intra_Msg m)"
  shows "\<exists>cl' rt' out. state_process env rid m cl rt = Some (cl', rt', out) \<and> cluster_inv env U cl' (S \<union> spawned out)"
proof (cases "clr_state cl")
  case (In_Cluster ic)
  with inv have ii: "ic_inv env U (common cl) ic" and S: "S \<subseteq> known ic - {ns_member (common cl)}"
    and nc: "no_collisions (env_hash env) (env_wyrng env) U" by (simp_all add: cluster_inv_def)
  have ok: "handler_ok env U (common cl) ic (ic_process env rid m (common cl) ic rt)"
    by (rule ic_process_ok[OF ii]) (use adm In_Cluster in \<open>simp add: admissible_def\<close>)
  then obtain c' ic' rt' out where res: "ic_process env rid m (common cl) ic rt = Some (c', ic', rt', out)"
    by (auto simp: handler_ok_def)
  show ?thesis
    using handler_cluster_inv[OF ok res nc S] res In_Cluster by (simp add: state_process_def)
next
  case (Pinging png)
  with inv have S: "S = {}" and nc: "no_collisions (env_hash env) (env_wyrng env) U"
    and me: "ns_member (common cl) \<in> U" by (simp_all add: cluster_inv_def)
  have "state_admissible rid U (common cl) {} m" using adm Pinging by (simp add: admissible_def)
  from png_process_ok[OF nc me this, of rt] obtain c' st rt' out
    where p: "png_process env rid m (common cl) rt = Some (c', st, rt', out)" "same_node (common cl) c'"
      "case st of None \<Rightarrow> c' = common cl \<and> spawned out = {}
       | Some (In_Cluster ic) \<Rightarrow> ic_inv env U c' ic \<and> spawned out \<subseteq> known ic - {ns_member c'} | _ \<Rightarrow> False"
    by blast
  show ?thesis
  proof (cases st)
    case None
    with p Pinging S nc me show ?thesis by (simp add: state_process_def cluster_inv_def)
  next
    case (Some x)
    then obtain ic where x: "x = In_Cluster ic" using p(3) by (cases x) auto
    have "ns_member c' \<in> U" using p(3) ic_invD(2,3)[of env U c' ic] Some x by auto
    with p Pinging S nc Some x show ?thesis by (simp add: state_process_def cluster_inv_def)
  qed
next
  case Left
  with inv show ?thesis by (simp add: state_process_def)
qed

lemma cluster_recv_inv:
  assumes inv: "cluster_inv env U cl S" and adm: "admissible rid U cl S msg"
  shows "\<exists>cl' rt' out. cluster_recv env rid msg cl rt = Some (cl', rt', out) \<and> cluster_inv env U cl' (S \<union> spawned out)"
proof (cases msg)
  case (Intra_Msg m)
  then show ?thesis
    using state_process_inv[OF inv, of rid m rt] adm by (simp add: cluster_recv_def Let_def)
next
  case (Subscribe s)
  have "ic_inv env U (common cl\<lparr>subscribers := ss\<rparr>) ic = ic_inv env U (common cl) ic" for ss ic
    by (rule ic_inv_cong) (simp_all add: same_node_def)
  with Subscribe inv show ?thesis
    by (auto simp: cluster_recv_def Let_def cluster_inv_def split: clr_state.splits)
next
  case (Failure_Map fm)
  have "ic_inv env U (common cl\<lparr>fail_map := fm\<rparr>) ic = ic_inv env U (common cl) ic" for ic
    by (rule ic_inv_cong) (simp_all add: same_node_def)
  with Failure_Map inv show ?thesis
    by (auto simp: cluster_recv_def Let_def cluster_inv_def split: clr_state.splits)
next
  case Ping_Timeout
  obtain cl1 rt1 out1 where cr: "create_cluster env cl rt = (cl1, rt1, out1)" by (cases "create_cluster env cl rt")
  have nc: "no_collisions (env_hash env) (env_wyrng env) U" "ns_member (common cl) \<in> U"
    using inv by (simp_all add: cluster_inv_def)
  show ?thesis
  proof (cases "clr_state cl")
    case (Pinging png)
    obtain png' rt' out where p: "png_ping (common cl) png rt = (png', rt', out)"
      by (cases "png_ping (common cl) png rt")
    with inv Pinging nc have "cluster_inv env U (cl\<lparr>clr_state := Pinging png'\<rparr>) (S \<union> spawned out)"
      using png_ping_state[OF p] by (simp add: cluster_inv_def)
    moreover have "S = {}" using inv Pinging by (simp add: cluster_inv_def)
    ultimately show ?thesis
      using create_cluster_inv[OF nc cr] Pinging Ping_Timeout p cr by (simp add: cluster_recv_def Let_def)
  qed (use inv Ping_Timeout in \<open>simp_all add: cluster_recv_def Let_def\<close>)
next
  case Gossip_Timeout
  with inv show ?thesis
    by (auto simp: cluster_recv_def Let_def gossip_round_def gossip_reqs_def split: clr_state.splits)
next
  case (Downed m)
  show ?thesis
  proof (cases "clr_state cl")
    case (In_Cluster ic)
    with inv have ii: "ic_inv env U (common cl) ic" and S: "S \<subseteq> known ic - {ns_member (common cl)}"
      and nc: "no_collisions (env_hash env) (env_wyrng env) U" by (simp_all add: cluster_inv_def)
    have ok: "handler_ok env U (common cl) ic (ic_down env m (common cl) ic rt)"
      by (rule ic_down_ok[OF ii]) (use adm Downed S in \<open>auto simp: admissible_def\<close>)
    then obtain c' ic' rt' out where res: "ic_down env m (common cl) ic rt = Some (c', ic', rt', out)"
      by (auto simp: handler_ok_def)
    show ?thesis
      using handler_cluster_inv[OF ok res nc S] res In_Cluster Downed by (simp add: cluster_recv_def Let_def)
  qed (use inv Downed in \<open>simp_all add: cluster_recv_def Let_def\<close>)
next
  case Heartbeat_Tick
  with inv show ?thesis
    by (auto simp: cluster_recv_def Let_def split: clr_state.splits)
qed

lemma cluster_reach_cluster_inv:
  "cluster_reach env U cl rt S \<Longrightarrow> cluster_inv env U cl S"
proof (induction rule: cluster_reach.induct)
  case (start cl sock name subrs fm cfg hcfg rid rt cl' rt' out)
  then show ?case by (blast intro: pre_start_inv)
next
  case (recv cl rt S rid msg cl' rt' out)
  from cluster_recv_inv[OF recv.IH recv.hyps(2), of rt] recv.hyps(3) show ?case by auto
next
  case (timer cl rt S h)
  then show ?case by simp
qed

text \<open>
  Fact.  The cluster actor never panics.  From its start, and over every sequence of messages
  in which members come from a universe whose positions on the ring are distinct, new identifiers are
  fresh and only spawned heartbeat receivers report members down, \<open>recv\<close> returns: the unwraps on the
  ring, on the gossip state and on the member set never fail.
\<close>

theorem cluster_never_panics:
  assumes "cluster_reach env U cl rt S" and "admissible rid U cl S msg"
  shows "cluster_recv env rid msg cl rt \<noteq> None"
  using cluster_recv_inv[OF cluster_reach_cluster_inv[OF assms(1)] assms(2), of rt] by auto

text \<open>
  Property C2.  The invariant of a node in the cluster.  In every reachable state the members are the
  members that are up in the gossip state, the node among them; the ring is the ring of the members,
  at the configured replication; the managers are the ring's, and there is a heartbeat receiver, under
  its name, for exactly the ring's charges.
\<close>

theorem cluster_consistent:
  assumes "cluster_reach env U cl rt S" and "clr_state cl = In_Cluster ic"
  shows "ic_members ic = up_members (ic_gossip ic) \<and> ns_member (common cl) \<in> ic_members ic \<and>
    ring_of (env_hash env) (env_wyrng env) (ic_members ic) (ic_ring ic) \<and>
    rep_factor (ic_ring ic) = replication_factor (clr_config (common cl)) \<and>
    node_managers (env_hash env) (ic_ring ic) (ns_member (common cl)) = Some (ic_managers ic) \<and>
    (\<exists>cs. charges (env_hash env) (env_wyrng env) (ic_ring ic) (ns_member (common cl)) = Some cs \<and>
       ic_charges ic = (\<lambda>m. if m \<in> set cs then Some (from_clr (clr_name (common cl)) (m_id m)) else None))"
proof -
  from cluster_reach_cluster_inv[OF assms(1)] assms(2)
  have ii: "ic_inv env U (common cl) ic" by (simp add: cluster_inv_def)
  then have "ring_ok env U (common cl) ic" by (simp add: ic_inv_def)
  from ring_okD(2,3)[OF this] ii show ?thesis
    by (auto simp: ic_inv_def ring_ok_def hbr_name_def)
qed

end
