(* ===== verification/Cluster_Contract.thy ===== *)
theory Cluster_Contract
  imports Cluster_Invariant
begin

text \<open>
  What a node of the cluster promises to others: its subscribers see every change of the membership,
  knowledge of the members only grows and \<open>Down\<close> is final, a node that was downed rejoins under a new
  identity, and two nodes that agree on the members agree on who sends heartbeats to whom and under
  which name.  Then two places where the actor does not do what it means to: the gossip timers and
  the number of pings.
\<close>

subsection \<open>What a handler tells and learns\<close>

text \<open>The own heartbeat address is always the one under which this node's managers listen.\<close>

definition hbr_named :: "('u, 's) cluster_env \<Rightarrow> ('u, 's, 'f) node_state \<Rightarrow> bool" where
  "hbr_named env c \<longleftrightarrow>
     hbr_dest c = destination_new (variant_hbr_msg env) (variant_hbr_msg env)
       (from_clr (clr_name c) (m_id (ns_member c)))"

text \<open>The membership after a list of events, as a subscriber reads them.\<close>

definition members_after :: "cluster_event list \<Rightarrow> member set \<Rightarrow> member set" where
  "members_after es M =
     (M - {m. Removed m \<in> set es}) \<union> {m. Added m \<in> set es} \<union> {m. Joined m \<in> set es}"

definition told :: "('u, 's, 'f) node_state \<Rightarrow> in_cluster \<Rightarrow> cluster_event list \<Rightarrow> ('u, 's) cluster_effect list \<Rightarrow> bool" where
  "told c ic es out \<longleftrightarrow>
     (es \<noteq> [] \<longrightarrow> (\<forall>s\<in>set (subscribers c).
        Notify s \<lparr>cu_events = es, cu_nodes = ic_members ic, cu_ring = ic_ring ic\<rparr> \<in> set out))"

definition knows_less :: "gossip \<Rightarrow> gossip \<Rightarrow> bool" where
  "knows_less g g' \<longleftrightarrow> (\<forall>m. om_get (states g) m \<le> om_get (states g') m)"

lemma knows_less_refl [simp]: "knows_less g g"
  by (simp add: knows_less_def)

definition sees ::
    "('u, 's) cluster_env \<Rightarrow> ('u, 's, 'f) node_state \<Rightarrow> in_cluster \<Rightarrow> ('u, 's, 'f) handler_result \<Rightarrow> bool" where
  "sees env c ic res \<longleftrightarrow>
     (\<forall>c' ic' rt' out. res = Some (c', ic', rt', out) \<longrightarrow>
        (\<exists>es. told c ic' es out \<and> ic_members ic' = members_after es (ic_members ic)) \<and>
        knows_less (ic_gossip ic) (ic_gossip ic') \<and> (hbr_named env c \<longrightarrow> hbr_named env c'))"

lemma notify_told:
  assumes "notify env ic c es = (c', out)"
  shows "told c ic es out" "hbr_named env c' = hbr_named env c"
proof -
  show "told c ic es out"
    using assms by (auto simp: told_def notify_def Let_def split: if_splits)
  have "hbr_dest c' = hbr_dest c" "clr_name c' = clr_name c" "ns_member c' = ns_member c"
    using assms by (auto simp: notify_def Let_def clr_name_def split: if_splits)
  then show "hbr_named env c' = hbr_named env c" by (simp add: hbr_named_def)
qed

lemma told_mono: "told c ic es out \<Longrightarrow> set out \<subseteq> set out' \<Longrightarrow> told c ic es out'"
  by (auto simp: told_def)

lemma told_cong: "subscribers c1 = subscribers c \<Longrightarrow> ic_members ic1 = ic_members ic \<Longrightarrow> ic_ring ic1 = ic_ring ic \<Longrightarrow>
   told c1 ic1 es out = told c ic es out"
  by (simp add: told_def)

lemma knows_less_merge: "knows_less a (fst (gossip_merge a b))"
  by (simp add: knows_less_def om_get_gossip_merge)

lemma knows_less_insert:
  "om_get (states g) m \<le> Some s \<Longrightarrow> knows_less g (g\<lparr>states := om_insert m s (states g)\<rparr>)"
  by (simp add: knows_less_def)

lemma knows_less_trans: "knows_less a b \<Longrightarrow> knows_less b c \<Longrightarrow> knows_less a c"
  by (meson knows_less_def order_trans)

lemma hbr_named_new_id [simp]: "hbr_named env (new_id env rid c)"
  by (simp add: hbr_named_def) (simp add: new_id_def fresh_self_def)

lemma merged_members:
  assumes "merged_with env rid g c ic c1 ic1 ns"
  shows "ic_members ic1 = members_after
     (snd (gossip_merge (ic_gossip ic) g) @ (case ns of Some e \<Rightarrow> [e] | None \<Rightarrow> [])) (ic_members ic)"
proof -
  have "Joined m \<notin> set (snd (gossip_merge (ic_gossip ic) g))" for m by (simp add: set_merge_events)
  with assms show ?thesis
    by (auto simp: merged_with_def Let_def members_after_def after_events_def split: if_splits)
qed

lemma update_frame:
  assumes "update_charges_managers env c ic = Some (ic', out)"
  shows "ic_members ic' = ic_members ic" "ic_ring ic' = ic_ring ic" "ic_gossip ic' = ic_gossip ic"
  using assms by (auto simp: update_charges_managers_def split: option.splits prod.splits)

lemma merged_knows:
  assumes mw: "merged_with env rid g c ic c1 ic1 ns" and fresh: "fresh_ok rid U c (known ic \<union> gossip_known g)"
  shows "knows_less (ic_gossip ic) (ic_gossip ic1)"
proof (cases "Removed (ns_member c) \<in> set (snd (gossip_merge (ic_gossip ic) g))")
  case False
  with mw show ?thesis by (simp add: merged_with_def Let_def knows_less_merge)
next
  case True
  let ?g = "fst (gossip_merge (ic_gossip ic) g)"
  from True mw have c1: "ns_member c1 = fresh_self rid c"
    and gi: "ic_gossip ic1 = ?g\<lparr>states := om_insert (ns_member c1) Up (states ?g)\<rparr>"
    by (simp_all add: merged_with_def Let_def)
  have "fresh_self rid c \<notin> gossip_known ?g"
    using fresh by (auto simp: fresh_ok_def known_merge known_gossip)
  then have "om_get (states ?g) (ns_member c1) \<le> Some Up"
    by (simp add: c1 gossip_known_def)
  then show ?thesis
    unfolding gi using knows_less_trans[OF knows_less_merge knows_less_insert] by blast
qed

lemma ic_state_sees:
  assumes inv: "ic_inv env U c ic" and g: "gossip_known g \<subseteq> U"
    and fresh: "fresh_ok rid U c (known ic \<union> gossip_known g)"
  shows "sees env c ic (ic_state env rid g c ic rt)"
proof (rule ic_state_run[OF assms, of rt])
  fix c1 ic1 ns ic2 out c2 nts h rt2 rounds
  let ?es' = "snd (gossip_merge (ic_gossip ic) g) @ (case ns of Some e \<Rightarrow> [e] | None \<Rightarrow> [])"
  assume mw: "merged_with env rid g c ic c1 ic1 ns"
    and fr: "ic_gossip ic2 = ic_gossip ic1" "ic_members ic2 = ic_members ic1"
    and n: "notify env ic2 c1 ?es' = (c2, nts)"
    and run: "ic_state env rid g c ic rt = Some (c2, ic2\<lparr>gossip_handle := h\<rparr>, rt2, rounds @ out @ nts)"
  note nt = notify_told[OF n]
  have sub: "subscribers c1 = subscribers c" using merged_with_self[OF mw] by auto
  have named: "hbr_named env c \<longrightarrow> hbr_named env c2" using merged_with_self[OF mw] nt(2) by auto
  have tl: "told c (ic2\<lparr>gossip_handle := h\<rparr>) ?es' (rounds @ out @ nts)"
    by (rule told_mono[of _ _ _ nts], use nt(1) sub in \<open>simp add: told_def\<close>, auto)
  have mem: "ic_members ic2 = members_after ?es' (ic_members ic)"
    using merged_members[OF mw] fr(2) by simp
  have kn: "knows_less (ic_gossip ic) (ic_gossip ic2)"
    using merged_knows[OF mw fresh] fr(1) by simp
  show ?thesis
    unfolding sees_def run using tl mem kn named by (intro allI impI conjI exI[of _ ?es']) simp_all
qed

lemma sees_same:
  "res = Some (c, ic, rt', out) \<Longrightarrow> sees env c ic res"
  unfolding sees_def by (auto simp: told_def members_after_def intro!: exI[of _ "[]"])

lemma ic_ping_sees: "sees env c ic (ic_ping env m c ic rt)"
proof (cases "om_get (states (ic_gossip ic)) m")
  case (Some s)
  then show ?thesis by (intro sees_same) (simp add: ic_ping_def)
next
  case None
  let ?ic1 = "ic\<lparr>ic_gossip := (ic_gossip ic)\<lparr>states := om_insert m Up (states (ic_gossip ic))\<rparr>,
      ic_ring := ring_insert (env_hash env) (env_wyrng env) m (ic_ring ic), ic_members := insert m (ic_members ic)\<rparr>"
  show ?thesis
  proof (cases "update_charges_managers env c ?ic1")
    case None
    with \<open>om_get (states (ic_gossip ic)) m = None\<close> show ?thesis by (simp add: ic_ping_def sees_def Let_def)
  next
    case (Some r)
    then obtain ic2 out where up: "update_charges_managers env c ?ic1 = Some (ic2, out)" by (cases r) auto
    note fr = update_frame[OF up]
    obtain c2 nts where n: "notify env ic2 c [Added m] = (c2, nts)" by (cases "notify env ic2 c [Added m]")
    note nt = notify_told[OF n]
    have run: "ic_ping env m c ic rt = Some (c2, ic2, rt, out @ nts @ [gossip_round env c2 ic2 {m}])"
      using None up n by (simp add: ic_ping_def Let_def)
    have "told c ic2 [Added m] (out @ nts @ [gossip_round env c2 ic2 {m}])"
      by (rule told_mono[OF nt(1)]) auto
    moreover have "ic_members ic2 = members_after [Added m] (ic_members ic)"
      using fr(1) by (auto simp: members_after_def)
    moreover have "knows_less (ic_gossip ic) (ic_gossip ic2)"
      using fr(3) knows_less_insert[of "ic_gossip ic" m Up] None by simp
    ultimately show ?thesis
      unfolding sees_def run using nt(2) by (intro allI impI conjI exI[of _ "[Added m]"]) simp_all
  qed
qed

lemma ic_down_sees: "sees env c ic (ic_down env m c ic rt)"
proof (cases "ic_down env m c ic rt")
  case None
  then show ?thesis by (simp add: sees_def)
next
  case (Some r)
  show ?thesis
  proof (cases "om_get (states (ic_gossip ic)) m = Some Up")
    case False
    with Some have "ic_down env m c ic rt = Some (c, ic, rt, [])"
      by (auto simp: ic_down_def split: option.splits machine_state.splits)
    then show ?thesis by (rule sees_same)
  next
    case True
    then obtain ring1 where rm: "ring_remove (env_hash env) (env_wyrng env) m (ic_ring ic) = (Inr (), ring1)" "m \<in> ic_members ic"
      using Some by (auto simp: ic_down_def split: prod.splits sum.splits if_splits)
    let ?ic1 = "ic\<lparr>ic_gossip := (ic_gossip ic)\<lparr>states := om_insert m Down (states (ic_gossip ic))\<rparr>,
        ic_ring := ring1, ic_members := ic_members ic - {m}\<rparr>"
    obtain ic2 out where up: "update_charges_managers env c ?ic1 = Some (ic2, out)"
      using True rm Some by (auto simp: ic_down_def Let_def split: option.splits)
    note fr = update_frame[OF up]
    obtain c2 nts where n: "notify env ic2 c [Removed m] = (c2, nts)" by (cases "notify env ic2 c [Removed m]")
    note nt = notify_told[OF n]
    have run: "ic_down env m c ic rt = Some (c2, ic2, rt, out @ [gossip_round env c ic2 {m}] @ nts)"
      using True rm up n by (simp add: ic_down_def Let_def)
    have "told c ic2 [Removed m] (out @ [gossip_round env c ic2 {m}] @ nts)"
      by (rule told_mono[OF nt(1)]) auto
    moreover have "ic_members ic2 = members_after [Removed m] (ic_members ic)"
      using fr(1) by (auto simp: members_after_def)
    moreover have "knows_less (ic_gossip ic) (ic_gossip ic2)"
      using fr(3) knows_less_insert[of "ic_gossip ic" m Down] True by (simp add: less_eq_machine_state_def)
    ultimately show ?thesis
      unfolding sees_def run using nt(2) by (intro allI impI conjI exI[of _ "[Removed m]"]) simp_all
  qed
qed

lemma ic_process_sees:
  assumes inv: "ic_inv env U c ic" and adm: "state_admissible rid U c (known ic) msg"
  shows "sees env c ic (ic_process env rid msg c ic rt)"
proof (cases msg)
  case (State_Msg g)
  with ic_state_sees[OF inv] adm show ?thesis by (simp add: ic_process_def state_admissible_def)
next
  case (Ping m)
  then show ?thesis by (simp add: ic_process_def ic_ping_sees)
qed (auto simp: ic_process_def intro: sees_same)

subsection \<open>The actor\<close>

text \<open>
  One step of the actor from inside the cluster: it stays in the cluster, and its subscribers of
  before the step are told.
\<close>

lemma recv_sees:
  assumes inv: "cluster_inv env U cl S" and adm: "admissible rid U cl S msg"
    and ic: "clr_state cl = In_Cluster ic" and run: "cluster_recv env rid msg cl rt = Some (cl', rt', out)"
  shows "\<exists>ic'. clr_state cl' = In_Cluster ic' \<and>
     (\<exists>es. told (common cl) ic' es out \<and> ic_members ic' = members_after es (ic_members ic)) \<and>
     knows_less (ic_gossip ic) (ic_gossip ic') \<and> (hbr_named env (common cl) \<longrightarrow> hbr_named env (common cl'))"
proof -
  let ?c = "common cl"
  from inv ic have ii: "ic_inv env U ?c ic" by (simp add: cluster_inv_def)
  have handled: ?thesis if "sees env ?c ic res" "res = Some (c', ic', r, out)"
      "cl' = cl\<lparr>common := c', clr_state := In_Cluster ic'\<rparr>" for res c' ic' r
    using that unfolding sees_def by simp
  have quiet: "\<exists>es. told ?c ic es out \<and> ic_members ic = members_after es (ic_members ic)"
    by (rule exI[of _ "[]"]) (simp add: told_def members_after_def)
  show ?thesis
  proof (cases msg)
    case (Intra_Msg m)
    obtain c' ic' r where p: "ic_process env rid m ?c ic rt = Some (c', ic', r, out)"
      "cl' = cl\<lparr>common := c', clr_state := In_Cluster ic'\<rparr>"
      using run Intra_Msg ic by (auto simp: cluster_recv_def state_process_def Let_def split: option.splits)
    have "sees env ?c ic (ic_process env rid m ?c ic rt)"
      by (rule ic_process_sees[OF ii]) (use adm Intra_Msg ic in \<open>simp add: admissible_def\<close>)
    from handled[OF this p] show ?thesis .
  next
    case (Downed m)
    obtain c' ic' r where p: "ic_down env m ?c ic rt = Some (c', ic', r, out)"
      "cl' = cl\<lparr>common := c', clr_state := In_Cluster ic'\<rparr>"
      using run Downed ic by (auto simp: cluster_recv_def Let_def split: option.splits)
    from handled[OF ic_down_sees p] show ?thesis .
  qed (use run ic quiet in \<open>auto simp: cluster_recv_def Let_def hbr_named_def clr_name_def\<close>)
qed

lemma recv_hbr_named:
  assumes inv: "cluster_inv env U cl S" and adm: "admissible rid U cl S msg"
    and run: "cluster_recv env rid msg cl rt = Some (cl', rt', out)" and named: "hbr_named env (common cl)"
  shows "hbr_named env (common cl')"
proof (cases "clr_state cl")
  case (In_Cluster ic)
  from recv_sees[OF inv adm this run] named show ?thesis by auto
next
  case (Pinging png)
  have join: "hbr_named env c'" if "png_join env g ms c rt = Some (c', st, r, o')" "hbr_named env c" for g ms c c' st r o'
    using that by (auto simp: png_join_def Let_def split: prod.splits option.splits dest: notify_told(2))
  have "hbr_named env c'" if "png_process env rid m (common cl) rt = Some (c', st, r, o')" for m c' st r o'
    using that named by (auto simp: png_process_def Let_def split: intra_msg.splits if_splits intro: join)
  moreover have "hbr_named env (common (fst (create_cluster env cl rt)))"
    using named by (auto simp: create_cluster_def split: prod.splits dest: notify_told(2))
  ultimately show ?thesis
    using run Pinging named
    by (auto simp: cluster_recv_def state_process_def Let_def hbr_named_def clr_name_def
        split: cluster_msg.splits option.splits prod.splits if_splits)
next
  case Left
  with run named show ?thesis
    by (auto simp: cluster_recv_def state_process_def Let_def hbr_named_def clr_name_def split: cluster_msg.splits)
qed

lemma reach_hbr_named: "cluster_reach env U cl rt S \<Longrightarrow> hbr_named env (common cl)"
proof (induction rule: cluster_reach.induct)
  case (start cl sock name subrs fm cfg hcfg rid rt cl' rt' out)
  have "hbr_named env (common cl)"
    by (simp add: start.hyps(2) cluster_new_def Let_def hbr_named_def clr_name_def destination_new_def)
  then show ?case
    using start.hyps(4)
    by (auto simp: cluster_pre_start_def create_cluster_def split: if_splits prod.splits dest: notify_told(2))
next
  case (recv cl rt S rid msg cl' rt' out)
  from recv_hbr_named[OF cluster_reach_cluster_inv[OF recv.hyps(1)] recv.hyps(2,3) recv.IH] show ?case .
next
  case (timer cl rt S h)
  then show ?case by simp
qed

text \<open>
  Property C15.  Subscribers see every change.  When the actor handles a message inside the cluster,
  every subscriber gets an update whose events explain the new membership exactly: the old members
  without the removed ones, with the added ones and with the node's new identity; the update carries
  the new members and the new ring.  Where there is no update the membership has not changed.
\<close>

theorem subscribers_see_changes:
  assumes "cluster_reach env U cl rt S" and "admissible rid U cl S msg"
    and "clr_state cl = In_Cluster ic" and "cluster_recv env rid msg cl rt = Some (cl', rt', out)"
  shows "\<exists>ic' es. clr_state cl' = In_Cluster ic' \<and>
     ic_members ic' = (ic_members ic - {m. Removed m \<in> set es}) \<union> {m. Added m \<in> set es} \<union> {m. Joined m \<in> set es} \<and>
     (es \<noteq> [] \<longrightarrow> (\<forall>s\<in>set (subscribers (common cl)).
        Notify s \<lparr>cu_events = es, cu_nodes = ic_members ic', cu_ring = ic_ring ic'\<rparr> \<in> set out))"
  using recv_sees[OF cluster_reach_cluster_inv[OF assms(1)] assms(2-4)]
  unfolding told_def members_after_def by blast

text \<open>
  Property C16.  Knowledge of the members only grows: no message makes a node in the cluster forget a
  member, and a member it holds to be down stays down and out of its members for good.
\<close>

theorem down_is_final:
  assumes "cluster_reach env U cl rt S" and "admissible rid U cl S msg"
    and "clr_state cl = In_Cluster ic" and "cluster_recv env rid msg cl rt = Some (cl', rt', out)"
  shows "\<exists>ic'. clr_state cl' = In_Cluster ic' \<and>
     (\<forall>m. om_get (states (ic_gossip ic)) m \<le> om_get (states (ic_gossip ic')) m) \<and>
     (\<forall>m. om_get (states (ic_gossip ic)) m = Some Down \<longrightarrow> m \<notin> ic_members ic')"
proof -
  note inv = cluster_reach_cluster_inv[OF assms(1)]
  from recv_sees[OF inv assms(2-4)] obtain ic' where ic': "clr_state cl' = In_Cluster ic'"
    and kn: "knows_less (ic_gossip ic) (ic_gossip ic')" by blast
  from cluster_recv_inv[OF inv assms(2), of rt] assms(4) ic' have "ic_inv env U (common cl') ic'"
    by (simp add: cluster_inv_def)
  then have up: "ic_members ic' = up_members (ic_gossip ic')" by (rule ic_invD)
  have "m \<notin> ic_members ic'" if "om_get (states (ic_gossip ic)) m = Some Down" for m
  proof -
    from kn that have "Some Down \<le> om_get (states (ic_gossip ic')) m" by (metis knows_less_def)
    then show ?thesis by (auto simp: up up_members_def less_eq_machine_state_def)
  qed
  with ic' kn show ?thesis by (auto simp: knows_less_def)
qed

text \<open>
  Property C25.  A node that was downed rejoins.  When gossip tells a node in the cluster that it is
  down, it takes a new identity at the same socket: the old one leaves its members and stays down in
  its gossip, the new one is up and a member, heartbeats go out under the new name, and the
  subscribers are told that it joined.
\<close>

theorem downed_node_rejoins:
  assumes "cluster_reach env U cl rt S" and "clr_state cl = In_Cluster ic"
    and "admissible rid U cl S (Intra_Msg (State_Msg g))"
    and "om_get (states g) (ns_member (common cl)) = Some Down"
  shows "\<exists>cl' rt' out ic'. cluster_recv env rid (Intra_Msg (State_Msg g)) cl rt = Some (cl', rt', out) \<and>
     clr_state cl' = In_Cluster ic' \<and> ns_member (common cl') = fresh_self rid (common cl) \<and>
     ns_member (common cl) \<notin> ic_members ic' \<and> fresh_self rid (common cl) \<in> ic_members ic' \<and>
     om_get (states (ic_gossip ic')) (ns_member (common cl)) = Some Down \<and>
     om_get (states (ic_gossip ic')) (fresh_self rid (common cl)) = Some Up \<and>
     actor_name (dest_name (hbr_dest (common cl'))) = from_clr (clr_name (common cl)) rid \<and>
     (\<forall>s\<in>set (subscribers (common cl)). \<exists>upd. Notify s upd \<in> set out \<and>
        last (cu_events upd) = Joined (fresh_self rid (common cl)))"
proof -
  let ?c = "common cl" and ?g = "fst (gossip_merge (ic_gossip ic) g)"
  note inv = cluster_reach_cluster_inv[OF assms(1)]
  from inv assms(2) have ii: "ic_inv env U ?c ic" by (simp add: cluster_inv_def)
  from assms(2,3) have g: "gossip_known g \<subseteq> U" "fresh_ok rid U ?c (known ic \<union> gossip_known g)"
    by (simp_all add: admissible_def state_admissible_def)
  have me: "om_get (states (ic_gossip ic)) (ns_member ?c) = Some Up"
    using ic_invD(3,6)[OF ii] by (simp add: up_members_def)
  have rem: "Removed (ns_member ?c) \<in> set (snd (gossip_merge (ic_gossip ic) g))"
    using me assms(4) by (simp add: set_merge_events)
  have ne: "ns_member ?c \<noteq> fresh_self rid ?c"
    using me g(2) by (auto simp: fresh_ok_def known_def)
  show ?thesis
  proof (rule ic_state_run[OF ii g, of rt])
    fix c1 ic1 ns ic2 out c2 nts h rt2 rounds
    let ?es = "snd (gossip_merge (ic_gossip ic) g) @ (case ns of Some e \<Rightarrow> [e] | None \<Rightarrow> [])"
    assume mw: "merged_with env rid g ?c ic c1 ic1 ns"
      and fr: "ic_gossip ic2 = ic_gossip ic1" "ic_members ic2 = ic_members ic1"
      and i2: "ic_inv env U c1 ic2" and n: "notify env ic2 c1 ?es = (c2, nts)"
      and run: "ic_state env rid g ?c ic rt = Some (c2, ic2\<lparr>gossip_handle := h\<rparr>, rt2, rounds @ out @ nts)"
    from mw rem have c1: "c1 = new_id env rid ?c" "ns = Some (Joined (fresh_self rid ?c))"
      and gi: "ic_gossip ic1 = ?g\<lparr>states := om_insert (fresh_self rid ?c) Up (states ?g)\<rparr>"
      by (auto simp: merged_with_def Let_def)
    have st: "om_get (states (ic_gossip ic2)) (ns_member ?c) = Some Down"
      "om_get (states (ic_gossip ic2)) (fresh_self rid ?c) = Some Up"
      using me assms(4) ne by (auto simp: fr gi om_get_gossip_merge max_def less_eq_machine_state_def)
    then have mem: "ns_member ?c \<notin> ic_members ic2" "fresh_self rid ?c \<in> ic_members ic2"
      by (simp_all add: ic_invD(6)[OF i2] up_members_def)
    have "hbr_named env c2" using notify_told(2)[OF n] c1(1) by simp
    moreover note ns = notify_state[OF n]
    ultimately have nm: "actor_name (dest_name (hbr_dest c2)) = from_clr (clr_name ?c) rid"
      using c1(1) by (simp add: hbr_named_def destination_new_def fresh_self_def)
    have es: "?es \<noteq> []" "last ?es = Joined (fresh_self rid ?c)" by (simp_all add: c1(2))
    have "told c1 ic2 ?es nts" by (rule notify_told(1)[OF n])
    then have tl: "\<exists>upd. Notify s upd \<in> set (rounds @ out @ nts) \<and> last (cu_events upd) = Joined (fresh_self rid ?c)"
      if "s \<in> set (subscribers ?c)" for s
      using that es c1(1) unfolding told_def by (auto intro!: exI)
    have "cluster_recv env rid (Intra_Msg (State_Msg g)) cl rt =
        Some (cl\<lparr>common := c2, clr_state := In_Cluster (ic2\<lparr>gossip_handle := h\<rparr>)\<rparr>, rt2, rounds @ out @ nts)"
      by (simp add: cluster_recv_def state_process_def ic_process_def assms(2) run)
    with st mem nm tl ns(1) c1(1) show ?thesis by auto
  qed
qed

subsection \<open>Who sends heartbeats to whom\<close>

text \<open>
  Fact.  Monitoring meets.  For two nodes with the same members, replication factor and cluster
  name: the first keeps a heartbeat receiver for the second exactly when the second counts the first
  among its managers, and then every heartbeat tick of the second sends a heartbeat to the socket of
  the first, addressed to that very receiver.
\<close>

theorem heartbeats_meet:
  assumes "cluster_reach env1 U cl1 rt1 S1" and "clr_state cl1 = In_Cluster ic1"
    and "cluster_reach env2 U cl2 rt2 S2" and "clr_state cl2 = In_Cluster ic2"
    and "env_hash env1 = env_hash env2" and "env_wyrng env1 = env_wyrng env2"
    and "ic_members ic1 = ic_members ic2" and "clr_name (common cl1) = clr_name (common cl2)"
    and "replication_factor (clr_config (common cl1)) = replication_factor (clr_config (common cl2))"
  shows "(ic_charges ic1 (ns_member (common cl2)) \<noteq> None \<longleftrightarrow> ns_member (common cl1) \<in> set (ic_managers ic2)) \<and>
    (\<forall>hbr. ic_charges ic1 (ns_member (common cl2)) = Some hbr \<longrightarrow>
       (\<exists>rt' out. cluster_recv env2 rid Heartbeat_Tick cl2 rt2 = Some (cl2, rt', out) \<and>
          Heartbeat_To (m_socket (ns_member (common cl1)))
            (destination_new (variant_hbr_msg env2) (variant_hbr_msg env2) hbr)
            (hb_interval (clr_config (common cl2))) (hb_interval_changes (common cl2)) \<in> set out))"
proof -
  let ?H = "env_hash env2" and ?W = "env_wyrng env2" and ?m1 = "ns_member (common cl1)" and ?m2 = "ns_member (common cl2)"
  from cluster_reach_cluster_inv[OF assms(1)] assms(2) have i1: "ic_inv env1 U (common cl1) ic1"
    by (simp add: cluster_inv_def)
  from cluster_reach_cluster_inv[OF assms(3)] assms(4) have i2: "ic_inv env2 U (common cl2) ic2"
    by (simp add: cluster_inv_def)
  note d1 = ic_invD[OF i1] and d2 = ic_invD[OF i2]
  have r: "ring_of ?H ?W (ic_members ic2) (ic_ring ic1)" using d1(4) assms(5-7) by simp
  have same: "ic_ring ic1 = ic_ring ic2"
    by (rule ring_of_eqI[OF r d2(4)]) (use d1(5) d2(5) assms(9) in simp)
  have nc: "no_collisions ?H ?W (ic_members ic2)" by (rule node_ring.safe_subset[OF d2(1,2)])
  have m1: "?m1 \<in> ic_members ic2" using d1(3) assms(7) by simp
  have "ic_charges ic1 ?m2 = (if ?m2 \<in> set (charges_of env1 (common cl1) ic1) then Some (hbr_name (common cl1) ?m2) else None)"
    using i1 by (simp add: ic_inv_def)
  moreover have "?m2 \<in> set (charges_of env1 (common cl1) ic1) \<longleftrightarrow> ?m1 \<in> set (managers_of env2 (common cl2) ic2)"
    using node_ring.charges_inverse[OF d2(4) nc m1 d2(3)] same assms(5,6)
    by (simp add: charges_of_def managers_of_def)
  moreover have "ic_managers ic2 = managers_of env2 (common cl2) ic2" using i2 by (simp add: ic_inv_def)
  moreover have "hbr_dest (common cl2) =
      destination_new (variant_hbr_msg env2) (variant_hbr_msg env2) (hbr_name (common cl1) ?m2)"
    using reach_hbr_named[OF assms(3)] assms(8) by (simp add: hbr_named_def hbr_name_def)
  moreover have "\<exists>rt'. cluster_recv env2 rid Heartbeat_Tick cl2 rt2 =
      Some (cl2, rt', map (heartbeat (common cl2)) (ic_managers ic2))"
    using assms(4) by (simp add: cluster_recv_def Let_def)
  ultimately show ?thesis by (auto simp: heartbeat_def image_iff split: if_splits)
qed

subsection \<open>Pings\<close>

text \<open>A run of ping timeouts with nothing else in between.\<close>

fun ping_timeouts ::
    "('u, 's) cluster_env \<Rightarrow> u64 \<Rightarrow> nat \<Rightarrow> ('u, 's, 'f) cluster \<Rightarrow> runtime \<Rightarrow>
     (('u, 's, 'f) cluster \<times> runtime \<times> ('u, 's) cluster_effect list) option" where
  "ping_timeouts env rid 0 cl rt = Some (cl, rt, [])"
| "ping_timeouts env rid (Suc n) cl rt =
     (case cluster_recv env rid Ping_Timeout cl rt of
        None \<Rightarrow> None
      | Some (cl1, rt1, out1) \<Rightarrow>
          (case ping_timeouts env rid n cl1 rt1 of
             None \<Rightarrow> None
           | Some (cl2, rt2, out2) \<Rightarrow> Some (cl2, rt2, out1 @ out2)))"

definition pings_in :: "('u, 's) cluster_effect list \<Rightarrow> ('u, 's) cluster_effect list" where
  "pings_in out = filter (\<lambda>e. case e of To_Sockets _ _ \<Rightarrow> True | _ \<Rightarrow> False) out"

lemma pings_in_simps [simp]:
  "pings_in [] = []" "pings_in (a @ b) = pings_in a @ pings_in b"
  "pings_in (To_Sockets ss m # out) = To_Sockets ss m # pings_in out"
  "pings_in (map (\<lambda>s. Notify s msg) xs) = []"
  by (auto simp: pings_in_def filter_empty_conv)

lemma ping_timeouts_pinging:
  assumes "clr_state cl = Pinging png" "png_count png = of_nat n" "n < 2 ^ 64"
  shows "\<exists>cl' rt' out ic. ping_timeouts env rid (Suc n) cl rt = Some (cl', rt', out) \<and>
     clr_state cl' = In_Cluster ic \<and> ic_members ic = {ns_member (common cl)} \<and>
     pings_in out = replicate n (To_Sockets (seed_nodes (clr_config (common cl))) (Ping (ns_member (common cl))))"
  using assms
proof (induction n arbitrary: cl png rt)
  case 0
  obtain c nts where "notify env (fst (alone env (common cl) rt)) (common cl) [Alone (ns_member (common cl))] = (c, nts)"
    by (cases "notify env (fst (alone env (common cl) rt)) (common cl) [Alone (ns_member (common cl))]")
  moreover from this have "pings_in nts = []"
    by (auto simp: notify_def Let_def)
  ultimately show ?case
    using 0 by (auto simp: cluster_recv_def Let_def create_cluster_def alone_def split: prod.splits)
next
  case (Suc n)
  have nz: "png_count png \<noteq> 0"
    using Suc.prems(2,3) by (simp add: word_of_nat_eq_0_iff nat_dvd_not_less del: of_nat_Suc)
  obtain png' rt' out' where p: "png_ping (common cl) png rt = (png', rt', out')"
    by (cases "png_ping (common cl) png rt")
  then have png': "png_count png' = of_nat n"
    and o': "out' = [To_Sockets (seed_nodes (clr_config (common cl))) (Ping (ns_member (common cl)))]"
    using Suc.prems(2) by (auto simp: png_ping_def split: prod.splits)
  have r: "cluster_recv env rid Ping_Timeout cl rt = Some (cl\<lparr>clr_state := Pinging png'\<rparr>, rt', out')"
    using Suc.prems(1) nz p by (simp add: cluster_recv_def Let_def)
  have lt: "n < 2 ^ 64" using Suc.prems(3) by simp
  from Suc.IH[OF _ png' lt, of "cl\<lparr>clr_state := Pinging png'\<rparr>" rt'] obtain cl2 rt2 out2 ic where
    "ping_timeouts env rid (Suc n) (cl\<lparr>clr_state := Pinging png'\<rparr>) rt' = Some (cl2, rt2, out2)"
    "clr_state cl2 = In_Cluster ic" "ic_members ic = {ns_member (common cl)}"
    "pings_in out2 = replicate n (To_Sockets (seed_nodes (clr_config (common cl))) (Ping (ns_member (common cl))))"
    by auto
  then show ?case by (subst ping_timeouts.simps(2)) (simp add: r o')
qed

text \<open>
  Property C35.  Joining ends.  A node with seeds that hears nothing pings all of them exactly
  \<open>num_pings\<close> times, the first time at its start, and with the timeout of the last ping it forms a
  cluster of its own.
\<close>

theorem pings_then_alone:
  assumes "seed_nodes (clr_config (common cl)) \<noteq> {}" and "num_pings (clr_config (common cl)) = Suc n"
    and "n < 2 ^ 64" and "cluster_pre_start env cl rt = (cl0, rt0, out0)"
  shows "\<exists>cl' rt' out ic. ping_timeouts env rid (Suc n) cl0 rt0 = Some (cl', rt', out) \<and>
     clr_state cl' = In_Cluster ic \<and> ic_members ic = {ns_member (common cl)} \<and>
     pings_in (out0 @ out) =
       replicate (Suc n) (To_Sockets (seed_nodes (clr_config (common cl))) (Ping (ns_member (common cl))))"
proof -
  have "\<exists>h. cl0 = cl\<lparr>clr_state := Pinging \<lparr>png_count = of_nat n, png_timeout = h\<rparr>\<rparr> \<and>
      pings_in out0 = [To_Sockets (seed_nodes (clr_config (common cl))) (Ping (ns_member (common cl)))]"
    using assms(1,2,4) by (auto simp: cluster_pre_start_def png_ping_def split: prod.splits)
  then obtain h where st: "cl0 = cl\<lparr>clr_state := Pinging \<lparr>png_count = of_nat n, png_timeout = h\<rparr>\<rparr>"
    and o0: "pings_in out0 = [To_Sockets (seed_nodes (clr_config (common cl))) (Ping (ns_member (common cl)))]" by blast
  have "\<exists>cl' rt' out ic. ping_timeouts env rid (Suc n) cl0 rt0 = Some (cl', rt', out) \<and>
     clr_state cl' = In_Cluster ic \<and> ic_members ic = {ns_member (common cl0)} \<and>
     pings_in out = replicate n (To_Sockets (seed_nodes (clr_config (common cl0))) (Ping (ns_member (common cl0))))"
    by (rule ping_timeouts_pinging[of cl0 "\<lparr>png_count = of_nat n, png_timeout = h\<rparr>"]) (use st assms(3) in simp_all)
  with st o0 show ?thesis by auto
qed

text \<open>
  Fact.  With seeds and \<open>num_pings = 0\<close> the first ping wraps the counter of pings left to
  \<open>2 ^ 64 - 1\<close>: instead of not pinging at all, the node keeps pinging and never forms its own cluster
  (a debug build panics at its start).
\<close>

theorem zero_pings_wraps:
  assumes "seed_nodes (clr_config (common cl)) \<noteq> {}" and "num_pings (clr_config (common cl)) = 0"
  shows "\<exists>cl' rt' png. cluster_pre_start env cl rt =
       (cl', rt', [To_Sockets (seed_nodes (clr_config (common cl))) (Ping (ns_member (common cl)))]) \<and>
     clr_state cl' = Pinging png \<and> unat (png_count png) = 2 ^ 64 - 1"
  using assms by (auto simp: cluster_pre_start_def png_ping_def unsigned_minus_1_eq_mask mask_eq_exp_minus_1 split: prod.splits)

subsection \<open>The gossip timer\<close>

definition gossip_timers :: "runtime \<Rightarrow> nat" where
  "gossip_timers rt = length (filter (\<lambda>e. fst (snd e) = Gossip_Timer) (pending rt))"

definition handles_ok :: "runtime \<Rightarrow> bool" where
  "handles_ok rt \<longleftrightarrow> distinct (map fst (pending rt)) \<and> (\<forall>e\<in>set (pending rt). fst e < next_handle rt)"

lemma gossip_timers_schedule [simp]:
  "gossip_timers (snd (schedule_gossip_timeout c rt)) = Suc (gossip_timers rt)"
  by (simp add: gossip_timers_def schedule_gossip_timeout_def schedule_def)

lemma gossip_timers_abort_other:
  "h \<notin> fst ` set (pending rt) \<Longrightarrow> gossip_timers (abort h rt) = gossip_timers rt"
proof -
  assume "h \<notin> fst ` set (pending rt)"
  then have "filter (\<lambda>e. fst e \<noteq> h) (pending rt) = pending rt" by (auto simp: filter_id_conv)
  then show ?thesis unfolding gossip_timers_def abort_def by simp
qed

lemma gossip_timers_abort:
  assumes "handles_ok rt" "(h, Gossip_Timer, d) \<in> set (pending rt)"
  shows "gossip_timers rt = Suc (gossip_timers (abort h rt))"
proof -
  from assms(2) obtain xs ys where p: "pending rt = xs @ (h, Gossip_Timer, d) # ys" by (meson split_list)
  with assms(1) have "h \<notin> fst ` set xs" "h \<notin> fst ` set ys" by (auto simp: handles_ok_def)
  then have "filter (\<lambda>e. fst e \<noteq> h) xs = xs" "filter (\<lambda>e. fst e \<noteq> h) ys = ys"
    by (auto simp: filter_id_conv)
  with p show ?thesis by (simp add: gossip_timers_def abort_def)
qed

text \<open>
  Fact.  Gossip timers multiply.  The handler of the gossip timeout schedules the next timeout
  but does not keep its handle, so gossip that arrives afterwards aborts the old, elapsed timer and
  starts one more: each round of a timeout and a gossip message leaves one timer more than before,
  where the actor means to have one.
\<close>

theorem gossip_timers_multiply:
  assumes "cluster_reach env U cl rt S" and "clr_state cl = In_Cluster ic"
    and "handles_ok rt" and "(gossip_handle ic, Gossip_Timer, d) \<in> set (pending rt)"
    and "admissible rid U cl S (Intra_Msg (State_Msg g))"
  shows "\<exists>rt1 out1 cl2 rt2 out2.
     cluster_recv env rid Gossip_Timeout cl (fire (gossip_handle ic) rt) = Some (cl, rt1, out1) \<and>
     cluster_recv env rid (Intra_Msg (State_Msg g)) cl rt1 = Some (cl2, rt2, out2) \<and>
     gossip_timers rt2 = gossip_timers rt + 1"
proof -
  let ?c = "common cl" and ?rt0 = "fire (gossip_handle ic) rt"
  let ?rt1 = "snd (schedule_gossip_timeout ?c ?rt0)"
  from cluster_reach_cluster_inv[OF assms(1)] assms(2) have ii: "ic_inv env U ?c ic" by (simp add: cluster_inv_def)
  from assms(2,5) have g: "gossip_known g \<subseteq> U" "fresh_ok rid U ?c (known ic \<union> gossip_known g)"
    by (simp_all add: admissible_def state_admissible_def)
  have r1: "cluster_recv env rid Gossip_Timeout cl ?rt0 = Some (cl, ?rt1, [gossip_round env ?c ic {}, gossip_reqs env ?c ic])"
    by (simp add: cluster_recv_def Let_def assms(2))
  have t0: "gossip_timers rt = Suc (gossip_timers ?rt0)"
    unfolding fire_def by (rule gossip_timers_abort[OF assms(3,4)])
  have "gossip_handle ic < next_handle rt" using assms(3,4) by (auto simp: handles_ok_def)
  then have notin: "gossip_handle ic \<notin> fst ` set (pending ?rt1)"
    by (auto simp: fire_def abort_def schedule_gossip_timeout_def schedule_def)
  show ?thesis
  proof (rule ic_state_run[OF ii g, of ?rt1])
    fix c1 ic1 ns ic2 out c2 nts h rt2 rounds
    assume s: "schedule_gossip_timeout c2 (abort (gossip_handle ic) ?rt1) = (h, rt2)"
      and run: "ic_state env rid g ?c ic ?rt1 = Some (c2, ic2\<lparr>gossip_handle := h\<rparr>, rt2, rounds @ out @ nts)"
    have "gossip_timers rt2 = Suc (gossip_timers (abort (gossip_handle ic) ?rt1))"
      using gossip_timers_schedule[of c2 "abort (gossip_handle ic) ?rt1"] s by simp
    then have "gossip_timers rt2 = gossip_timers rt + 1"
      using gossip_timers_abort_other[OF notin] t0 by simp
    moreover have "cluster_recv env rid (Intra_Msg (State_Msg g)) cl ?rt1 =
        Some (cl\<lparr>common := c2, clr_state := In_Cluster (ic2\<lparr>gossip_handle := h\<rparr>)\<rparr>, rt2, rounds @ out @ nts)"
      by (simp add: cluster_recv_def state_process_def ic_process_def assms(2) run)
    ultimately show ?thesis using r1 by blast
  qed
qed

end
