(* ===== verification/Cluster_Instances.thy ===== *)
theory Cluster_Instances
  imports Cluster_Contract
begin

text \<open>
  Concrete clusters at which the properties of the cluster actor apply: three members on a small
  ring, a node alone, two nodes that have met, and a node that waits for its seeds.
\<close>

declare One_nat_def [simp del]

definition sample_env :: "(nat, nat) cluster_env" where
  "sample_env = \<lparr>env_hash = m_id, env_wyrng = (\<lambda>k. k + 1), variant_cluster_msg = 0, variant_intra = 1,
     variant_hbr_msg = 2, env_choose = (\<lambda>_ _. {}), env_alive = (\<lambda>_. True)\<rparr>"

definition sample_members :: "member set" where
  "sample_members = {sample_member 1 1, sample_member 2 2, sample_member 5 1}"

definition sample_socket :: socket where
  "sample_socket = Socket (DNS ''localhost'') 5000 0"

definition sample_config :: "nat \<Rightarrow> nat \<Rightarrow> socket set \<Rightarrow> cluster_config" where
  "sample_config vn np seeds =
     default_cluster_config\<lparr>vnodes := of_nat vn, num_pings := np, seed_nodes := seeds\<rparr>"

definition sample_node :: "nat \<Rightarrow> nat \<Rightarrow> nat \<Rightarrow> socket set \<Rightarrow> (nat, nat, nat) cluster" where
  "sample_node i vn np seeds =
     cluster_new sample_env sample_socket ''clr'' [7] sample_fail_map (sample_config vn np seeds) sample_hbr_config (of_nat i)"

definition sample_started :: "nat \<Rightarrow> nat \<Rightarrow> (nat, nat, nat) cluster \<times> runtime \<times> (nat, nat) cluster_effect list" where
  "sample_started i vn = cluster_pre_start sample_env (sample_node i vn 2 {}) \<lparr>next_handle = 0, pending = []\<rparr>"

definition sample_cl :: "nat \<Rightarrow> nat \<Rightarrow> (nat, nat, nat) cluster" where
  "sample_cl i vn = fst (sample_started i vn)"

definition sample_rt :: "nat \<Rightarrow> nat \<Rightarrow> runtime" where
  "sample_rt i vn = fst (snd (sample_started i vn))"

lemma sample_env_simps [simp]:
  "env_hash sample_env = m_id" "env_wyrng sample_env = (\<lambda>k. k + 1)"
  by (simp_all add: sample_env_def)

lemma sample_universe: "no_collisions (env_hash sample_env) (env_wyrng sample_env) sample_members"
  using sample_safe by (simp add: sample_members_def)

lemma sample_node_member: "ns_member (common (sample_node i vn np seeds)) = sample_member i vn"
  by (simp add: sample_node_def cluster_new_def Let_def sample_config_def sample_member_def sample_socket_def)

lemma sample_started_eq:
  "sample_started i vn =
     (let ic = fst (alone sample_env (common (sample_node i vn 2 {})) \<lparr>next_handle = 0, pending = []\<rparr>) in
      (fst (sample_started i vn), fst (snd (sample_started i vn)),
       [Notify 7 \<lparr>cu_events = [Alone (sample_member i vn)], cu_nodes = ic_members ic, cu_ring = ic_ring ic\<rparr>]))
   \<and> clr_state (sample_cl i vn) =
       In_Cluster (fst (alone sample_env (common (sample_node i vn 2 {})) \<lparr>next_handle = 0, pending = []\<rparr>))
   \<and> ns_member (common (sample_cl i vn)) = sample_member i vn
   \<and> clr_config (common (sample_cl i vn)) = clr_config (common (sample_node i vn 2 {}))
   \<and> clr_name (common (sample_cl i vn)) = ''clr''
   \<and> subscribers (common (sample_cl i vn)) = [7]
   \<and> handles_ok (sample_rt i vn)"
  using sample_node_member[of i vn 2 "{}"]
  by (simp add: sample_cl_def sample_rt_def sample_started_def cluster_pre_start_def create_cluster_def notify_def
      sample_node_def cluster_new_def sample_config_def Let_def alone_def spawn_done_def schedule_def
      handles_ok_def sample_env_def clr_name_def destination_new_def)

lemma sample_reach:
  assumes "sample_member i vn \<in> sample_members"
  shows "cluster_reach sample_env sample_members (sample_cl i vn) (sample_rt i vn) {}"
proof -
  obtain cl rt out where st: "sample_started i vn = (cl, rt, out)" by (cases "sample_started i vn")
  have "cluster_reach sample_env sample_members cl rt (spawned out)"
    by (rule cluster_reach.start[OF sample_universe sample_node_def])
      (use assms st in \<open>simp_all add: sample_node_member sample_started_def flip: sample_node_def\<close>)
  moreover have "spawned out = {}"
    using sample_started_eq[of i vn] st by (simp add: Let_def)
  ultimately show ?thesis by (simp add: sample_cl_def sample_rt_def st)
qed

lemma sample_in_cluster:
  "\<exists>ic. clr_state (sample_cl i vn) = In_Cluster ic \<and> ic_members ic = {sample_member i vn} \<and>
     known ic = {sample_member i vn} \<and> rep_factor (ic_ring ic) = 2"
  using sample_started_eq[of i vn] sample_node_member[of i vn 2 "{}"]
  by (auto simp: alone_def spawn_done_def known_def om_get_of_list ring_new_def sample_node_def cluster_new_def
      Let_def sample_config_def default_cluster_config_def split: if_splits)

lemma sample_ping_admissible:
  "m \<in> sample_members \<Longrightarrow> admissible rid sample_members cl {} (Intra_Msg (Ping m))"
  by (simp add: admissible_def state_admissible_def)

lemma sample_member_in [simp]:
  "sample_member 1 1 \<in> sample_members" "sample_member 2 2 \<in> sample_members" "sample_member 5 1 \<in> sample_members"
  by (simp_all add: sample_members_def)

lemma sample_fresh: "fresh_self 5 (common (sample_cl 1 1)) = sample_member 5 1"
  using sample_started_eq[of 1 1] by (simp add: fresh_self_def sample_member_def)

lemma sample_gossip_admissible:
  assumes "gossip_known g \<subseteq> {sample_member 1 1, sample_member 2 2}"
  shows "admissible 5 sample_members (sample_cl 1 1) {} (Intra_Msg (State_Msg g))"
proof -
  obtain ic where "clr_state (sample_cl 1 1) = In_Cluster ic" "known ic = {sample_member 1 1}"
    using sample_in_cluster by blast
  with assms show ?thesis
    using sample_distinct
    by (auto simp: admissible_def state_admissible_def fresh_ok_def sample_fresh sample_members_def)
qed

theorem cluster_never_panics_witness:
  "cluster_recv sample_env 0 (Intra_Msg (Ping (sample_member 2 2))) (sample_cl 1 1) (sample_rt 1 1) \<noteq> None"
  by (rule cluster_never_panics[OF sample_reach sample_ping_admissible]) simp_all

theorem cluster_consistent_witness:
  "\<exists>ic. clr_state (sample_cl 1 1) = In_Cluster ic \<and>
     ring_of m_id (\<lambda>k. k + 1) {sample_member 1 1} (ic_ring ic) \<and> {sample_member 1 1} = up_members (ic_gossip ic)"
proof -
  obtain ic where ic: "clr_state (sample_cl 1 1) = In_Cluster ic" "ic_members ic = {sample_member 1 1}"
    using sample_in_cluster by blast
  from cluster_consistent[OF sample_reach ic(1)] ic show ?thesis by auto
qed

theorem subscribers_see_changes_witness:
  "\<exists>cl' rt' out ic' es. cluster_recv sample_env 0 (Intra_Msg (Ping (sample_member 2 2))) (sample_cl 1 1) (sample_rt 1 1) =
       Some (cl', rt', out) \<and> clr_state cl' = In_Cluster ic' \<and>
     ic_members ic' = ({sample_member 1 1} - {m. Removed m \<in> set es}) \<union> {m. Added m \<in> set es} \<union> {m. Joined m \<in> set es}"
proof -
  obtain ic where ic: "clr_state (sample_cl 1 1) = In_Cluster ic" "ic_members ic = {sample_member 1 1}"
    using sample_in_cluster by blast
  note r = sample_reach[OF sample_member_in(1)]
  have adm: "admissible 0 sample_members (sample_cl 1 1) {} (Intra_Msg (Ping (sample_member 2 2)))"
    by (rule sample_ping_admissible) simp
  from cluster_recv_inv[OF cluster_reach_cluster_inv[OF r] adm] obtain cl' rt' out where
    run: "cluster_recv sample_env 0 (Intra_Msg (Ping (sample_member 2 2))) (sample_cl 1 1) (sample_rt 1 1) = Some (cl', rt', out)"
    by blast
  from subscribers_see_changes[OF r adm ic(1) run] run ic(2) show ?thesis by auto
qed

theorem downed_node_rejoins_witness:
  "\<exists>cl' rt' out. cluster_recv sample_env 5
       (Intra_Msg (State_Msg \<lparr>states = om_of_list [(sample_member 1 1, Down)]\<rparr>)) (sample_cl 1 1) (sample_rt 1 1) =
       Some (cl', rt', out) \<and> ns_member (common cl') = sample_member 5 1"
proof -
  let ?g = "\<lparr>states = om_of_list [(sample_member 1 1, Down)]\<rparr>"
  obtain ic where ic: "clr_state (sample_cl 1 1) = In_Cluster ic" using sample_in_cluster by blast
  have "gossip_known ?g \<subseteq> {sample_member 1 1, sample_member 2 2}"
    by (auto simp: gossip_known_def om_get_of_list split: if_splits)
  note adm = sample_gossip_admissible[OF this]
  have "om_get (states ?g) (ns_member (common (sample_cl 1 1))) = Some Down"
    using sample_started_eq[of 1 1] by (simp add: om_get_of_list)
  from downed_node_rejoins[OF sample_reach ic adm this] show ?thesis by (auto simp: sample_fresh)
qed

theorem down_is_final_witness:
  "\<exists>cl' rt' out ic'. cluster_recv sample_env 5
       (Intra_Msg (State_Msg \<lparr>states = om_of_list [(sample_member 1 1, Down)]\<rparr>)) (sample_cl 1 1) (sample_rt 1 1) =
       Some (cl', rt', out) \<and> clr_state cl' = In_Cluster ic' \<and>
     om_get (states (ic_gossip ic')) (sample_member 1 1) \<noteq> None"
proof -
  let ?g = "\<lparr>states = om_of_list [(sample_member 1 1, Down)]\<rparr>"
  obtain ic where ic: "clr_state (sample_cl 1 1) = In_Cluster ic" "known ic = {sample_member 1 1}"
    using sample_in_cluster by blast
  note r = sample_reach[OF sample_member_in(1)]
  have "gossip_known ?g \<subseteq> {sample_member 1 1, sample_member 2 2}"
    by (auto simp: gossip_known_def om_get_of_list split: if_splits)
  note adm = sample_gossip_admissible[OF this]
  from cluster_recv_inv[OF cluster_reach_cluster_inv[OF r] adm] obtain cl' rt' out where
    run: "cluster_recv sample_env 5 (Intra_Msg (State_Msg ?g)) (sample_cl 1 1) (sample_rt 1 1) = Some (cl', rt', out)"
    by blast
  have "om_get (states (ic_gossip ic)) (sample_member 1 1) \<noteq> None" using ic(2) by (auto simp: known_def)
  then obtain s where "om_get (states (ic_gossip ic)) (sample_member 1 1) = Some s" by blast
  with down_is_final[OF r adm ic(1) run] run show ?thesis
    by (metis less_eq_option_Some_None)
qed

lemma recv_new_ping:
  assumes inv: "cluster_inv env U cl S" and ic: "clr_state cl = In_Cluster ic"
    and m: "m \<in> U" "om_get (states (ic_gossip ic)) m = None"
  shows "\<exists>cl' rt' out ic'. cluster_recv env rid (Intra_Msg (Ping m)) cl rt = Some (cl', rt', out) \<and>
     clr_state cl' = In_Cluster ic' \<and> ic_members ic' = insert m (ic_members ic) \<and>
     same_node (common cl) (common cl') \<and> ns_member (common cl') = ns_member (common cl) \<and>
     clr_name (common cl') = clr_name (common cl)"
proof -
  from inv ic have ii: "ic_inv env U (common cl) ic" by (simp add: cluster_inv_def)
  have "handler_ok env U (common cl) ic (ic_ping env m (common cl) ic rt)" by (rule ic_ping_ok[OF ii m(1)])
  then obtain c' ic' rt' out where p: "ic_ping env m (common cl) ic rt = Some (c', ic', rt', out)"
    and sn: "same_node (common cl) c'" unfolding handler_ok_def by blast
  have "ic_members ic' = insert m (ic_members ic) \<and> ns_member c' = ns_member (common cl)"
    using p m(2) by (auto simp: ic_ping_def Let_def split: option.splits prod.splits
        dest: update_frame notify_state)
  moreover have "clr_name c' = clr_name (common cl)" using sn by (simp add: same_node_def clr_name_def)
  ultimately show ?thesis
    using p sn ic by (simp add: cluster_recv_def state_process_def ic_process_def)
qed

text \<open>Two nodes that have met: each has the other's ping.\<close>

lemma sample_met:
  assumes i: "sample_member i vn \<in> sample_members" and m: "m \<in> sample_members" "m \<noteq> sample_member i vn"
  obtains cl :: "(nat, nat, nat) cluster" and rt S ic where
    "cluster_reach sample_env sample_members cl rt S" "clr_state cl = In_Cluster ic"
    "ic_members ic = {sample_member i vn, m}" "ns_member (common cl) = sample_member i vn"
    "clr_name (common cl) = ''clr''" "replication_factor (clr_config (common cl)) = 2"
proof -
  obtain ic where ic: "clr_state (sample_cl i vn) = In_Cluster ic" "ic_members ic = {sample_member i vn}"
      "known ic = {sample_member i vn}"
    using sample_in_cluster by blast
  note r = sample_reach[OF i]
  have "om_get (states (ic_gossip ic)) m = None" using ic(3) m(2) by (auto simp: known_def)
  from recv_new_ping[OF cluster_reach_cluster_inv[OF r] ic(1) m(1) this, of 0 "sample_rt i vn"]
  obtain cl rt out ic' where run: "cluster_recv sample_env 0 (Intra_Msg (Ping m)) (sample_cl i vn) (sample_rt i vn) = Some (cl, rt, out)"
    and st: "clr_state cl = In_Cluster ic'" "ic_members ic' = insert m (ic_members ic)"
      "same_node (common (sample_cl i vn)) (common cl)" "ns_member (common cl) = ns_member (common (sample_cl i vn))"
      "clr_name (common cl) = clr_name (common (sample_cl i vn))"
    by blast
  have adm: "admissible 0 sample_members (sample_cl i vn) {} (Intra_Msg (Ping m))"
    by (rule sample_ping_admissible[OF m(1)])
  have "clr_config (common (sample_cl i vn)) = sample_config vn 2 {}"
    using sample_started_eq[of i vn] by (simp add: sample_node_def cluster_new_def Let_def sample_config_def)
  then have "replication_factor (clr_config (common cl)) = 2"
    using st(3) by (simp add: same_node_def sample_config_def default_cluster_config_def)
  moreover have "ic_members ic' = {sample_member i vn, m}" using st(2) ic(2) by auto
  moreover have "ns_member (common cl) = sample_member i vn" "clr_name (common cl) = ''clr''"
    using st(4,5) sample_started_eq[of i vn] by simp_all
  ultimately show thesis
    using that[OF cluster_reach.recv[OF r adm run] st(1)] by blast
qed

theorem heartbeats_meet_witness:
  "\<exists>(cl1 :: (nat, nat, nat) cluster) rt1 S1 ic1 (cl2 :: (nat, nat, nat) cluster) rt2 S2 ic2.
     cluster_reach sample_env sample_members cl1 rt1 S1 \<and> clr_state cl1 = In_Cluster ic1 \<and>
     cluster_reach sample_env sample_members cl2 rt2 S2 \<and> clr_state cl2 = In_Cluster ic2 \<and>
     ns_member (common cl1) \<noteq> ns_member (common cl2) \<and>
     (ic_charges ic1 (ns_member (common cl2)) \<noteq> None \<longleftrightarrow> ns_member (common cl1) \<in> set (ic_managers ic2))"
proof (rule sample_met[OF sample_member_in(1,2) sample_distinct(1)[symmetric]])
  fix cl1 :: "(nat, nat, nat) cluster" and rt1 S1 ic1
  assume a: "cluster_reach sample_env sample_members cl1 rt1 S1" "clr_state cl1 = In_Cluster ic1"
      "ic_members ic1 = {sample_member 1 1, sample_member 2 2}" "ns_member (common cl1) = sample_member 1 1"
      "clr_name (common cl1) = ''clr''" "replication_factor (clr_config (common cl1)) = 2"
  obtain cl2 :: "(nat, nat, nat) cluster" and rt2 S2 ic2 where
      b: "cluster_reach sample_env sample_members cl2 rt2 S2" "clr_state cl2 = In_Cluster ic2"
      "ic_members ic2 = {sample_member 2 2, sample_member 1 1}" "ns_member (common cl2) = sample_member 2 2"
      "clr_name (common cl2) = ''clr''" "replication_factor (clr_config (common cl2)) = 2"
    by (rule sample_met[OF sample_member_in(2,1) sample_distinct(1)])
  have eq: "ic_members ic1 = ic_members ic2" using a(3) b(3) by auto
  have names: "clr_name (common cl1) = clr_name (common cl2)"
    and reps: "replication_factor (clr_config (common cl1)) = replication_factor (clr_config (common cl2))"
    using a(5,6) b(5,6) by simp_all
  have ne: "ns_member (common cl1) \<noteq> ns_member (common cl2)" using a(4) b(4) sample_distinct(1) by simp
  note meet = conjunct1[OF heartbeats_meet[OF a(1,2) b(1,2) refl refl eq names reps]]
  show ?thesis by (intro exI conjI) (rule a(1), rule a(2), rule b(1), rule b(2), rule ne, rule meet)
qed

theorem update_charges_managers_diff_witness:
  "\<exists>c ic ic' out. ic_members ic = {sample_member 1 1, sample_member 2 2} \<and>
     update_charges_managers sample_env (c :: (nat, nat, nat) node_state) ic = Some (ic', out) \<and>
     dom (ic_charges ic') = set (charges_of sample_env c ic)"
proof (rule sample_met[OF sample_member_in(1,2) sample_distinct(1)[symmetric]])
  fix cl :: "(nat, nat, nat) cluster" and rt S ic
  assume a: "cluster_reach sample_env sample_members cl rt S"
      "clr_state cl = In_Cluster ic" "ic_members ic = {sample_member 1 1, sample_member 2 2}"
  have "ring_ok sample_env sample_members (common cl) ic"
    using cluster_reach_cluster_inv[OF a(1)] a(2) by (simp add: cluster_inv_def ic_inv_def)
  from update_charges_managers_diff[OF this] obtain ic' out where
    "update_charges_managers sample_env (common cl) ic = Some (ic', out)"
    "dom (ic_charges ic') = set (charges_of sample_env (common cl) ic)" by blast
  with a(3) show ?thesis by blast
qed

lemma sample_pinging:
  "seed_nodes (clr_config (common (sample_node 1 1 np {Socket (DNS ''seed'') 5001 0}))) \<noteq> {}"
  "num_pings (clr_config (common (sample_node 1 1 np {Socket (DNS ''seed'') 5001 0}))) = np"
  by (simp_all add: sample_node_def cluster_new_def Let_def sample_config_def sample_socket_def)

theorem pings_then_alone_witness:
  "\<exists>cl0 rt0 out0 cl' rt' out ic.
     cluster_pre_start sample_env (sample_node 1 1 2 {Socket (DNS ''seed'') 5001 0}) \<lparr>next_handle = 0, pending = []\<rparr> =
       (cl0, rt0, out0) \<and>
     ping_timeouts sample_env 0 2 cl0 rt0 = Some (cl', rt', out) \<and> clr_state cl' = In_Cluster ic \<and>
     length (pings_in (out0 @ out)) = 2"
proof -
  obtain cl0 rt0 out0 where p: "cluster_pre_start sample_env (sample_node 1 1 2 {Socket (DNS ''seed'') 5001 0})
      \<lparr>next_handle = 0, pending = []\<rparr> = (cl0, rt0, out0)"
    by (rule prod_cases3)
  have two: "num_pings (clr_config (common (sample_node 1 1 2 {Socket (DNS ''seed'') 5001 0}))) = Suc 1"
    by (simp add: sample_pinging(2))
  obtain cl' rt' out ic where
    q: "ping_timeouts sample_env 0 (Suc 1) cl0 rt0 = Some (cl', rt', out)" "clr_state cl' = In_Cluster ic"
      "pings_in (out0 @ out) = replicate (Suc 1) (To_Sockets (seed_nodes (clr_config (common
          (sample_node 1 1 2 {Socket (DNS ''seed'') 5001 0})))) (Ping (ns_member (common
          (sample_node 1 1 2 {Socket (DNS ''seed'') 5001 0})))))"
    using pings_then_alone[OF sample_pinging(1) two _ p, of 0] by auto
  have "ping_timeouts sample_env 0 2 cl0 rt0 = Some (cl', rt', out)"
    using q(1) by (simp only: Suc_1)
  moreover have "length (pings_in (out0 @ out)) = 2" unfolding q(3) by simp
  moreover note q(2)
  ultimately have "\<exists>cl' rt' out ic. ping_timeouts sample_env 0 2 cl0 rt0 = Some (cl', rt', out) \<and>
      clr_state cl' = In_Cluster ic \<and> length (pings_in (out0 @ out)) = 2" by blast
  with p show ?thesis by blast
qed

theorem zero_pings_wraps_witness:
  "\<exists>cl' rt' out png. cluster_pre_start sample_env (sample_node 1 1 0 {Socket (DNS ''seed'') 5001 0})
      \<lparr>next_handle = 0, pending = []\<rparr> = (cl', rt', out) \<and>
     clr_state cl' = Pinging png \<and> unat (png_count png) = 2 ^ 64 - 1"
  using zero_pings_wraps[OF sample_pinging(1)[of 0] sample_pinging(2)[of 0], of sample_env "\<lparr>next_handle = 0, pending = []\<rparr>"]
  by blast

lemma handles_ok_abort: "handles_ok rt \<Longrightarrow> handles_ok (abort h rt)"
  by (auto simp: handles_ok_def abort_def distinct_map_filter)

lemma handles_ok_schedule: "handles_ok rt \<Longrightarrow> schedule t d rt = (h, rt') \<Longrightarrow> handles_ok rt' \<and> (h, t, d) \<in> set (pending rt')"
  by (fastforce simp: handles_ok_def schedule_def)

theorem gossip_timers_multiply_witness:
  "\<exists>cl rt S h rt1 out1 g cl2 rt2 out2. cluster_reach sample_env sample_members (cl :: (nat, nat, nat) cluster) rt S \<and>
     cluster_recv sample_env 5 Gossip_Timeout cl (fire h rt) = Some (cl, rt1, out1) \<and>
     cluster_recv sample_env 5 (Intra_Msg (State_Msg g)) cl rt1 = Some (cl2, rt2, out2) \<and>
     gossip_timers rt2 = gossip_timers rt + 1"
proof -
  let ?g = "\<lparr>states = om_of_list [(sample_member 2 2, Up)]\<rparr>"
  obtain ic where ic: "clr_state (sample_cl 1 1) = In_Cluster ic" "known ic = {sample_member 1 1}"
    using sample_in_cluster by blast
  note r = sample_reach[OF sample_member_in(1)]
  have kg: "gossip_known ?g = {sample_member 2 2}" by (auto simp: gossip_known_def om_get_of_list split: if_splits)
  have adm: "admissible 5 sample_members (sample_cl 1 1) {} (Intra_Msg (State_Msg ?g))"
    by (rule sample_gossip_admissible) (simp add: kg)
  let ?c = "common (sample_cl 1 1)"
  have ii: "ic_inv sample_env sample_members ?c ic"
    using cluster_reach_cluster_inv[OF r] ic(1) by (simp add: cluster_inv_def)
  have g: "gossip_known ?g \<subseteq> sample_members" "fresh_ok 5 sample_members ?c (known ic \<union> gossip_known ?g)"
    using adm ic(1) by (simp_all add: admissible_def state_admissible_def)
  show ?thesis
  proof (rule ic_state_run[OF ii g, of "sample_rt 1 1"])
    fix c1 ic1 ns ic2 out c2 nts h rt2 rounds
    assume mw: "merged_with sample_env 5 ?g ?c ic c1 ic1 ns"
      and kn: "known ic1 = known ic \<union> gossip_known ?g \<union> {ns_member c1}"
      and fr: "ic_gossip ic2 = ic_gossip ic1"
      and n: "notify sample_env ic2 c1 (snd (gossip_merge (ic_gossip ic) ?g) @
        (case ns of Some e \<Rightarrow> [e] | None \<Rightarrow> [])) = (c2, nts)"
      and s: "schedule_gossip_timeout c2 (abort (gossip_handle ic) (sample_rt 1 1)) = (h, rt2)"
      and run: "ic_state sample_env 5 ?g ?c ic (sample_rt 1 1) =
        Some (c2, ic2\<lparr>gossip_handle := h\<rparr>, rt2, rounds @ out @ nts)"
    let ?cl = "(sample_cl 1 1)\<lparr>common := c2, clr_state := In_Cluster (ic2\<lparr>gossip_handle := h\<rparr>)\<rparr>"
    have rv: "cluster_recv sample_env 5 (Intra_Msg (State_Msg ?g)) (sample_cl 1 1) (sample_rt 1 1) =
        Some (?cl, rt2, rounds @ out @ nts)"
      by (simp add: cluster_recv_def state_process_def ic_process_def ic(1) run)
    from cluster_reach.recv[OF r adm rv] have reach: "cluster_reach sample_env sample_members ?cl rt2 (spawned (rounds @ out @ nts))"
      by simp
    have me: "ns_member ?c = sample_member 1 1" using sample_started_eq[of 1 1] by simp
    have "om_get (states ?g) (sample_member 1 1) = None"
      using sample_distinct by (simp add: om_get_of_list)
    then have "Removed (ns_member ?c) \<notin> set (snd (gossip_merge (ic_gossip ic) ?g))"
      by (simp add: set_merge_events me)
    then have c1: "c1 = ?c" using mw by (simp add: merged_with_def Let_def)
    have c2: "ns_member c2 = ns_member ?c" using notify_state(1)[OF n] c1 by simp
    have "known (ic2\<lparr>gossip_handle := h\<rparr>) = {sample_member 1 1, sample_member 2 2}"
      using kn ic(2) kg c1 me fr by (auto simp: known_def)
    moreover have "fresh_self 5 c2 = sample_member 5 1" using sample_fresh c2 by (simp add: fresh_self_def)
    ultimately have adm2: "admissible 5 sample_members ?cl (spawned (rounds @ out @ nts)) (Intra_Msg (State_Msg ?g))"
      using sample_distinct by (auto simp: admissible_def state_admissible_def fresh_ok_def kg sample_members_def)
    have "handles_ok (sample_rt 1 1)" using sample_started_eq[of 1 1] by simp
    from handles_ok_schedule[OF handles_ok_abort[OF this] s[unfolded schedule_gossip_timeout_def]]
    have h: "handles_ok rt2" "(h, Gossip_Timer, gossip_timeout (clr_config c2)) \<in> set (pending rt2)" by auto
    have st: "clr_state ?cl = In_Cluster (ic2\<lparr>gossip_handle := h\<rparr>)" by simp
    have t: "(gossip_handle (ic2\<lparr>gossip_handle := h\<rparr>), Gossip_Timer, gossip_timeout (clr_config c2)) \<in> set (pending rt2)"
      using h(2) by simp
    from gossip_timers_multiply[OF reach st h(1) t adm2] reach show ?thesis by blast
  qed
qed

end
