(* ===== verification/Causal.thy ===== *)
theory Causal
  imports Cluster Devices_State "HOL-Library.Product_Lexorder"
begin

text \<open>
  The dispersal of replicated data (cluster/crdt/causal.rs), after algorithm 2 of Almeida, Shoker and
  Baquero: every replica numbers the changes of its data, keeps the deltas that some other replica has
  not acknowledged, sends their join, or all of its data, to the members that are behind, and
  acknowledges what it receives.  Handlers return \<open>None\<close> where the code panics: an unwrap of a missing
  acknowledgement or delta, a failed assertion, an event that cannot occur.

  The CRDT is a parameter, as in the code.  \<open>causal_env\<close> holds what the handlers take from outside:
  the order in which a hash set of members is iterated and whether a subscriber's mailbox is open.
\<close>

subsection \<open>Messages and state\<close>

datatype 's causal_intra = Delta 's u64 u64 | Ack u64 u64

datatype dispersal_selector = Out_Of_Date | All

record dispersal_preference =
  priority :: "member set"
  amount :: u32
  dp_selector :: dispersal_selector
  dp_timeout :: duration

definition default_preference :: dispersal_preference where
  "default_preference =
     \<lparr>priority = {}, amount = 1, dp_selector = Out_Of_Date, dp_timeout = from_millis 50\<rparr>"

datatype ('d, 'r) causal_cmd = Mutate 'd | Subscribe_Data 'r | Set_Preference dispersal_preference

datatype ('s, 'd, 'r) causal_msg =
    Causal_Cmd "('d, 'r) causal_cmd"
  | Causal_Intra "'s causal_intra"
  | Causal_Update cluster_update
  | Disperse_Timeout

datatype ('s, 'r) causal_effect =
    Send_Intra socket "'s causal_intra"
  | Publish 'r 's
  | Schedule_Disperse duration
  | Subscribe_Cluster

record 'r causal_env =
  ce_iter :: "member set \<Rightarrow> member list"
  ce_alive :: "'r \<Rightarrow> bool"

type_synonym ack_map = "u64 \<Rightarrow> (member \<times> u64) option"

type_synonym ack_order = "(u64 \<times> u64, unit) omap"

record 's causal_ic =
  cdata :: 's
  cclock :: u64
  cmember :: member
  ccluster :: "member set"
  deltas :: "'s list"
  acks :: ack_map
  ord_acks :: ack_order
  min_ord :: u64
  min_delta :: u64

record 'd waiting =
  ops_queue :: "'d list"

datatype ('s, 'd) causal_state = Replica "'s causal_ic" | Waiting "'d waiting"

record ('u, 'r) causal_common =
  causal_dest :: "'u destination"
  csubscribers :: "'r list"
  preference :: dispersal_preference

record ('s, 'd, 'u, 'r) causal =
  ccommon :: "('u, 'r) causal_common"
  cstate :: "('s, 'd) causal_state"

subsection \<open>Dispersal\<close>

text \<open>
  The lazy pipeline over the acknowledgements in ascending order: members with priority are skipped,
  at most \<open>n\<close> are taken, and an entry that is reached must be in the map.
\<close>

fun take_behind :: "member set \<Rightarrow> ack_map \<Rightarrow> nat \<Rightarrow> (u64 \<times> u64) list \<Rightarrow> (member \<times> u64) list option" where
  "take_behind pri am 0 xs = Some []"
| "take_behind pri am (Suc n) [] = Some []"
| "take_behind pri am (Suc n) (x # xs) =
     (case am (snd x) of
        None \<Rightarrow> None
      | Some e \<Rightarrow>
          (if fst e \<in> pri then take_behind pri am (Suc n) xs
           else map_option (Cons e) (take_behind pri am n xs)))"

fun look_up_all :: "ack_map \<Rightarrow> u64 list \<Rightarrow> (member \<times> u64) list option" where
  "look_up_all am [] = Some []"
| "look_up_all am (i # is) =
     (case am i of None \<Rightarrow> None | Some e \<Rightarrow> map_option (Cons e) (look_up_all am is))"

definition disperse ::
    "('s, 'd) crdt_trait \<Rightarrow> 'r causal_env \<Rightarrow> ('u, 'r) causal_common \<Rightarrow> 's causal_ic \<Rightarrow>
     ('s, 'r) causal_effect list option" where
  "disperse C env c ic =
     (case (case dp_selector (preference c) of
              Out_Of_Date \<Rightarrow>
                take_behind (priority (preference c)) (acks ic) (unat (amount (preference c))) (om_keys (ord_acks ic))
            | All \<Rightarrow> look_up_all (acks ic) (map snd (om_keys (ord_acks ic)))) of
        None \<Rightarrow> None
      | Some to_send \<Rightarrow>
          (let delta_msg = Delta (foldl (crdt_join C) (crdt_minimum C) (deltas ic)) (m_id (cmember ic)) (cclock ic);
               full_msg = Delta (cdata ic) (m_id (cmember ic)) (cclock ic) in
           (case look_up_all (acks ic) (map m_id (ce_iter env (priority (preference c)))) of
              None \<Rightarrow> None
            | Some first \<Rightarrow>
                Some (map (\<lambda>(m, cnt). Send_Intra (m_socket m) (if cnt < min_delta ic then full_msg else delta_msg))
                    (filter (\<lambda>(_, cnt). cnt < cclock ic) (first @ to_send)) @
                  [Schedule_Disperse (dp_timeout (preference c))]))))"

definition publish ::
    "'r causal_env \<Rightarrow> 's causal_ic \<Rightarrow> ('u, 'r) causal_common \<Rightarrow> ('u, 'r) causal_common \<times> ('s, 'r) causal_effect list" where
  "publish env ic c =
     (c\<lparr>csubscribers := filter (ce_alive env) (csubscribers c)\<rparr>,
      map (\<lambda>r. Publish r (cdata ic)) (csubscribers c))"

subsection \<open>Handlers of a replica\<close>

definition pop_front :: "nat \<Rightarrow> 's list \<Rightarrow> 's list option" where
  "pop_front n ds = (if n \<le> length ds then Some (drop n ds) else None)"

definition first_ack :: "ack_order \<Rightarrow> u64 option" where
  "first_ack ord = (case om_keys ord of [] \<Rightarrow> None | x # _ \<Rightarrow> Some (fst x))"

definition causal_ack :: "u64 \<Rightarrow> u64 \<Rightarrow> 's causal_ic \<Rightarrow> 's causal_ic option" where
  "causal_ack i clk ic =
     (case opt_filter (\<lambda>e. snd e < clk) (acks ic i) of
        None \<Rightarrow> Some ic
      | Some (m, cnt) \<Rightarrow>
          (if om_get (ord_acks ic) (cnt, i) = None then None
           else
             (let ord1 = om_insert (clk, i) () (om_remove (cnt, i) (ord_acks ic)) in
              case first_ack ord1 of
                None \<Rightarrow> None
              | Some mo \<Rightarrow>
                  (case pop_front (unat mo - unat (min_delta ic)) (deltas ic) of
                     None \<Rightarrow> None
                   | Some ds \<Rightarrow>
                       Some (ic\<lparr>deltas := ds, acks := (acks ic)(i \<mapsto> (m, clk)), ord_acks := ord1,
                         min_ord := mo, min_delta := max (min_delta ic) mo\<rparr>)))))"

type_synonym ('s, 'u, 'r) replica_result =
  "('s causal_ic \<times> ('u, 'r) causal_common \<times> ('s, 'r) causal_effect list) option"

text \<open>The common end of a local change and of a received one.\<close>

definition changed ::
    "('s, 'd) crdt_trait \<Rightarrow> 'r causal_env \<Rightarrow> ('u, 'r) causal_common \<Rightarrow> 's \<Rightarrow> 's \<Rightarrow> 's causal_ic \<Rightarrow>
     ('s, 'u, 'r) replica_result" where
  "changed C env c new d ic =
     (let ic1 = ic\<lparr>cdata := new, deltas := deltas ic @ [d], cclock := cclock ic + 1\<rparr> in
      case disperse C env c ic1 of
        None \<Rightarrow> None
      | Some out \<Rightarrow> (case publish env ic1 c of (c', pubs) \<Rightarrow> Some (ic1, c', out @ pubs)))"

definition causal_op ::
    "('s, 'd) crdt_trait \<Rightarrow> 'r causal_env \<Rightarrow> ('u, 'r) causal_common \<Rightarrow> 'd \<Rightarrow> 's causal_ic \<Rightarrow>
     ('s, 'u, 'r) replica_result" where
  "causal_op C env c op ic =
     (let d = crdt_apply C op (cdata ic) in
      if \<not> crdt_empty C d then changed C env c (crdt_join C (cdata ic) d) d ic
      else Some (ic, c, []))"

definition causal_delta ::
    "('s, 'd) crdt_trait \<Rightarrow> 'r causal_env \<Rightarrow> ('u, 'r) causal_common \<Rightarrow> 's \<Rightarrow> u64 \<Rightarrow> u64 \<Rightarrow> 's causal_ic \<Rightarrow>
     ('s, 'u, 'r) replica_result" where
  "causal_delta C env c delta i clk ic =
     (case acks ic i of
        None \<Rightarrow> Some (ic, c, [])
      | Some (m, _) \<Rightarrow>
          (let reply = Send_Intra (m_socket m) (Ack (m_id (cmember ic)) clk);
               new_state = crdt_join C (cdata ic) delta in
           if new_state \<noteq> cdata ic then
             map_option (\<lambda>(ic', c', out). (ic', c', reply # out)) (changed C env c new_state delta ic)
           else Some (ic, c, [reply])))"

text \<open>The loop over the events of an update; the flag is \<open>disperse\<close>.\<close>

fun causal_events :: "cluster_event list \<Rightarrow> 's causal_ic \<times> bool \<Rightarrow> ('s causal_ic \<times> bool) option" where
  "causal_events [] st = Some st"
| "causal_events (e # es) (ic, dis) =
     (case e of
        Alone m \<Rightarrow> causal_events es (ic\<lparr>cmember := m\<rparr>, dis)
      | Joined m \<Rightarrow> causal_events es (ic\<lparr>cmember := m\<rparr>, dis)
      | Removed m \<Rightarrow>
          (if m_id m \<noteq> m_id (cmember ic) then
             (case acks ic (m_id m) of
                None \<Rightarrow> None
              | Some (_, cnt) \<Rightarrow>
                  (if om_get (ord_acks ic) (cnt, m_id m) = None then None
                   else
                     (let ord1 = om_remove (cnt, m_id m) (ord_acks ic) in
                      causal_events es
                        (ic\<lparr>acks := (acks ic)(m_id m := None), ord_acks := ord1,
                           min_ord := unwrap_or (first_ack ord1) 0\<rparr>, True))))
           else causal_events es (ic, dis))
      | Added m \<Rightarrow>
          causal_events es
            (ic\<lparr>ord_acks := om_insert (0, m_id m) () (ord_acks ic), acks := (acks ic)(m_id m \<mapsto> (m, 0)), min_ord := 0\<rparr>, True)
      | Left_Cluster \<Rightarrow> None)"

definition causal_update ::
    "('s, 'd) crdt_trait \<Rightarrow> 'r causal_env \<Rightarrow> ('u, 'r) causal_common \<Rightarrow> cluster_update \<Rightarrow> 's causal_ic \<Rightarrow>
     ('s, 'u, 'r) replica_result" where
  "causal_update C env c u ic =
     (case causal_events (cu_events u) (ic, False) of
        None \<Rightarrow> None
      | Some (ic1, dis) \<Rightarrow>
          (let ic2 = ic1\<lparr>ccluster := cu_nodes u - {cmember ic1}\<rparr> in
           if dis then map_option (\<lambda>out. (ic2, c, out)) (disperse C env c ic2)
           else Some (ic2, c, [])))"

subsection \<open>Becoming a replica\<close>

definition to_ic :: "('s, 'd) crdt_trait \<Rightarrow> 'r causal_env \<Rightarrow> 'd waiting \<Rightarrow> member \<Rightarrow> member set \<Rightarrow> 's causal_ic" where
  "to_ic C env w m nodes =
     (let init = foldl (\<lambda>s op. crdt_join C s (crdt_apply C op s)) (crdt_minimum C) (ops_queue w);
          nodes = nodes - {m};
          ms = ce_iter env nodes in
      \<lparr>cdata = init, cclock = (if crdt_empty C init then 0 else 1), cmember = m, ccluster = nodes,
       deltas = (if crdt_empty C init then [] else [init]),
       acks = fold (\<lambda>n am. am(m_id n \<mapsto> (n, 0))) ms (\<lambda>_. None),
       ord_acks = om_of_list (map (\<lambda>n. ((0, m_id n), ())) ms),
       min_ord = 0, min_delta = 0\<rparr>)"

definition causal_new :: "'u \<Rightarrow> 'u \<Rightarrow> string \<Rightarrow> 'r list \<Rightarrow> dispersal_preference \<Rightarrow> ('s, 'd, 'u, 'r) causal" where
  "causal_new v_msg v_intra name subrs pref =
     \<lparr>ccommon = \<lparr>causal_dest = destination_new v_msg v_intra name, csubscribers = subrs,
        preference = pref\<rparr>,
      cstate = Waiting \<lparr>ops_queue = []\<rparr>\<rparr>"

definition causal_pre_start :: "('s, 'r) causal_effect list" where
  "causal_pre_start = [Subscribe_Cluster]"

subsection \<open>The actor\<close>

type_synonym ('s, 'd, 'u, 'r) causal_result =
  "(('s, 'd, 'u, 'r) causal \<times> ('s, 'r) causal_effect list) option"

definition with_replica ::
    "('s, 'd, 'u, 'r) causal \<Rightarrow> ('s, 'u, 'r) replica_result \<Rightarrow> ('s, 'd, 'u, 'r) causal_result" where
  "with_replica a res = map_option (\<lambda>(ic, c, out). (a\<lparr>ccommon := c, cstate := Replica ic\<rparr>, out)) res"

definition causal_recv ::
    "('s, 'd) crdt_trait \<Rightarrow> 'r causal_env \<Rightarrow> ('s, 'd, 'r) causal_msg \<Rightarrow> ('s, 'd, 'u, 'r) causal \<Rightarrow>
     ('s, 'd, 'u, 'r) causal_result" where
  "causal_recv C env msg a =
     (let c = ccommon a in
      case msg of
        Causal_Cmd (Mutate op) \<Rightarrow>
          (case cstate a of
             Replica ic \<Rightarrow> with_replica a (causal_op C env c op ic)
           | Waiting w \<Rightarrow> Some (a\<lparr>cstate := Waiting (w\<lparr>ops_queue := ops_queue w @ [op]\<rparr>)\<rparr>, []))
      | Causal_Cmd (Subscribe_Data subr) \<Rightarrow>
          Some (a\<lparr>ccommon := c\<lparr>csubscribers := csubscribers c @ [subr]\<rparr>\<rparr>,
            case cstate a of Replica ic \<Rightarrow> [Publish subr (cdata ic)] | Waiting _ \<Rightarrow> [])
      | Causal_Cmd (Set_Preference pref) \<Rightarrow> Some (a\<lparr>ccommon := c\<lparr>preference := pref\<rparr>\<rparr>, [])
      | Causal_Intra intra \<Rightarrow>
          (case cstate a of
             Waiting _ \<Rightarrow> Some (a, [])
           | Replica ic \<Rightarrow>
               (case intra of
                  Ack i clk \<Rightarrow> with_replica a (map_option (\<lambda>ic'. (ic', c, [])) (causal_ack i clk ic))
                | Delta d i clk \<Rightarrow> with_replica a (causal_delta C env c d i clk ic)))
      | Causal_Update u \<Rightarrow>
          (case cstate a of
             Replica ic \<Rightarrow> with_replica a (causal_update C env c u ic)
           | Waiting w \<Rightarrow>
               (if cu_events u = [] then None
                else
                  (case last (cu_events u) of
                     Alone m \<Rightarrow> (let ic = to_ic C env w m (cu_nodes u) in
                       case publish env ic c of (c', pubs) \<Rightarrow> with_replica a (Some (ic, c', pubs)))
                   | Joined m \<Rightarrow> (let ic = to_ic C env w m (cu_nodes u) in
                       case publish env ic c of (c', pubs) \<Rightarrow> with_replica a (Some (ic, c', pubs)))
                   | _ \<Rightarrow> None)))
      | Disperse_Timeout \<Rightarrow>
          (case cstate a of
             Waiting _ \<Rightarrow> Some (a, [])
           | Replica ic \<Rightarrow>
               (if min_ord ic \<noteq> cclock ic \<and> acks ic \<noteq> (\<lambda>_. None)
                then map_option (\<lambda>out. (a, out)) (disperse C env c ic)
                else Some (a, []))))"

end
