(* ===== verification/Causal_Correct.thy ===== *)
theory Causal_Correct
  imports Causal
begin

text \<open>
  One replica of the dispersal algorithm: its bookkeeping is consistent with the full history of its
  deltas, which it has partly dropped.  The history is a ghost list: entry \<open>k\<close> is the delta that
  took the clock from \<open>k\<close> to \<open>k + 1\<close>.  The CRDT is used through the locale \<open>crdt\<close> only.
\<close>

subsection \<open>The order of acknowledgements\<close>

lemma first_ack_None: "first_ack ord = None \<longleftrightarrow> (\<forall>x. om_get ord x = None)"
proof -
  have "first_ack ord = None \<longleftrightarrow> set (om_keys ord) = {}" by (simp add: first_ack_def split: list.splits)
  also have "\<dots> \<longleftrightarrow> (\<forall>x. om_get ord x = None)" unfolding set_om_keys by simp
  finally show ?thesis .
qed

lemma first_ack_Some:
  assumes "first_ack ord = Some k"
  shows "\<exists>i. om_get ord (k, i) \<noteq> None" "om_get ord (k', i') \<noteq> None \<Longrightarrow> k \<le> k'"
proof -
  from assms obtain i xs where ks: "om_keys ord = (k, i) # xs"
    by (cases "om_keys ord") (auto simp: first_ack_def)
  then have "(k, i) \<in> set (om_keys ord)" by simp
  then show "\<exists>i. om_get ord (k, i) \<noteq> None" unfolding set_om_keys by blast
  assume "om_get ord (k', i') \<noteq> None"
  then have "(k', i') \<in> set (om_keys ord)" unfolding set_om_keys by simp
  moreover have "sorted_wrt (<) (om_keys ord)" unfolding om_keys_def by (rule entries_sorted)
  ultimately show "k \<le> k'" unfolding ks by (auto simp: less_prod_def)
qed

subsection \<open>Looking members up\<close>

lemma look_up_all_Some:
  "(\<forall>i\<in>set is. am i \<noteq> None) \<Longrightarrow> look_up_all am is = Some (map (\<lambda>i. the (am i)) is)"
  by (induction "is") auto

lemma look_up_all_None: "i \<in> set is \<Longrightarrow> am i = None \<Longrightarrow> look_up_all am is = None"
  by (induction "is") (auto split: option.splits)

lemma look_up_all_in: "look_up_all am is = Some es \<Longrightarrow> e \<in> set es \<Longrightarrow> \<exists>i. am i = Some e"
  by (induction "is" arbitrary: es) (auto split: option.splits)

lemma take_behind_Some:
  "(\<forall>x\<in>set xs. am (snd x) \<noteq> None) \<Longrightarrow> take_behind pri am n xs \<noteq> None"
  by (induction pri am n xs rule: take_behind.induct) auto

lemma take_behind_in: "take_behind pri am n xs = Some es \<Longrightarrow> e \<in> set es \<Longrightarrow> \<exists>i. am i = Some e"
  by (induction pri am n xs arbitrary: es rule: take_behind.induct) (auto split: option.splits if_splits)

subsection \<open>The invariant of a replica\<close>

definition acks_ok :: "'s causal_ic \<Rightarrow> bool" where
  "acks_ok ic \<longleftrightarrow>
     (\<forall>k i. om_get (ord_acks ic) (k, i) \<noteq> None \<longleftrightarrow> (\<exists>m. acks ic i = Some (m, k))) \<and>
     (\<forall>i m k. acks ic i = Some (m, k) \<longrightarrow> m_id m = i \<and> k \<le> cclock ic) \<and>
     min_ord ic = unwrap_or (first_ack (ord_acks ic)) 0"

definition log_ok :: "('s, 'd) crdt_trait \<Rightarrow> 's list \<Rightarrow> 's causal_ic \<Rightarrow> bool" where
  "log_ok C ds ic \<longleftrightarrow>
     length ds = unat (cclock ic) \<and> cdata ic = foldl (crdt_join C) (crdt_minimum C) ds \<and>
     deltas ic = drop (unat (min_delta ic)) ds \<and> min_delta ic \<le> cclock ic"

definition replica_inv :: "('s, 'd) crdt_trait \<Rightarrow> 's list \<Rightarrow> 's causal_ic \<Rightarrow> bool" where
  "replica_inv C ds ic \<longleftrightarrow> acks_ok ic \<and> log_ok C ds ic"

lemma acks_okD:
  assumes "acks_ok ic" "acks ic i = Some (m, k)"
  shows "m_id m = i" "k \<le> cclock ic" "om_get (ord_acks ic) (k, i) \<noteq> None"
  using assms unfolding acks_ok_def by blast+

lemma min_ord_le:
  assumes "acks_ok ic" "acks ic i = Some (m, k)"
  shows "min_ord ic \<le> k"
proof -
  note o = acks_okD(3)[OF assms]
  then obtain k0 where k0: "first_ack (ord_acks ic) = Some k0"
    using first_ack_None[of "ord_acks ic"] by auto
  from first_ack_Some(2)[OF k0 o] k0 assms(1) show ?thesis by (simp add: acks_ok_def)
qed

definition priority_known :: "'r causal_env \<Rightarrow> ('u, 'r) causal_common \<Rightarrow> 's causal_ic \<Rightarrow> bool" where
  "priority_known env c ic \<longleftrightarrow> (\<forall>m\<in>set (ce_iter env (priority (preference c))). acks ic (m_id m) \<noteq> None)"

text \<open>What a dispersal sends: to members that are behind, all data or the join of the kept deltas.\<close>

definition sends_ok :: "('s, 'd) crdt_trait \<Rightarrow> 's causal_ic \<Rightarrow> ('s, 'r) causal_effect list \<Rightarrow> bool" where
  "sends_ok C ic out \<longleftrightarrow>
     (\<forall>sock msg. Send_Intra sock msg \<in> set out \<longrightarrow>
        (\<exists>i m k. acks ic i = Some (m, k) \<and> sock = m_socket m \<and> k < cclock ic \<and>
           msg = Delta (if k < min_delta ic then cdata ic else foldl (crdt_join C) (crdt_minimum C) (deltas ic))
             (m_id (cmember ic)) (cclock ic)))"

lemma disperse_sends:
  assumes "disperse C env c ic = Some out"
  shows "sends_ok C ic out"
proof -
  let ?delta = "Delta (foldl (crdt_join C) (crdt_minimum C) (deltas ic)) (m_id (cmember ic)) (cclock ic)"
  let ?full = "Delta (cdata ic) (m_id (cmember ic)) (cclock ic)"
  from assms obtain to_send first where
    p: "(case dp_selector (preference c) of
        Out_Of_Date \<Rightarrow> take_behind (priority (preference c)) (acks ic) (unat (amount (preference c))) (om_keys (ord_acks ic))
      | All \<Rightarrow> look_up_all (acks ic) (map snd (om_keys (ord_acks ic)))) = Some to_send"
    "look_up_all (acks ic) (map m_id (ce_iter env (priority (preference c)))) = Some first"
    and out: "out = map (\<lambda>(m, cnt). Send_Intra (m_socket m) (if cnt < min_delta ic then ?full else ?delta))
        (filter (\<lambda>(_, cnt). cnt < cclock ic) (first @ to_send)) @ [Schedule_Disperse (dp_timeout (preference c))]"
    by (auto simp: disperse_def Let_def split: option.splits)
  have known: "\<exists>i. acks ic i = Some e" if "e \<in> set to_send" for e
  proof (cases "dp_selector (preference c)")
    case Out_Of_Date
    with p(1) show ?thesis using take_behind_in[OF _ that] by simp
  next
    case All
    with p(1) show ?thesis using look_up_all_in[OF _ that] by simp
  qed
  show ?thesis
    unfolding sends_ok_def
  proof (intro allI impI)
    fix sock msg
    assume "Send_Intra sock msg \<in> set out"
    then obtain m k where e: "(m, k) \<in> set first \<union> set to_send" "k < cclock ic" "sock = m_socket m"
      "msg = (if k < min_delta ic then ?full else ?delta)" unfolding out by auto
    from e(1) known look_up_all_in[OF p(2)] obtain i where "acks ic i = Some (m, k)" by blast
    with e(2-4) show "\<exists>i m k. acks ic i = Some (m, k) \<and> sock = m_socket m \<and> k < cclock ic \<and>
        msg = Delta (if k < min_delta ic then cdata ic else foldl (crdt_join C) (crdt_minimum C) (deltas ic))
          (m_id (cmember ic)) (cclock ic)" by (intro exI[of _ i] exI[of _ m] exI[of _ k]) simp
  qed
qed

lemma disperse_returns:
  assumes "acks_ok ic" "priority_known env c ic"
  shows "disperse C env c ic \<noteq> None"
proof -
  have all: "\<forall>x\<in>set (om_keys (ord_acks ic)). acks ic (snd x) \<noteq> None"
  proof
    fix x assume "x \<in> set (om_keys (ord_acks ic))"
    then have "om_get (ord_acks ic) (fst x, snd x) \<noteq> None" by (simp add: set_om_keys)
    then have "\<exists>m. acks ic (snd x) = Some (m, fst x)" using assms(1) unfolding acks_ok_def by blast
    then show "acks ic (snd x) \<noteq> None" by auto
  qed
  have behind: "take_behind (priority (preference c)) (acks ic) (unat (amount (preference c))) (om_keys (ord_acks ic)) \<noteq> None"
    by (rule take_behind_Some[OF all])
  have every: "look_up_all (acks ic) (map snd (om_keys (ord_acks ic))) \<noteq> None"
    using look_up_all_Some[of "map snd (om_keys (ord_acks ic))" "acks ic"] all by auto
  have first: "look_up_all (acks ic) (map m_id (ce_iter env (priority (preference c)))) \<noteq> None"
    using assms(2) look_up_all_Some[of "map m_id (ce_iter env (priority (preference c)))" "acks ic"]
    by (auto simp: priority_known_def)
  show ?thesis
    using behind every first unfolding disperse_def Let_def
    by (cases "dp_selector (preference c)") auto
qed

subsection \<open>Acknowledgements\<close>

lemma first_ack_insert: "first_ack (om_insert (k, i) () ord) \<noteq> None"
  unfolding first_ack_None by (metis om_get_simps(2) option.distinct(1))

lemma causal_ack_ok:
  assumes inv: "replica_inv C ds ic" and clk: "clk \<le> cclock ic"
  shows "\<exists>ic'. causal_ack i clk ic = Some ic' \<and> replica_inv C ds ic' \<and> cdata ic' = cdata ic \<and>
     cclock ic' = cclock ic \<and> cmember ic' = cmember ic \<and>
     acks ic' = (case acks ic i of Some (m, k) \<Rightarrow> (acks ic)(i \<mapsto> (m, max k clk)) | None \<Rightarrow> acks ic)"
proof (cases "opt_filter (\<lambda>e. snd e < clk) (acks ic i)")
  case None
  then have "acks ic = (case acks ic i of Some (m, k) \<Rightarrow> (acks ic)(i \<mapsto> (m, max k clk)) | None \<Rightarrow> acks ic)"
    by (auto simp: fun_eq_iff max_def split: option.splits if_splits)
  with None inv show ?thesis by (simp add: causal_ack_def)
next
  case (Some e)
  obtain m cnt where e: "e = (m, cnt)" by (cases e)
  with Some have am: "acks ic i = Some (m, cnt)" "cnt < clk"
    by (cases "acks ic i"; auto split: if_splits)+
  from inv have ok: "acks_ok ic" and lg: "log_ok C ds ic" by (simp_all add: replica_inv_def)
  note o = acks_okD[OF ok am(1)]
  let ?ord = "om_insert (clk, i) () (om_remove (cnt, i) (ord_acks ic))"
  let ?acks = "(acks ic)(i \<mapsto> (m, clk))"
  obtain mo where mo: "first_ack ?ord = Some mo" using first_ack_insert by blast
  have ord: "om_get ?ord (k, j) \<noteq> None \<longleftrightarrow> (\<exists>m. ?acks j = Some (m, k))" for k j
    using ok am by (auto simp: acks_ok_def)
  have le: "k \<le> cclock ic" if "?acks j = Some (m', k)" for j m' k
    using that ok clk by (auto simp: acks_ok_def split: if_splits)
  have moc: "mo \<le> cclock ic"
    using first_ack_Some(1)[OF mo] ord le by blast
  have pop: "unat mo - unat (min_delta ic) \<le> length (deltas ic)"
    using lg moc by (simp add: log_ok_def word_le_nat_alt)
  let ?ic = "ic\<lparr>deltas := drop (unat mo - unat (min_delta ic)) (deltas ic), acks := ?acks, ord_acks := ?ord,
      min_ord := mo, min_delta := max (min_delta ic) mo\<rparr>"
  have "unat (max (min_delta ic) mo) = unat (min_delta ic) + (unat mo - unat (min_delta ic))"
    by (simp add: max_def word_le_nat_alt)
  then have "log_ok C ds ?ic" using lg moc by (simp add: log_ok_def add.commute)
  moreover have "acks_ok ?ic"
    unfolding acks_ok_def using ord le o(1) ok mo by (auto simp: acks_ok_def)
  moreover have "causal_ack i clk ic = Some ?ic"
    using Some e o(3) mo pop by (simp add: causal_ack_def Let_def pop_front_def)
  ultimately show ?thesis using am by (auto simp: replica_inv_def max_def)
qed

subsection \<open>Changes\<close>

lemma acks_ok_tick:
  assumes "acks_ok ic" "cclock ic \<noteq> - 1"
  shows "acks_ok (ic\<lparr>cdata := new, deltas := ds, cclock := cclock ic + 1\<rparr>)"
proof -
  have "k \<le> cclock ic + 1" if "k \<le> cclock ic" for k
    using word_less_add_one[OF assms(2)] that by order
  with assms(1) show ?thesis by (simp add: acks_ok_def)
qed

context crdt
begin

lemma changed_inv:
  assumes inv: "replica_inv C ds ic" and lt: "cclock ic \<noteq> - 1" and new: "new = crdt_join C (cdata ic) d"
    and run: "changed C env c new d ic = Some (ic', c', out)"
  shows "replica_inv C (ds @ [d]) ic'" "cdata ic' = new" "acks ic' = acks ic" "cmember ic' = cmember ic"
    "cclock ic' = cclock ic + 1" "sends_ok C ic' out" "preference c' = preference c" "min_delta ic' = min_delta ic"
proof -
  let ?ic1 = "ic\<lparr>cdata := new, deltas := deltas ic @ [d], cclock := cclock ic + 1\<rparr>"
  from run obtain out1 where dis: "disperse C env c ?ic1 = Some out1" and eq: "ic' = ?ic1"
    "c' = c\<lparr>csubscribers := filter (ce_alive env) (csubscribers c)\<rparr>"
    "out = out1 @ map (\<lambda>r. Publish r new) (csubscribers c)"
    by (auto simp: changed_def Let_def publish_def split: option.splits)
  from inv have ok: "acks_ok ic" and lg: "log_ok C ds ic" by (simp_all add: replica_inv_def)
  have suc: "unat (cclock ic + 1) = Suc (unat (cclock ic))" "cclock ic < cclock ic + 1"
    using lt by (simp_all add: unat_add_one word_less_add_one)
  have md: "unat (min_delta ic) \<le> length ds" using lg by (simp add: log_ok_def word_le_nat_alt)
  have "log_ok C (ds @ [d]) ?ic1"
    using lg md suc new by (auto simp: log_ok_def foldl_join_snoc)
  moreover have "acks_ok ?ic1" by (rule acks_ok_tick[OF ok lt])
  ultimately show "replica_inv C (ds @ [d]) ic'" by (simp add: eq(1) replica_inv_def)
  show "cdata ic' = new" "acks ic' = acks ic" "cmember ic' = cmember ic" "cclock ic' = cclock ic + 1"
    "min_delta ic' = min_delta ic" "preference c' = preference c"
    by (simp_all add: eq)
  show "sends_ok C ic' out"
    using disperse_sends[OF dis] unfolding eq(1,3) sends_ok_def by auto
qed

lemma changed_returns:
  assumes "replica_inv C ds ic" "cclock ic \<noteq> - 1" "priority_known env c ic"
  shows "changed C env c new d ic \<noteq> None"
proof -
  have "acks_ok (ic\<lparr>cdata := new, deltas := deltas ic @ [d], cclock := cclock ic + 1\<rparr>)"
    using assms(1,2) unfolding replica_inv_def by (blast intro: acks_ok_tick)
  from disperse_returns[OF this, of env c] assms(3) show ?thesis
    by (auto simp: changed_def Let_def publish_def priority_known_def split: option.splits)
qed

lemma causal_op_inv:
  assumes inv: "replica_inv C ds ic" and lt: "cclock ic \<noteq> - 1"
    and run: "causal_op C env c op ic = Some (ic', c', out)"
  shows "\<exists>es. replica_inv C (ds @ es) ic' \<and> lat_le (crdt_join C) (cdata ic) (cdata ic') \<and>
     acks ic' = acks ic \<and> cmember ic' = cmember ic \<and> sends_ok C ic' out"
proof (cases "crdt_empty C (crdt_apply C op (cdata ic))")
  case True
  with run inv show ?thesis
    by (auto simp: causal_op_def Let_def le_refl sends_ok_def intro!: exI[of _ "[]"])
next
  case False
  let ?d = "crdt_apply C op (cdata ic)"
  from run False have ch: "changed C env c (crdt_join C (cdata ic) ?d) ?d ic = Some (ic', c', out)"
    by (simp add: causal_op_def Let_def)
  note r = changed_inv[OF inv lt refl ch]
  have "replica_inv C (ds @ [?d]) ic' \<and> lat_le (crdt_join C) (cdata ic) (cdata ic') \<and>
     acks ic' = acks ic \<and> cmember ic' = cmember ic \<and> sends_ok C ic' out"
    using r le_join1 by auto
  then show ?thesis by blast
qed

lemma causal_delta_inv:
  assumes inv: "replica_inv C ds ic" and lt: "cclock ic \<noteq> - 1" and am: "acks ic i = Some (m, k)"
    and run: "causal_delta C env c d i clk ic = Some (ic', c', out)"
  shows "\<exists>es rest. replica_inv C (ds @ es) ic' \<and> lat_le (crdt_join C) (cdata ic) (cdata ic') \<and>
     lat_le (crdt_join C) d (cdata ic') \<and> acks ic' = acks ic \<and> cmember ic' = cmember ic \<and>
     out = Send_Intra (m_socket m) (Ack (m_id (cmember ic)) clk) # rest \<and> sends_ok C ic' rest"
proof (cases "crdt_join C (cdata ic) d = cdata ic")
  case True
  with run am have "ic' = ic" "out = [Send_Intra (m_socket m) (Ack (m_id (cmember ic)) clk)]"
    by (auto simp: causal_delta_def Let_def)
  with True inv show ?thesis
    by (auto simp: le_refl sends_ok_def join_eq_iff_le intro!: exI[of _ "[]"])
next
  case False
  from run am False obtain rest where
    ch: "changed C env c (crdt_join C (cdata ic) d) d ic = Some (ic', c', rest)"
    and out: "out = Send_Intra (m_socket m) (Ack (m_id (cmember ic)) clk) # rest"
    by (auto simp: causal_delta_def Let_def)
  note r = changed_inv[OF inv lt refl ch]
  have "replica_inv C (ds @ [d]) ic' \<and> lat_le (crdt_join C) (cdata ic) (cdata ic') \<and>
     lat_le (crdt_join C) d (cdata ic') \<and> acks ic' = acks ic \<and> cmember ic' = cmember ic \<and>
     out = Send_Intra (m_socket m) (Ack (m_id (cmember ic)) clk) # rest \<and> sends_ok C ic' rest"
    using r out le_join1 le_join2 by auto
  then show ?thesis by blast
qed

end

subsection \<open>Updates of the membership\<close>

text \<open>
  Replaying the events of an update on the members and the node's own identity: additions are new,
  removals are of members, and the node takes a new identity only after it was removed.
\<close>

fun follows :: "cluster_event list \<Rightarrow> member set \<times> member \<Rightarrow> (member set \<times> member) option" where
  "follows [] st = Some st"
| "follows (e # es) (M, me) =
     (case e of
        Added m \<Rightarrow> (if m \<in> M \<or> m = me then None else follows es (insert m M, me))
      | Removed m \<Rightarrow> (if m \<in> M then follows es (M - {m}, me) else None)
      | Joined m \<Rightarrow> (if m \<in> M \<or> me \<in> M then None else follows es (insert m M, m))
      | _ \<Rightarrow> None)"

text \<open>The acknowledgements are about exactly the other members.\<close>

definition tracks :: "'s causal_ic \<Rightarrow> member set \<Rightarrow> member \<Rightarrow> bool" where
  "tracks ic M me \<longleftrightarrow>
     cmember ic = me \<and> (\<forall>i m. (\<exists>k. acks ic i = Some (m, k)) \<longleftrightarrow> m \<in> M - {me} \<and> m_id m = i)"

lemma tracksD:
  assumes "tracks ic M me"
  shows "cmember ic = me" "acks ic i = Some (m, k) \<Longrightarrow> m \<in> M \<and> m \<noteq> me \<and> m_id m = i"
    "m \<in> M \<Longrightarrow> m \<noteq> me \<Longrightarrow> \<exists>k. acks ic (m_id m) = Some (m, k)"
  using assms unfolding tracks_def by blast+

definition removed_ack :: "member \<Rightarrow> u64 \<Rightarrow> 's causal_ic \<Rightarrow> 's causal_ic" where
  "removed_ack m cnt ic =
     (let ord1 = om_remove (cnt, m_id m) (ord_acks ic) in
      ic\<lparr>acks := (acks ic)(m_id m := None), ord_acks := ord1, min_ord := unwrap_or (first_ack ord1) 0\<rparr>)"

definition added_ack :: "member \<Rightarrow> 's causal_ic \<Rightarrow> 's causal_ic" where
  "added_ack m ic =
     ic\<lparr>ord_acks := om_insert (0, m_id m) () (ord_acks ic), acks := (acks ic)(m_id m \<mapsto> (m, 0)), min_ord := 0\<rparr>"

lemma acks_okI:
  assumes "\<And>k i. om_get (ord_acks ic) (k, i) \<noteq> None \<longleftrightarrow> (\<exists>m. acks ic i = Some (m, k))"
    and "\<And>i m k. acks ic i = Some (m, k) \<Longrightarrow> m_id m = i \<and> k \<le> cclock ic"
    and "min_ord ic = unwrap_or (first_ack (ord_acks ic)) 0"
  shows "acks_ok ic"
  using assms unfolding acks_ok_def by blast

lemma acks_ok_ord: "acks_ok ic \<Longrightarrow> om_get (ord_acks ic) (k, i) \<noteq> None \<longleftrightarrow> (\<exists>m. acks ic i = Some (m, k))"
  unfolding acks_ok_def by blast

lemma acks_ok_removed:
  assumes ok: "acks_ok ic" and am: "acks ic (m_id m) = Some (m, cnt)"
  shows "acks_ok (removed_ack m cnt ic)"
proof (rule acks_okI)
  fix k i
  show "om_get (ord_acks (removed_ack m cnt ic)) (k, i) \<noteq> None \<longleftrightarrow> (\<exists>m'. acks (removed_ack m cnt ic) i = Some (m', k))"
    using acks_ok_ord[OF ok, of k i] am by (cases "i = m_id m") (auto simp: removed_ack_def Let_def)
next
  fix i m' k
  assume "acks (removed_ack m cnt ic) i = Some (m', k)"
  then have "acks ic i = Some (m', k)" by (simp add: removed_ack_def Let_def split: if_splits)
  from acks_okD[OF ok this] show "m_id m' = i \<and> k \<le> cclock (removed_ack m cnt ic)"
    by (simp add: removed_ack_def Let_def)
qed (simp add: removed_ack_def Let_def)

lemma acks_ok_added:
  assumes ok: "acks_ok ic" and am: "acks ic (m_id m) = None"
  shows "acks_ok (added_ack m ic)"
proof (rule acks_okI)
  fix k i
  show "om_get (ord_acks (added_ack m ic)) (k, i) \<noteq> None \<longleftrightarrow> (\<exists>m'. acks (added_ack m ic) i = Some (m', k))"
    using acks_ok_ord[OF ok, of k i] am by (cases "i = m_id m") (auto simp: added_ack_def)
next
  fix i m' k
  assume "acks (added_ack m ic) i = Some (m', k)"
  then show "m_id m' = i \<and> k \<le> cclock (added_ack m ic)"
    using acks_okD[OF ok, of i m' k] by (auto simp: added_ack_def split: if_splits)
next
  let ?ord = "om_insert (0, m_id m) () (ord_acks ic)"
  obtain k0 where k0: "first_ack ?ord = Some k0" using first_ack_insert by blast
  have "om_get ?ord (0, m_id m) \<noteq> None" by simp
  from first_ack_Some(2)[OF k0 this] show "min_ord (added_ack m ic) = unwrap_or (first_ack (ord_acks (added_ack m ic))) 0"
    using k0 by (simp add: added_ack_def)
qed

lemma tracksI:
  assumes "cmember ic = me" "\<And>i m k. acks ic i = Some (m, k) \<Longrightarrow> m \<in> M \<and> m \<noteq> me \<and> m_id m = i"
    "\<And>m. m \<in> M \<Longrightarrow> m \<noteq> me \<Longrightarrow> \<exists>k. acks ic (m_id m) = Some (m, k)"
  shows "tracks ic M me"
  using assms unfolding tracks_def by blast

lemma tracks_added:
  assumes tr: "tracks ic M me" and m: "m \<notin> M" "m \<noteq> me" and inj: "inj_on m_id U" "insert m (insert me M) \<subseteq> U"
  shows "tracks (added_ack m ic) (insert m M) me" "acks ic (m_id m) = None"
proof -
  note t = tracksD[OF tr]
  have uniq: "m' = m" if "m' \<in> M" "m_id m' = m_id m" for m'
    using inj that by (meson inj_onD insert_subset subsetD)
  show none: "acks ic (m_id m) = None"
  proof (rule ccontr)
    assume "acks ic (m_id m) \<noteq> None"
    then obtain m' k where "acks ic (m_id m) = Some (m', k)" by auto
    from t(2)[OF this] uniq m(1) show False by auto
  qed
  show "tracks (added_ack m ic) (insert m M) me"
  proof (rule tracksI)
    fix i m' k
    assume "acks (added_ack m ic) i = Some (m', k)"
    then show "m' \<in> insert m M \<and> m' \<noteq> me \<and> m_id m' = i"
      using t(2)[of i m' k] m(2) by (auto simp: added_ack_def split: if_splits)
  next
    fix m'
    assume m': "m' \<in> insert m M" "m' \<noteq> me"
    show "\<exists>k. acks (added_ack m ic) (m_id m') = Some (m', k)"
      using t(3)[OF _ m'(2)] m' uniq by (cases "m' = m") (auto simp: added_ack_def)
  qed (simp add: added_ack_def t(1))
qed

lemma tracks_removed:
  assumes tr: "tracks ic M me" and m: "m \<in> M" and inj: "inj_on m_id U" "M \<subseteq> U"
  shows "tracks (removed_ack m cnt ic) (M - {m}) me"
proof (rule tracksI)
  note t = tracksD[OF tr]
  show "cmember (removed_ack m cnt ic) = me" by (simp add: removed_ack_def Let_def t(1))
  fix i m' k
  assume "acks (removed_ack m cnt ic) i = Some (m', k)"
  then show "m' \<in> M - {m} \<and> m' \<noteq> me \<and> m_id m' = i"
    using t(2)[of i m' k] by (auto simp: removed_ack_def Let_def split: if_splits)
next
  note t = tracksD[OF tr]
  fix m'
  assume m': "m' \<in> M - {m}" "m' \<noteq> me"
  then have "m_id m' \<noteq> m_id m" using inj m by (metis DiffD1 DiffD2 inj_onD insertI1 subsetD)
  with t(3)[OF _ m'(2)] m' show "\<exists>k. acks (removed_ack m cnt ic) (m_id m') = Some (m', k)"
    by (auto simp: removed_ack_def Let_def)
qed

lemma causal_events_ok:
  "follows es (M, me) = Some (M', me') \<Longrightarrow> tracks ic M me \<Longrightarrow> acks_ok ic \<Longrightarrow>
   inj_on m_id U \<Longrightarrow> insert me M \<union> {m. Added m \<in> set es} \<union> {m. Joined m \<in> set es} \<subseteq> U \<Longrightarrow>
   \<exists>ic' dis'. causal_events es (ic, dis) = Some (ic', dis') \<and> tracks ic' M' me' \<and> acks_ok ic' \<and>
     cdata ic' = cdata ic \<and> deltas ic' = deltas ic \<and> cclock ic' = cclock ic \<and> min_delta ic' = min_delta ic"
proof (induction es arbitrary: M me ic dis)
  case Nil
  then show ?case by simp
next
  case (Cons e es)
  have uniq: "m = m'" if "m_id m = m_id m'" "m \<in> U" "m' \<in> U" for m m'
    using Cons.prems(4) that by (meson inj_onD)
  note tr = tracksD[OF Cons.prems(2)]
  show ?case
  proof (cases e)
    case (Added m)
    with Cons.prems(1) have nm: "m \<notin> M" "m \<noteq> me" "follows es (insert m M, me) = Some (M', me')"
      by (auto split: if_splits)
    have mU: "insert m (insert me M) \<subseteq> U" using Cons.prems(5) Added by auto
    note ta = tracks_added[OF Cons.prems(2) nm(1,2) Cons.prems(4) mU]
    have sub: "insert me (insert m M) \<union> {m. Added m \<in> set es} \<union> {m. Joined m \<in> set es} \<subseteq> U"
      using Cons.prems(5) mU by auto
    from Cons.IH[OF nm(3) ta(1) acks_ok_added[OF Cons.prems(3) ta(2)] Cons.prems(4) sub, of True] Added
    show ?thesis by (simp add: added_ack_def)
  next
    case (Removed m)
    with Cons.prems(1) have m: "m \<in> M" "follows es (M - {m}, me) = Some (M', me')" by (auto split: if_splits)
    have sub: "insert me (M - {m}) \<union> {m. Added m \<in> set es} \<union> {m. Joined m \<in> set es} \<subseteq> U"
      using Cons.prems(5) by auto
    show ?thesis
    proof (cases "m = me")
      case True
      have "tracks ic (M - {m}) me" using Cons.prems(2) True unfolding tracks_def by auto
      from Cons.IH[OF m(2) this Cons.prems(3,4) sub, of dis] show ?thesis using Removed True tr(1) by simp
    next
      case False
      then obtain cnt where am: "acks ic (m_id m) = Some (m, cnt)" using tr(3)[OF m(1)] by blast
      have ids: "m_id m \<noteq> m_id (cmember ic)" using uniq[of m me] False Cons.prems(5) m(1) tr(1) by auto
      have "tracks (removed_ack m cnt ic) (M - {m}) me"
        by (rule tracks_removed[OF Cons.prems(2) m(1) Cons.prems(4)]) (use Cons.prems(5) in auto)
      from Cons.IH[OF m(2) this acks_ok_removed[OF Cons.prems(3) am] Cons.prems(4) sub, of True]
      show ?thesis
        using Removed am ids acks_okD(3)[OF Cons.prems(3) am] by (simp add: removed_ack_def Let_def)
    qed
  next
    case (Joined m)
    with Cons.prems(1) have m: "m \<notin> M" "me \<notin> M" "follows es (insert m M, m) = Some (M', me')" by (auto split: if_splits)
    have "tracks (ic\<lparr>cmember := m\<rparr>) (insert m M) m" "acks_ok (ic\<lparr>cmember := m\<rparr>)"
      using Cons.prems(2,3) m unfolding tracks_def acks_ok_def by auto
    moreover have "insert m (insert m M) \<union> {m. Added m \<in> set es} \<union> {m. Joined m \<in> set es} \<subseteq> U"
      using Cons.prems(5) Joined by auto
    ultimately show ?thesis using Cons.IH[OF m(3) _ _ Cons.prems(4), of "ic\<lparr>cmember := m\<rparr>" dis] Joined by simp
  qed (use Cons.prems(1) in simp_all)
qed

subsection \<open>The start of a replica\<close>

lemma fold_acks:
  "inj_on m_id (set ms) \<Longrightarrow>
   fold (\<lambda>n am. am(m_id n \<mapsto> (n, 0))) ms am i = Some (m, k) \<longleftrightarrow>
     m \<in> set ms \<and> m_id m = i \<and> k = (0 :: u64) \<or> i \<notin> m_id ` set ms \<and> am i = Some (m, k)"
proof (induction ms arbitrary: am)
  case Nil
  then show ?case by simp
next
  case (Cons n ms)
  then have inj: "inj_on m_id (set ms)" by (simp add: inj_on_def)
  have uniq: "m_id x = m_id n \<Longrightarrow> x \<in> set ms \<Longrightarrow> x = n" for x
    using Cons.prems by (meson inj_onD list.set_intros)
  show ?case
    using Cons.IH[OF inj, of "am(m_id n \<mapsto> (n, 0))"] uniq by (auto dest: uniq)
qed

context crdt
begin

lemma to_ic_inv:
  assumes iter: "set (ce_iter env (nodes - {me})) = nodes - {me}" and inj: "inj_on m_id nodes"
  shows "\<exists>ds. replica_inv C ds (to_ic C env w me nodes)" "tracks (to_ic C env w me nodes) nodes me"
proof -
  let ?ic = "to_ic C env w me nodes" and ?ms = "ce_iter env (nodes - {me})"
  have inj': "inj_on m_id (set ?ms)" using inj unfolding iter by (rule inj_on_subset) auto
  have am: "acks ?ic i = Some (m, k) \<longleftrightarrow> m \<in> nodes - {me} \<and> m_id m = i \<and> k = 0" for i m k
    using fold_acks[OF inj', of "\<lambda>_. None" i m k] unfolding iter by (simp add: to_ic_def Let_def)
  have ord: "om_get (ord_acks ?ic) (k, i) \<noteq> None \<longleftrightarrow> k = 0 \<and> i \<in> m_id ` (nodes - {me})" for k i
    by (auto simp: to_ic_def Let_def om_get_of_list map_of_eq_None_iff iter image_image)
  have fst0: "unwrap_or (first_ack (ord_acks ?ic)) 0 = 0"
  proof (cases "first_ack (ord_acks ?ic)")
    case (Some k)
    from first_ack_Some(1)[OF Some] ord Some show ?thesis by auto
  qed simp
  have "acks_ok ?ic"
  proof (rule acks_okI)
    fix k i
    show "om_get (ord_acks ?ic) (k, i) \<noteq> None \<longleftrightarrow> (\<exists>m. acks ?ic i = Some (m, k))"
      unfolding ord am by auto
  next
    fix i m k
    assume "acks ?ic i = Some (m, k)"
    then show "m_id m = i \<and> k \<le> cclock ?ic" unfolding am by auto
  next
    show "min_ord ?ic = unwrap_or (first_ack (ord_acks ?ic)) 0"
      unfolding fst0 by (simp add: to_ic_def Let_def)
  qed
  moreover have "log_ok C (deltas ?ic) ?ic"
    by (simp add: log_ok_def to_ic_def Let_def join_bot empty_iff)
  ultimately show "\<exists>ds. replica_inv C ds ?ic" unfolding replica_inv_def by blast
  show "tracks ?ic nodes me"
  proof -
    have "cmember ?ic = me" by (simp add: to_ic_def Let_def)
    with am show ?thesis by (auto simp: tracks_def)
  qed
qed

end

end
