(* ===== verification/Causal_Network.thy ===== *)
theory Causal_Network
  imports Causal_Correct
begin

text \<open>
  A network of replicas, one at each socket, over datagrams that may be lost, repeated and reordered:
  the wire is the set of all messages ever sent, and a delivery leaves its message there.  The views
  are the membership each node's cluster actor has told its replica so far.  The ghost logs list all
  deltas of every replica.
\<close>

subsection \<open>Steps\<close>

record ('s, 'd, 'u, 'r) net =
  actors :: "socket \<Rightarrow> ('s, 'd, 'u, 'r) causal"
  wire :: "(socket \<times> 's causal_intra) set"
  views :: "socket \<Rightarrow> member set \<times> member"

definition sent_by :: "('s, 'r) causal_effect list \<Rightarrow> (socket \<times> 's causal_intra) set" where
  "sent_by out = {(t, m). Send_Intra t m \<in> set out}"

text \<open>The clock has not reached its last value.\<close>

definition clock_room :: "('s, 'd, 'u, 'r) causal \<Rightarrow> bool" where
  "clock_room a = (case cstate a of Replica ic \<Rightarrow> cclock ic \<noteq> - 1 | Waiting _ \<Rightarrow> True)"

definition net_step :: "socket \<Rightarrow> ('s, 'd, 'u, 'r) causal \<Rightarrow> ('s, 'r) causal_effect list \<Rightarrow>
    member set \<times> member \<Rightarrow> ('s, 'd, 'u, 'r) net \<Rightarrow> ('s, 'd, 'u, 'r) net" where
  "net_step s a out v n =
     n\<lparr>actors := (actors n)(s := a), wire := wire n \<union> sent_by out, views := (views n)(s := v)\<rparr>"

text \<open>An update that the cluster actor at a socket may send: the first one names the node itself.\<close>

definition update_next :: "member set \<Rightarrow> socket \<Rightarrow> ('s, 'd, 'u, 'r) causal \<Rightarrow> member set \<times> member \<Rightarrow> cluster_update \<Rightarrow>
    (member set \<times> member) option" where
  "update_next U s a v u =
     (case cstate a of
        Replica _ \<Rightarrow>
          (case follows (cu_events u) v of
             None \<Rightarrow> None
           | Some v' \<Rightarrow>
               (if fst v' \<subseteq> U \<and> snd v' \<in> U \<and> m_socket (snd v') = s \<and>
                  {m. Added m \<in> set (cu_events u)} \<union> {m. Joined m \<in> set (cu_events u)} \<subseteq> U then Some v' else None))
      | Waiting _ \<Rightarrow>
          (if cu_events u = [] then None
           else
             (case last (cu_events u) of
                Joined m \<Rightarrow> (if cu_nodes u \<subseteq> U \<and> m \<in> U \<and> m_socket m = s then Some (cu_nodes u, m) else None)
              | Alone m \<Rightarrow> (if cu_nodes u \<subseteq> U \<and> m \<in> U \<and> m_socket m = s then Some (cu_nodes u, m) else None)
              | _ \<Rightarrow> None)))"

inductive net_reach ::
    "('s, 'd) crdt_trait \<Rightarrow> 'r causal_env \<Rightarrow> member set \<Rightarrow> ('s, 'd, 'u, 'r) net \<Rightarrow> bool"
  for C :: "('s, 'd) crdt_trait" and env :: "'r causal_env" and U :: "member set" where
  start: "wire n = {} \<Longrightarrow>
    (\<And>s. \<exists>vm vi name subrs pref. actors n s = causal_new vm vi name subrs pref) \<Longrightarrow> net_reach C env U n"
| command: "net_reach C env U n \<Longrightarrow> clock_room (actors n s) \<Longrightarrow> msg = Causal_Cmd cmd \<or> msg = Disperse_Timeout \<Longrightarrow>
    causal_recv C env msg (actors n s) = Some (a, out) \<Longrightarrow> net_reach C env U (net_step s a out (views n s) n)"
| deliver: "net_reach C env U n \<Longrightarrow> clock_room (actors n s) \<Longrightarrow> (s, m) \<in> wire n \<Longrightarrow>
    causal_recv C env (Causal_Intra m) (actors n s) = Some (a, out) \<Longrightarrow> net_reach C env U (net_step s a out (views n s) n)"
| update: "net_reach C env U n \<Longrightarrow> update_next U s (actors n s) (views n s) u = Some v \<Longrightarrow>
    causal_recv C env (Causal_Update u) (actors n s) = Some (a, out) \<Longrightarrow> net_reach C env U (net_step s a out v n)"

definition data_at :: "('s, 'd, 'u, 'r) net \<Rightarrow> socket \<Rightarrow> 's option" where
  "data_at n s = (case cstate (actors n s) of Replica ic \<Rightarrow> Some (cdata ic) | Waiting _ \<Rightarrow> None)"

subsection \<open>The invariant of the network\<close>

definition hist :: "('s, 'd) crdt_trait \<Rightarrow> 's list \<Rightarrow> u64 \<Rightarrow> 's" where
  "hist C ds k = foldl (crdt_join C) (crdt_minimum C) (take (unat k) ds)"

definition at_least :: "('s, 'd) crdt_trait \<Rightarrow> ('s, 'd, 'u, 'r) net \<Rightarrow> socket \<Rightarrow> 's \<Rightarrow> bool" where
  "at_least C n t x \<longleftrightarrow> (\<exists>y. data_at n t = Some y \<and> lat_le (crdt_join C) x y)"

text \<open>
  The replica at \<open>s\<close> with its log: its own bookkeeping, and what it takes others to have.  A delta on
  the wire brings its receiver up to the sender's state at the clock it carries; an acknowledgement
  on the wire is about a state the acknowledging replica has.
\<close>

definition node_ok :: "('s, 'd) crdt_trait \<Rightarrow> member set \<Rightarrow> ('s, 'd, 'u, 'r) net \<Rightarrow> socket \<Rightarrow> 's list \<Rightarrow> 's causal_ic \<Rightarrow> bool" where
  "node_ok C U n s ds ic \<longleftrightarrow>
     replica_inv C ds ic \<and> tracks ic (fst (views n s)) (snd (views n s)) \<and> fst (views n s) \<subseteq> U \<and>
     cmember ic \<in> U \<and> m_socket (cmember ic) = s \<and>
     (\<forall>i m k. acks ic i = Some (m, k) \<longrightarrow> k = 0 \<or> at_least C n (m_socket m) (hist C ds k))"

definition delta_ok :: "('s, 'd) crdt_trait \<Rightarrow> member set \<Rightarrow> ('s, 'd, 'u, 'r) net \<Rightarrow> (socket \<Rightarrow> 's list) \<Rightarrow> socket \<Rightarrow> 's \<Rightarrow> u64 \<Rightarrow> u64 \<Rightarrow> bool" where
  "delta_ok C U n D t d i k \<longleftrightarrow>
     (\<exists>m ic. m \<in> U \<and> m_id m = i \<and> cstate (actors n (m_socket m)) = Replica ic \<and> k \<le> cclock ic \<and>
        (lat_le (crdt_join C) (hist C (D (m_socket m)) k) d \<or>
         (\<exists>y. data_at n t = Some y \<and> lat_le (crdt_join C) (hist C (D (m_socket m)) k) (crdt_join C y d))))"

definition ack_ok :: "('s, 'd) crdt_trait \<Rightarrow> member set \<Rightarrow> ('s, 'd, 'u, 'r) net \<Rightarrow> (socket \<Rightarrow> 's list) \<Rightarrow> socket \<Rightarrow> u64 \<Rightarrow> u64 \<Rightarrow> bool" where
  "ack_ok C U n D t i k \<longleftrightarrow>
     (\<exists>m ic. m \<in> U \<and> m_id m = i \<and> cstate (actors n t) = Replica ic \<and> k \<le> cclock ic \<and>
        at_least C n (m_socket m) (hist C (D t) k))"

definition net_inv :: "('s, 'd) crdt_trait \<Rightarrow> member set \<Rightarrow> ('s, 'd, 'u, 'r) net \<Rightarrow> (socket \<Rightarrow> 's list) \<Rightarrow> bool" where
  "net_inv C U n D \<longleftrightarrow>
     (\<forall>s ic. cstate (actors n s) = Replica ic \<longrightarrow> node_ok C U n s (D s) ic) \<and>
     (\<forall>t d i k. (t, Delta d i k) \<in> wire n \<longrightarrow> delta_ok C U n D t d i k) \<and>
     (\<forall>t i k. (t, Ack i k) \<in> wire n \<longrightarrow> ack_ok C U n D t i k)"

text \<open>A step that only lets one replica grow keeps what is known about all of them.\<close>

definition grows :: "('s, 'd) crdt_trait \<Rightarrow> ('s, 'd, 'u, 'r) net \<Rightarrow> (socket \<Rightarrow> 's list) \<Rightarrow> ('s, 'd, 'u, 'r) net \<Rightarrow> (socket \<Rightarrow> 's list) \<Rightarrow> bool" where
  "grows C n D n' D' \<longleftrightarrow>
     (\<forall>s. \<forall>ic. cstate (actors n s) = Replica ic \<longrightarrow>
        (\<exists>ic' es. cstate (actors n' s) = Replica ic' \<and> lat_le (crdt_join C) (cdata ic) (cdata ic') \<and>
           cclock ic \<le> cclock ic' \<and> D' s = D s @ es \<and> length (D s) = unat (cclock ic)))"

subsection \<open>Histories\<close>

lemma hist_append: "unat k \<le> length ds \<Longrightarrow> hist C (ds @ es) k = hist C ds k"
  by (simp add: hist_def)

lemma hist_clock: "log_ok C ds ic \<Longrightarrow> hist C ds (cclock ic) = cdata ic"
  by (simp add: hist_def log_ok_def)

context crdt
begin

lemma hist_zero: "lat_le (crdt_join C) (hist C ds 0) x"
  by (simp add: hist_def bot_le)

lemma hist_mono:
  assumes "k \<le> k'"
  shows "lat_le (crdt_join C) (hist C ds k) (hist C ds k')"
proof -
  have "unat k \<le> unat k'" using assms by (simp add: word_le_nat_alt)
  then have "take (unat k') ds = take (unat k) ds @ drop (unat k) (take (unat k') ds)"
    by (metis append_take_drop_id min.absorb1 take_take)
  then show ?thesis
    unfolding hist_def by (metis foldl_join_append le_join1)
qed

lemma hist_split:
  assumes "log_ok C ds ic"
  shows "cdata ic = crdt_join C (hist C ds (min_delta ic)) (foldl (crdt_join C) (crdt_minimum C) (deltas ic))"
proof -
  have "cdata ic = foldl (crdt_join C) (crdt_minimum C) (take (unat (min_delta ic)) ds @ drop (unat (min_delta ic)) ds)"
    using assms by (simp add: log_ok_def)
  then show ?thesis unfolding foldl_join_append using assms by (simp add: hist_def log_ok_def)
qed

subsection \<open>What growth keeps\<close>

lemma growsE:
  assumes "grows C n D n' D'" "cstate (actors n s) = Replica ic"
  obtains ic' es where "cstate (actors n' s) = Replica ic'" "lat_le (crdt_join C) (cdata ic) (cdata ic')"
    "cclock ic \<le> cclock ic'" "D' s = D s @ es" "length (D s) = unat (cclock ic)"
  using assms unfolding grows_def by blast

lemma hist_grows:
  assumes "grows C n D n' D'" "cstate (actors n s) = Replica ic" "k \<le> cclock ic"
  shows "hist C (D' s) k = hist C (D s) k"
  using growsE[OF assms(1,2)] assms(3) by (metis hist_append word_le_nat_alt)

lemma at_least_grows:
  assumes g: "grows C n D n' D'" and a: "at_least C n t x"
  shows "at_least C n' t x"
proof -
  from a obtain y where y: "data_at n t = Some y" "lat_le (crdt_join C) x y" by (auto simp: at_least_def)
  then obtain ic where ic: "cstate (actors n t) = Replica ic" "y = cdata ic"
    by (auto simp: data_at_def split: causal_state.splits)
  from growsE[OF g ic(1)] obtain ic' where
    "cstate (actors n' t) = Replica ic'" "lat_le (crdt_join C) (cdata ic) (cdata ic')" by metis
  then show ?thesis using y(2) ic(2) unfolding at_least_def data_at_def by (auto intro: le_trans)
qed

lemma ack_okI:
  "m \<in> U \<Longrightarrow> m_id m = i \<Longrightarrow> cstate (actors n t) = Replica ic \<Longrightarrow> k \<le> cclock ic \<Longrightarrow>
   at_least C n (m_socket m) (hist C (D t) k) \<Longrightarrow> ack_ok C U n D t i k"
  unfolding ack_ok_def by blast

lemma delta_okI:
  assumes "m \<in> U" "m_id m = i" "cstate (actors n (m_socket m)) = Replica ic" "k \<le> cclock ic"
    "lat_le (crdt_join C) (hist C (D (m_socket m)) k) d \<or>
     (\<exists>y. data_at n t = Some y \<and> lat_le (crdt_join C) (hist C (D (m_socket m)) k) (crdt_join C y d))"
  shows "delta_ok C U n D t d i k"
  using assms unfolding delta_ok_def by blast

lemma ack_ok_grows:
  assumes g: "grows C n D n' D'" and a: "ack_ok C U n D t i k"
  shows "ack_ok C U n' D' t i k"
proof -
  from a obtain m ic where a: "m \<in> U" "m_id m = i" "cstate (actors n t) = Replica ic" "k \<le> cclock ic"
    "at_least C n (m_socket m) (hist C (D t) k)" unfolding ack_ok_def by blast
  from growsE[OF g a(3)] obtain ic' where ic': "cstate (actors n' t) = Replica ic'" "cclock ic \<le> cclock ic'" by metis
  have "at_least C n' (m_socket m) (hist C (D' t) k)"
    using at_least_grows[OF g a(5)] hist_grows[OF g a(3,4)] by simp
  moreover have "k \<le> cclock ic'" using a(4) ic'(2) by (rule order_trans)
  ultimately show ?thesis using a(1,2) ic'(1) by (intro ack_okI)
qed

lemma delta_ok_grows:
  assumes g: "grows C n D n' D'" and a: "delta_ok C U n D t d i k"
  shows "delta_ok C U n' D' t d i k"
proof -
  let ?le = "lat_le (crdt_join C)"
  from a obtain m ic where a: "m \<in> U" "m_id m = i" "cstate (actors n (m_socket m)) = Replica ic" "k \<le> cclock ic"
    and le: "?le (hist C (D (m_socket m)) k) d \<or>
      (\<exists>y. data_at n t = Some y \<and> ?le (hist C (D (m_socket m)) k) (crdt_join C y d))"
    unfolding delta_ok_def by blast
  from growsE[OF g a(3)] obtain ic' where
    ic': "cstate (actors n' (m_socket m)) = Replica ic'" "cclock ic \<le> cclock ic'" by metis
  have "\<exists>y'. data_at n' t = Some y' \<and> ?le (hist C (D (m_socket m)) k) (crdt_join C y' d)"
    if y: "data_at n t = Some y" "?le (hist C (D (m_socket m)) k) (crdt_join C y d)" for y
  proof -
    have "at_least C n t y" using y(1) by (simp add: at_least_def le_refl)
    from at_least_grows[OF g this] obtain y' where "data_at n' t = Some y'" "?le y y'" by (auto simp: at_least_def)
    then show ?thesis using y(2) by (meson le_join_mono le_refl le_trans)
  qed
  with le have "?le (hist C (D' (m_socket m)) k) d \<or>
      (\<exists>y. data_at n' t = Some y \<and> ?le (hist C (D' (m_socket m)) k) (crdt_join C y d))"
    unfolding hist_grows[OF g a(3,4)] by blast
  moreover have "k \<le> cclock ic'" using a(4) ic'(2) by (rule order_trans)
  ultimately show ?thesis using a(1,2) ic'(1) by (intro delta_okI)
qed

lemma node_ok_grows:
  assumes g: "grows C n D n' D'" and a: "node_ok C U n s ds ic" and st: "cstate (actors n s) = Replica ic"
    and same: "views n' s = views n s" "ds = D s" "D' s = D s"
  shows "node_ok C U n' s (D' s) ic"
  using a at_least_grows[OF g] unfolding node_ok_def same by blast

text \<open>A dispersal sends deltas that bring their receivers up to date.\<close>

lemma sends_delta_ok:
  assumes ok: "node_ok C U n s (D s) ic" and st: "cstate (actors n s) = Replica ic" and snd: "sends_ok C ic out"
    and msg: "Send_Intra t msg \<in> set out"
  shows "\<exists>d i k. msg = Delta d i k \<and> delta_ok C U n D t d i k"
proof -
  let ?le = "lat_le (crdt_join C)" and ?dl = "foldl (crdt_join C) (crdt_minimum C) (deltas ic)"
  from snd msg obtain i m k where a: "acks ic i = Some (m, k)" "t = m_socket m" "k < cclock ic"
    and m: "msg = Delta (if k < min_delta ic then cdata ic else ?dl) (m_id (cmember ic)) (cclock ic)"
    unfolding sends_ok_def by blast
  have lg: "log_ok C (D s) ic" using ok by (simp add: node_ok_def replica_inv_def)
  have me: "cmember ic \<in> U" "m_socket (cmember ic) = s" using ok by (simp_all add: node_ok_def)
  have "delta_ok C U n D t (if k < min_delta ic then cdata ic else ?dl) (m_id (cmember ic)) (cclock ic)"
  proof (rule delta_okI[OF me(1) refl])
    show "cstate (actors n (m_socket (cmember ic))) = Replica ic" using st me(2) by simp
    show "?le (hist C (D (m_socket (cmember ic))) (cclock ic)) (if k < min_delta ic then cdata ic else ?dl) \<or>
      (\<exists>y. data_at n t = Some y \<and>
        ?le (hist C (D (m_socket (cmember ic))) (cclock ic)) (crdt_join C y (if k < min_delta ic then cdata ic else ?dl)))"
      unfolding me(2) hist_clock[OF lg]
    proof (cases "k < min_delta ic")
      case False
      then have mk: "min_delta ic \<le> k" by simp
      show "?le (cdata ic) (if k < min_delta ic then cdata ic else ?dl) \<or>
        (\<exists>y. data_at n t = Some y \<and> ?le (cdata ic) (crdt_join C y (if k < min_delta ic then cdata ic else ?dl)))"
      proof (cases "k = 0")
        case True
        with mk have "min_delta ic = 0" by simp
        with hist_split[OF lg] have "cdata ic = ?dl" by (simp add: hist_def join_bot)
        with False show ?thesis by (simp add: le_refl)
      next
        case nz: False
        then have "at_least C n t (hist C (D s) k)" using ok a(1,2) unfolding node_ok_def by blast
        then obtain y where y: "data_at n t = Some y" "?le (hist C (D s) k) y" by (auto simp: at_least_def)
        have "?le (hist C (D s) (min_delta ic)) y" using hist_mono[OF mk] y(2) by (rule le_trans)
        then have "?le (cdata ic) (crdt_join C y ?dl)"
          unfolding hist_split[OF lg] by (intro le_join_mono le_refl)
        with y(1) False show ?thesis by auto
      qed
    qed (simp add: le_refl)
  qed simp
  with m show ?thesis by blast
qed

end

subsection \<open>The invariant holds in every reachable network\<close>

lemma net_step_simps [simp]:
  "actors (net_step s a out v n) = (actors n)(s := a)"
  "wire (net_step s a out v n) = wire n \<union> sent_by out"
  "views (net_step s a out v n) = (views n)(s := v)"
  by (simp_all add: net_step_def)

lemma in_sent_by [simp]: "(t, m) \<in> sent_by out \<longleftrightarrow> Send_Intra t m \<in> set out"
  by (simp add: sent_by_def)

lemma net_invD:
  assumes "net_inv C U n D"
  shows "cstate (actors n s) = Replica ic \<Longrightarrow> node_ok C U n s (D s) ic"
    "(t, Delta d i k) \<in> wire n \<Longrightarrow> delta_ok C U n D t d i k"
    "(t, Ack i k) \<in> wire n \<Longrightarrow> ack_ok C U n D t i k"
  using assms unfolding net_inv_def by blast+

lemma net_invI:
  assumes "\<And>s ic. cstate (actors n s) = Replica ic \<Longrightarrow> node_ok C U n s (D s) ic"
    "\<And>t d i k. (t, Delta d i k) \<in> wire n \<Longrightarrow> delta_ok C U n D t d i k"
    "\<And>t i k. (t, Ack i k) \<in> wire n \<Longrightarrow> ack_ok C U n D t i k"
  shows "net_inv C U n D"
  using assms unfolding net_inv_def by blast

lemma node_okD:
  assumes "node_ok C U n s ds ic"
  shows "replica_inv C ds ic" "length ds = unat (cclock ic)" "tracks ic (fst (views n s)) (snd (views n s))"
    "fst (views n s) \<subseteq> U" "cmember ic \<in> U" "m_socket (cmember ic) = s"
    "acks ic i = Some (m, k) \<Longrightarrow> k = 0 \<or> at_least C n (m_socket m) (hist C ds k)"
  using assms unfolding node_ok_def replica_inv_def log_ok_def by blast+

context crdt
begin

text \<open>A step at one socket: the others keep what they know, the new messages are justified.\<close>

lemma net_step_inv:
  fixes n :: "('s, 'd, 'u, 'r) net" and D s a out v ds
  defines "n' \<equiv> net_step s a out v n" and "D' \<equiv> D(s := ds)"
  assumes inv: "net_inv C U n D" and g: "grows C n D n' D'"
    and node: "\<And>ic. cstate a = Replica ic \<Longrightarrow> node_ok C U n' s ds ic"
    and msgs: "\<And>t d i k. Send_Intra t (Delta d i k) \<in> set out \<Longrightarrow> delta_ok C U n' D' t d i k"
      "\<And>t i k. Send_Intra t (Ack i k) \<in> set out \<Longrightarrow> ack_ok C U n' D' t i k"
  shows "net_inv C U n' D'"
proof (rule net_invI)
  fix s' ic
  assume st: "cstate (actors n' s') = Replica ic"
  show "node_ok C U n' s' (D' s') ic"
  proof (cases "s' = s")
    case True
    with st node[of ic] show ?thesis by (simp add: n'_def D'_def)
  next
    case False
    with st have "cstate (actors n s') = Replica ic" by (simp add: n'_def)
    from node_ok_grows[OF g net_invD(1)[OF inv this] this] False show ?thesis by (simp add: n'_def D'_def)
  qed
next
  fix t d i k
  assume "(t, Delta d i k) \<in> wire n'"
  then show "delta_ok C U n' D' t d i k"
    using msgs(1) delta_ok_grows[OF g net_invD(2)[OF inv]] by (auto simp: n'_def)
next
  fix t i k
  assume "(t, Ack i k) \<in> wire n'"
  then show "ack_ok C U n' D' t i k"
    using msgs(2) ack_ok_grows[OF g net_invD(3)[OF inv]] by (auto simp: n'_def)
qed

lemma grows_at:
  assumes inv: "net_inv C U n D"
    and here: "\<And>ic. cstate (actors n s) = Replica ic \<Longrightarrow>
      \<exists>ic' es. cstate a = Replica ic' \<and> lat_le (crdt_join C) (cdata ic) (cdata ic') \<and>
        cclock ic \<le> cclock ic' \<and> ds = D s @ es"
  shows "grows C n D (net_step s a out v n) (D(s := ds))"
  unfolding grows_def
proof (intro allI impI)
  fix s' ic
  assume st: "cstate (actors n s') = Replica ic"
  note len = node_okD(2)[OF net_invD(1)[OF inv st]]
  show "\<exists>ic' es. cstate (actors (net_step s a out v n) s') = Replica ic' \<and>
      lat_le (crdt_join C) (cdata ic) (cdata ic') \<and> cclock ic \<le> cclock ic' \<and>
      (D(s := ds)) s' = D s' @ es \<and> length (D s') = unat (cclock ic)"
  proof (cases "s' = s")
    case True
    from here[OF st[unfolded True]] st len True show ?thesis by auto
  next
    case False
    with st len show ?thesis by (auto simp: le_refl)
  qed
qed

text \<open>A replica's own step.  Its messages are dispersals or justified acknowledgements.\<close>

lemma replica_step:
  fixes n :: "('s, 'd, 'u, 'r) net" and D s a out v es
  defines "n' \<equiv> net_step s a out v n" and "D' \<equiv> D(s := D s @ es)"
  assumes inv: "net_inv C U n D" and st: "cstate (actors n s) = Replica ic" and st': "cstate a = Replica ic'"
    and rinv: "replica_inv C (D s @ es) ic'" and le: "lat_le (crdt_join C) (cdata ic) (cdata ic')"
    and view: "tracks ic' (fst v) (snd v)" "fst v \<subseteq> U" "snd v \<in> U" "m_socket (snd v) = s"
    and ak: "\<And>i m k. acks ic' i = Some (m, k) \<Longrightarrow>
      k = 0 \<or> acks ic i = Some (m, k) \<or> k \<le> cclock ic \<and> at_least C n (m_socket m) (hist C (D s) k)"
    and out: "\<And>t msg. Send_Intra t msg \<in> set out \<Longrightarrow>
      sends_ok C ic' [Send_Intra t msg :: ('s, 'r) causal_effect] \<or> (\<exists>i k. msg = Ack i k \<and> (grows C n D n' D' \<longrightarrow> ack_ok C U n' D' t i k))"
  shows "net_inv C U n' D'" "grows C n D n' D'"
proof -
  note old = net_invD(1)[OF inv st]
  have len: "length (D s @ es) = unat (cclock ic')" using rinv by (simp add: replica_inv_def log_ok_def)
  have clk: "cclock ic \<le> cclock ic'" using len node_okD(2)[OF old] by (simp add: word_le_nat_alt)
  show g: "grows C n D n' D'"
    unfolding n'_def D'_def by (rule grows_at[OF inv]) (use st st' le clk in auto)
  have node: "node_ok C U n' s (D s @ es) ic'"
    unfolding node_ok_def
  proof (intro conjI allI impI)
    fix i m k
    assume k: "acks ic' i = Some (m, k)"
    from ak[OF this] consider "k = 0" | "k \<le> cclock ic" "at_least C n (m_socket m) (hist C (D s) k)"
      using node_okD(7)[OF old] acks_okD(2)[of ic i m k] node_okD(1)[OF old] unfolding replica_inv_def by blast
    then show "k = 0 \<or> at_least C n' (m_socket m) (hist C (D s @ es) k)"
    proof cases
      case 2
      have "hist C (D s @ es) k = hist C (D s) k" using hist_grows[OF g st 2(1)] by (simp add: D'_def)
      with at_least_grows[OF g 2(2)] show ?thesis by simp
    qed simp
  qed (use rinv view tracksD(1)[OF view(1)] in \<open>simp_all add: n'_def\<close>)
  have cst: "cstate (actors n' s) = Replica ic'" by (simp add: n'_def st')
  have D's: "D' s = D s @ es" by (simp add: D'_def)
  have delta: "\<exists>d i k. msg = Delta d i k \<and> delta_ok C U n' D' t d i k"
    if "sends_ok C ic' [Send_Intra t msg :: ('s, 'r) causal_effect]" for t msg
    by (rule sends_delta_ok[where D = D', OF node[folded D's] cst that]) simp
  show "net_inv C U n' D'"
    unfolding n'_def D'_def
  proof (rule net_step_inv[OF inv]; fold n'_def D'_def)
    show "grows C n D n' D'" by (rule g)
    show "node_ok C U n' s (D s @ es) x" if "cstate a = Replica x" for x using that st' node by simp
    show "delta_ok C U n' D' t d i k" if "Send_Intra t (Delta d i k) \<in> set out" for t d i k
      using out[OF that] delta by blast
    show "ack_ok C U n' D' t i k" if "Send_Intra t (Ack i k) \<in> set out" for t i k
      using out[OF that] delta g by blast
  qed
qed

end

lemma tracks_cong:
  assumes "tracks ic M me" "cmember ic' = cmember ic"
    "\<And>i m. (\<exists>k. acks ic' i = Some (m, k)) \<longleftrightarrow> (\<exists>k. acks ic i = Some (m, k))"
  shows "tracks ic' M me"
  using assms unfolding tracks_def by simp

lemma sends_ok_single: "sends_ok C ic out \<Longrightarrow> Send_Intra t m \<in> set out \<Longrightarrow> sends_ok C ic [Send_Intra t m]"
  unfolding sends_ok_def by simp

lemma with_replica_Some:
  assumes "with_replica a res = Some (a', out)"
  obtains ic c where "res = Some (ic, c, out)" "cstate a' = Replica ic" "ccommon a' = c"
  using assms by (auto simp: with_replica_def)

definition well_iterated :: "'r causal_env \<Rightarrow> member set \<Rightarrow> bool" where
  "well_iterated env U \<longleftrightarrow> inj_on m_id U \<and> (\<forall>S. S \<subseteq> U \<longrightarrow> set (ce_iter env S) = S)"

lemma well_iteratedD:
  assumes "well_iterated env U"
  shows "inj_on m_id U" "S \<subseteq> U \<Longrightarrow> set (ce_iter env S) = S"
  using assms unfolding well_iterated_def by blast+

lemma causal_events_acks:
  "causal_events es (ic, dis) = Some (ic', dis') \<Longrightarrow> acks ic' i = Some (m, k) \<Longrightarrow> k = 0 \<or> acks ic i = Some (m, k)"
proof (induction es arbitrary: ic dis)
  case (Cons e es)
  then show ?case
    by (cases e) (fastforce simp: Let_def split: if_splits option.splits)+
qed simp

context crdt
begin

text \<open>Steps that leave the acknowledgements alone: commands, timeouts, received deltas.\<close>

lemma self_step:
  fixes n :: "('s, 'd, 'u, 'r) net"
  assumes inv: "net_inv C U n D" and st: "cstate (actors n s) = Replica ic" and st': "cstate a = Replica ic'"
    and rinv: "replica_inv C (D s @ es) ic'" and le: "lat_le (crdt_join C) (cdata ic) (cdata ic')"
    and same: "acks ic' = acks ic" "cmember ic' = cmember ic"
    and out: "\<And>t msg. Send_Intra t msg \<in> set out \<Longrightarrow>
      sends_ok C ic' [Send_Intra t msg :: ('s, 'r) causal_effect] \<or> (\<exists>i k. msg = Ack i k \<and>
        (grows C n D (net_step s a out (views n s) n) (D(s := D s @ es)) \<longrightarrow>
           ack_ok C U (net_step s a out (views n s) n) (D(s := D s @ es)) t i k))"
  shows "net_inv C U (net_step s a out (views n s) n) (D(s := D s @ es))"
proof (rule replica_step(1)[OF inv st st' rinv le _ _ _ _ _ out])
  note old = net_invD(1)[OF inv st]
  note t = node_okD(3)[OF old]
  show "tracks ic' (fst (views n s)) (snd (views n s))" by (rule tracks_cong[OF t]) (simp_all add: same)
  show "fst (views n s) \<subseteq> U" by (rule node_okD(4)[OF old])
  have "snd (views n s) = cmember ic" using tracksD(1)[OF t] by simp
  then show "snd (views n s) \<in> U" "m_socket (snd (views n s)) = s" using node_okD(5,6)[OF old] by simp_all
qed (simp_all add: same)

lemma idle_step:
  fixes n :: "('s, 'd, 'u, 'r) net"
  assumes inv: "net_inv C U n D" and same: "cstate a = cstate (actors n s)"
    and out: "\<And>ic. cstate a = Replica ic \<Longrightarrow> sends_ok C ic out" "\<And>w t m. cstate a = Waiting w \<Longrightarrow> Send_Intra t m \<notin> set out"
  shows "net_inv C U (net_step s a out (views n s) n) D"
proof (cases "cstate (actors n s)")
  case (Replica ic)
  have "net_inv C U (net_step s a out (views n s) n) (D(s := D s @ []))"
    by (rule self_step[OF inv Replica])
      (use Replica same out node_okD(1)[OF net_invD(1)[OF inv Replica]] in \<open>auto simp: le_refl intro: sends_ok_single\<close>)
  then show ?thesis by simp
next
  case (Waiting w)
  have "net_inv C U (net_step s a out (views n s) n) (D(s := D s))"
    by (rule net_step_inv[OF inv grows_at[OF inv]]) (use Waiting same out in auto)
  then show ?thesis by simp
qed

lemma waiting_step:
  fixes n :: "('s, 'd, 'u, 'r) net"
  assumes inv: "net_inv C U n D" and st: "cstate (actors n s) = Waiting w" and st': "cstate a = Waiting w'"
    and out: "\<And>t m. Send_Intra t m \<notin> set out"
  shows "net_inv C U (net_step s a out (views n s) n) D"
proof -
  have "net_inv C U (net_step s a out (views n s) n) (D(s := D s))"
    by (rule net_step_inv[OF inv grows_at[OF inv]]) (use st st' out in auto)
  then show ?thesis by simp
qed

lemma mutate_step:
  fixes n :: "('s, 'd, 'u, 'r) net"
  assumes inv: "net_inv C U n D" and room: "clock_room (actors n s)"
    and run: "causal_recv C env (Causal_Cmd (Mutate x)) (actors n s) = Some (a, out)"
  shows "\<exists>D'. net_inv C U (net_step s a out (views n s) n) D'"
proof (cases "cstate (actors n s)")
  case (Replica ic)
  with run have "with_replica (actors n s) (causal_op C env (ccommon (actors n s)) x ic) = Some (a, out)"
    by (simp add: causal_recv_def Let_def)
  then obtain ic' c where op: "causal_op C env (ccommon (actors n s)) x ic = Some (ic', c, out)"
    and st': "cstate a = Replica ic'" by (rule with_replica_Some)
  have lt: "cclock ic \<noteq> - 1" using room Replica by (simp add: clock_room_def)
  from causal_op_inv[OF node_okD(1)[OF net_invD(1)[OF inv Replica]] lt op] obtain es where
    r: "replica_inv C (D s @ es) ic'" "lat_le (crdt_join C) (cdata ic) (cdata ic')" "acks ic' = acks ic"
      "cmember ic' = cmember ic" "sends_ok C ic' out" by blast
  have "net_inv C U (net_step s a out (views n s) n) (D(s := D s @ es))"
    by (rule self_step[OF inv Replica st' r(1-4)]) (use r(5) in \<open>auto intro: sends_ok_single\<close>)
  then show ?thesis by blast
next
  case (Waiting w)
  with run have "a = (actors n s)\<lparr>cstate := Waiting (w\<lparr>ops_queue := ops_queue w @ [x]\<rparr>)\<rparr>" "out = []"
    by (simp_all add: causal_recv_def Let_def)
  then show ?thesis using waiting_step[OF inv Waiting, of a _ out] by auto
qed

lemma delta_step:
  fixes n :: "('s, 'd, 'u, 'r) net"
  assumes inv: "net_inv C U n D" and room: "clock_room (actors n s)" and wi: "inj_on m_id U"
    and msg: "(s, Delta d i k) \<in> wire n" and st: "cstate (actors n s) = Replica ic" and am: "acks ic i = Some (m, k0)"
    and run: "causal_delta C env c d i k ic = Some (ic', c', out)" and st': "cstate a = Replica ic'"
  shows "\<exists>D'. net_inv C U (net_step s a out (views n s) n) D'"
    "at_least C (net_step s a out (views n s) n) s (hist C (D (m_socket m)) k)"
    "cstate (actors n (m_socket m)) = Replica icm \<Longrightarrow> k \<le> cclock icm"
proof -
  let ?n' = "net_step s a out (views n s) n"
  note old = net_invD(1)[OF inv st]
  have lt: "cclock ic \<noteq> - 1" using room st by (simp add: clock_room_def)
  from causal_delta_inv[OF node_okD(1)[OF old] lt am run] obtain es rest where
    r: "replica_inv C (D s @ es) ic'" "lat_le (crdt_join C) (cdata ic) (cdata ic')"
      "lat_le (crdt_join C) d (cdata ic')" "acks ic' = acks ic" "cmember ic' = cmember ic"
      and out: "out = Send_Intra (m_socket m) (Ack (m_id (cmember ic)) k) # rest" "sends_ok C ic' rest" by blast
  from net_invD(2)[OF inv msg] obtain m' icm' where m': "m' \<in> U" "m_id m' = i"
    "cstate (actors n (m_socket m')) = Replica icm'" "k \<le> cclock icm'"
    and le: "lat_le (crdt_join C) (hist C (D (m_socket m')) k) d \<or>
       (\<exists>y. data_at n s = Some y \<and> lat_le (crdt_join C) (hist C (D (m_socket m')) k) (crdt_join C y d))"
    unfolding delta_ok_def by blast
  have "m \<in> U" "m_id m = i" using tracksD(2)[OF node_okD(3)[OF old] am] node_okD(4)[OF old] by auto
  with m' wi have mm: "m' = m" by (auto dest: inj_onD)
  show "cstate (actors n (m_socket m)) = Replica icm \<Longrightarrow> k \<le> cclock icm" using m'(3,4) mm by simp
  have "lat_le (crdt_join C) (hist C (D (m_socket m)) k) (cdata ic')"
    using le r(2,3) st unfolding mm data_at_def by (auto intro: le_trans join_least)
  then show al: "at_least C ?n' s (hist C (D (m_socket m)) k)"
    unfolding at_least_def data_at_def by (simp add: st')
  have "net_inv C U ?n' (D(s := D s @ es))"
  proof (rule self_step[OF inv st st' r(1,2,4,5)])
    let ?D' = "D(s := D s @ es)"
    fix t msg
    assume "Send_Intra t msg \<in> set out"
    then consider "t = m_socket m" "msg = Ack (m_id (cmember ic)) k" | "Send_Intra t msg \<in> set rest" using out(1) by auto
    then show "sends_ok C ic' [Send_Intra t msg] \<or> (\<exists>i k. msg = Ack i k \<and>
        (grows C n D ?n' ?D' \<longrightarrow> ack_ok C U ?n' ?D' t i k))"
    proof cases
      case 1
      have "ack_ok C U ?n' ?D' (m_socket m) (m_id (cmember ic)) k" if g: "grows C n D ?n' ?D'"
      proof -
        from growsE[OF g m'(3)] obtain icn where icn: "cstate (actors ?n' (m_socket m)) = Replica icn" "cclock icm' \<le> cclock icn"
          unfolding mm by metis
        have "hist C (?D' (m_socket m)) k = hist C (D (m_socket m)) k" using hist_grows[OF g m'(3,4)] unfolding mm .
        with al have "at_least C ?n' (m_socket (cmember ic)) (hist C (?D' (m_socket m)) k)"
          unfolding node_okD(6)[OF old] by (simp only:)
        then show ?thesis by (rule ack_okI[OF node_okD(5)[OF old] refl icn(1) order_trans[OF m'(4) icn(2)]])
      qed
      with 1 show ?thesis by blast
    next
      case 2
      then show ?thesis using sends_ok_single[OF out(2)] by blast
    qed
  qed
  then show "\<exists>D'. net_inv C U ?n' D'" by blast
qed

end

lemma sends_ok_none: "(\<And>t m. Send_Intra t m \<notin> set out) \<Longrightarrow> sends_ok C ic out"
  unfolding sends_ok_def by blast

lemma sends_ok_Nil [simp]: "sends_ok C ic []"
  by (rule sends_ok_none) simp

context crdt
begin

lemma ack_step:
  fixes n :: "('s, 'd, 'u, 'r) net"
  assumes inv: "net_inv C U n D" and inj: "inj_on m_id U" and st: "cstate (actors n s) = Replica ic"
    and msg: "(s, Ack i k) \<in> wire n"
  shows "\<exists>ic'. causal_ack i k ic = Some ic' \<and> cdata ic' = cdata ic \<and> cclock ic' = cclock ic \<and>
      acks ic' = (case acks ic i of Some (m, k0) \<Rightarrow> (acks ic)(i \<mapsto> (m, max k0 k)) | None \<Rightarrow> acks ic) \<and>
      (\<forall>a. cstate a = Replica ic' \<longrightarrow> net_inv C U (net_step s a [] (views n s) n) D)"
proof -
  note old = net_invD(1)[OF inv st]
  from net_invD(3)[OF inv msg] st obtain m where m: "m \<in> U" "m_id m = i" "k \<le> cclock ic"
    and al: "at_least C n (m_socket m) (hist C (D s) k)" unfolding ack_ok_def by auto
  from causal_ack_ok[OF node_okD(1)[OF old] m(3), of i] obtain ic' where
    run: "causal_ack i k ic = Some ic'" and r: "replica_inv C (D s) ic'" "cdata ic' = cdata ic"
      "cclock ic' = cclock ic" "cmember ic' = cmember ic"
    and ak: "acks ic' = (case acks ic i of Some (m, k0) \<Rightarrow> (acks ic)(i \<mapsto> (m, max k0 k)) | None \<Rightarrow> acks ic)" by blast
  have "net_inv C U (net_step s a [] (views n s) n) D" if st': "cstate a = Replica ic'" for a
  proof -
    note t = node_okD(3)[OF old]
    have me: "snd (views n s) = cmember ic" using tracksD(1)[OF t] by simp
    have "net_inv C U (net_step s a [] (views n s) n) (D(s := D s @ []))"
    proof (rule replica_step(1)[OF inv st st'])
      show "replica_inv C (D s @ []) ic'" using r(1) by simp
      show "lat_le (crdt_join C) (cdata ic) (cdata ic')" by (simp add: r(2) le_refl)
      show "tracks ic' (fst (views n s)) (snd (views n s))"
        by (rule tracks_cong[OF t r(4)]) (auto simp: ak split: option.splits)
      show "fst (views n s) \<subseteq> U" "snd (views n s) \<in> U" "m_socket (snd (views n s)) = s"
        using node_okD(4-6)[OF old] me by simp_all
      show "k' = 0 \<or> acks ic j = Some (m', k') \<or> k' \<le> cclock ic \<and> at_least C n (m_socket m') (hist C (D s) k')"
        if a: "acks ic' j = Some (m', k')" for j m' k'
      proof (cases "acks ic j = Some (m', k')")
        case False
        with a ak have j: "j = i" "k' = k" "\<exists>k0. acks ic i = Some (m', k0)"
          by (auto simp: max_def split: option.splits if_splits)
        then have "m' \<in> U" "m_id m' = i" using tracksD(2)[OF t] node_okD(4)[OF old] by blast+
        with m(1,2) inj have "m' = m" by (auto dest: inj_onD)
        with j al m(3) show ?thesis by simp
      qed simp
    qed simp
    then show ?thesis by simp
  qed
  with run r(2,3) ak show ?thesis by blast
qed

lemma update_replica_step:
  fixes n :: "('s, 'd, 'u, 'r) net"
  assumes inv: "net_inv C U n D" and inj: "inj_on m_id U" and st: "cstate (actors n s) = Replica ic"
    and nxt: "update_next U s (actors n s) (views n s) u = Some v"
    and run: "causal_recv C env (Causal_Update u) (actors n s) = Some (a, out)"
  shows "net_inv C U (net_step s a out v n) D"
proof -
  note old = net_invD(1)[OF inv st]
  from nxt st have v: "follows (cu_events u) (views n s) = Some v" "fst v \<subseteq> U" "snd v \<in> U" "m_socket (snd v) = s"
    and new: "{m. Added m \<in> set (cu_events u)} \<union> {m. Joined m \<in> set (cu_events u)} \<subseteq> U"
    by (auto simp: update_next_def split: option.splits if_splits)
  have me: "snd (views n s) \<in> U" using node_okD(3,5)[OF old] tracksD(1) by metis
  from node_okD(1)[OF old] have ok: "acks_ok ic" and lg: "log_ok C (D s) ic" by (simp_all add: replica_inv_def)
  from run st obtain ic2 c where up: "causal_update C env (ccommon (actors n s)) u ic = Some (ic2, c, out)"
    and st': "cstate a = Replica ic2" by (auto simp: causal_recv_def Let_def elim: with_replica_Some)
  have fol: "follows (cu_events u) (fst (views n s), snd (views n s)) = Some (fst v, snd v)" using v(1) by simp
  have sub: "insert (snd (views n s)) (fst (views n s)) \<union> {m. Added m \<in> set (cu_events u)} \<union> {m. Joined m \<in> set (cu_events u)} \<subseteq> U"
    using me node_okD(4)[OF old] new by auto
  from causal_events_ok[OF fol node_okD(3)[OF old] ok inj sub] obtain ic1 dis where
    ev: "causal_events (cu_events u) (ic, False) = Some (ic1, dis)" and t1: "tracks ic1 (fst v) (snd v)" "acks_ok ic1"
    and r1: "cdata ic1 = cdata ic" "deltas ic1 = deltas ic" "cclock ic1 = cclock ic" "min_delta ic1 = min_delta ic" by blast
  from up ev have ic2: "ic2 = ic1\<lparr>ccluster := cu_nodes u - {cmember ic1}\<rparr>" and so: "sends_ok C ic2 out"
    by (auto simp: causal_update_def Let_def split: if_splits intro: disperse_sends)
  have "net_inv C U (net_step s a out v n) (D(s := D s @ []))"
  proof (rule replica_step(1)[OF inv st st' _ _ _ v(2-4)])
    show "replica_inv C (D s @ []) ic2"
      using t1(2) lg r1 unfolding ic2 replica_inv_def log_ok_def acks_ok_def by simp
    show "lat_le (crdt_join C) (cdata ic) (cdata ic2)" by (simp add: ic2 r1 le_refl)
    show "tracks ic2 (fst v) (snd v)" by (rule tracks_cong[OF t1(1)]) (simp_all add: ic2)
    show "k = 0 \<or> acks ic i = Some (m, k) \<or> k \<le> cclock ic \<and> at_least C n (m_socket m) (hist C (D s) k)"
      if "acks ic2 i = Some (m, k)" for i m k
      using causal_events_acks[OF ev] that by (auto simp: ic2)
  qed (use sends_ok_single[OF so] in blast)
  then show ?thesis by simp
qed

lemma update_waiting_step:
  fixes n :: "('s, 'd, 'u, 'r) net"
  assumes inv: "net_inv C U n D" and wi: "well_iterated env U" and st: "cstate (actors n s) = Waiting w"
    and nxt: "update_next U s (actors n s) (views n s) u = Some v"
    and run: "causal_recv C env (Causal_Update u) (actors n s) = Some (a, out)"
  shows "\<exists>D'. net_inv C U (net_step s a out v n) D'"
proof -
  from nxt st obtain me where v: "cu_nodes u \<subseteq> U" "me \<in> U" "m_socket me = s" "v = (cu_nodes u, me)" "cu_events u \<noteq> []"
    and lst: "last (cu_events u) = Joined me \<or> last (cu_events u) = Alone me"
    by (auto simp: update_next_def split: if_splits cluster_event.splits)
  let ?ic = "to_ic C env w me (cu_nodes u)"
  from run st v(5) lst have st': "cstate a = Replica ?ic" and out: "Send_Intra t m \<notin> set out" for t m
    by (auto simp: causal_recv_def Let_def with_replica_def publish_def)
  have sub: "cu_nodes u - {me} \<subseteq> U" using v(1) by blast
  note iter = well_iteratedD(2)[OF wi sub]
  note ti = to_ic_inv[OF iter inj_on_subset[OF well_iteratedD(1)[OF wi] v(1)], where w = w]
  from ti(1) obtain ds where ds: "replica_inv C ds ?ic" by blast
  have "inj_on m_id (set (ce_iter env (cu_nodes u - {me})))"
    unfolding iter by (rule inj_on_subset[OF well_iteratedD(1)[OF wi] sub])
  from fold_acks[OF this, of "\<lambda>_. None"] have "acks ?ic i = Some (m, k) \<Longrightarrow> k = 0" for i m k
    by (simp add: to_ic_def Let_def)
  then have node: "node_ok C U (net_step s a out v n) s ds ?ic"
    unfolding node_ok_def net_step_simps fun_upd_same v(4) fst_conv snd_conv tracksD(1)[OF ti(2)]
    using ds ti(2) v(1-3) by blast
  have "net_inv C U (net_step s a out v n) (D(s := ds))"
    by (rule net_step_inv[OF inv grows_at[OF inv]]) (use st st' out node in auto)
  then show ?thesis by blast
qed

lemma command_step:
  fixes n :: "('s, 'd, 'u, 'r) net"
  assumes inv: "net_inv C U n D" and room: "clock_room (actors n s)" and msg: "msg = Causal_Cmd cmd \<or> msg = Disperse_Timeout"
    and run: "causal_recv C env msg (actors n s) = Some (a, out)"
  shows "\<exists>D'. net_inv C U (net_step s a out (views n s) n) D'"
proof -
  have idle: ?thesis if "cstate a = cstate (actors n s)" "\<And>t m. Send_Intra t m \<notin> set out"
    using idle_step[OF inv that(1) sends_ok_none[OF that(2)] that(2)] by blast
  consider x where "msg = Causal_Cmd (Mutate x)" | r where "msg = Causal_Cmd (Subscribe_Data r)"
    | p where "msg = Causal_Cmd (Set_Preference p)" | "msg = Disperse_Timeout"
    using msg by (cases cmd) auto
  then show ?thesis
  proof cases
    case 1
    from mutate_step[OF inv room run[unfolded 1]] show ?thesis .
  next
    case 2
    with run show ?thesis by (intro idle) (auto simp: causal_recv_def Let_def split: causal_state.splits)
  next
    case 3
    with run show ?thesis by (intro idle) (auto simp: causal_recv_def Let_def)
  next
    case 4
    show ?thesis
    proof (cases "cstate (actors n s)")
      case (Replica ic)
      with run 4 have "a = actors n s" "sends_ok C ic out"
        by (auto simp: causal_recv_def Let_def split: if_splits intro: disperse_sends)
      with idle_step[OF inv, of a s out] Replica show ?thesis by auto
    next
      case (Waiting w)
      with run 4 show ?thesis by (intro idle) (auto simp: causal_recv_def Let_def)
    qed
  qed
qed

lemma deliver_step:
  fixes n :: "('s, 'd, 'u, 'r) net"
  assumes inv: "net_inv C U n D" and inj: "inj_on m_id U" and room: "clock_room (actors n s)" and msg: "(s, m) \<in> wire n"
    and run: "causal_recv C env (Causal_Intra m) (actors n s) = Some (a, out)"
  shows "\<exists>D'. net_inv C U (net_step s a out (views n s) n) D'"
proof (cases "cstate (actors n s)")
  case (Waiting w)
  with run have "cstate a = cstate (actors n s)" "out = []" by (auto simp: causal_recv_def Let_def)
  then show ?thesis using idle_step[OF inv, of a s out] by auto
next
  case (Replica ic)
  show ?thesis
  proof (cases m)
    case (Ack i k)
    from ack_step[OF inv inj Replica msg[unfolded Ack]] obtain ic' where
      ic': "causal_ack i k ic = Some ic'" "\<forall>a. cstate a = Replica ic' \<longrightarrow> net_inv C U (net_step s a [] (views n s) n) D"
      by blast
    from run Replica Ack ic'(1) have "cstate a = Replica ic'" "out = []"
      by (auto simp: causal_recv_def Let_def with_replica_def)
    with ic'(2) show ?thesis by blast
  next
    case (Delta d i k)
    from run Replica Delta have "with_replica (actors n s) (causal_delta C env (ccommon (actors n s)) d i k ic) = Some (a, out)"
      by (simp add: causal_recv_def Let_def)
    then obtain ic' c where dl: "causal_delta C env (ccommon (actors n s)) d i k ic = Some (ic', c, out)"
      and st': "cstate a = Replica ic'" by (rule with_replica_Some)
    show ?thesis
    proof (cases "acks ic i")
      case None
      with dl st' Replica have "cstate a = cstate (actors n s)" "out = []" by (auto simp: causal_delta_def)
      then show ?thesis using idle_step[OF inv, of a s out] by auto
    next
      case (Some e)
      obtain mm k0 where "e = (mm, k0)" by (cases e)
      with Some have "acks ic i = Some (mm, k0)" by simp
      from delta_step(1)[OF inv room inj msg[unfolded Delta] Replica this dl st'] show ?thesis .
    qed
  qed
qed

lemma net_reach_inv:
  fixes n :: "('s, 'd, 'u, 'r) net"
  assumes "net_reach C env U n" and wi: "well_iterated env U"
  shows "\<exists>D. net_inv C U n D"
  using assms(1)
proof (induction rule: net_reach.induct)
  case (start n)
  have "cstate (actors n s) \<noteq> Replica ic" for s ic
    using start(2)[of s] by (auto simp: causal_new_def)
  with start(1) show ?case unfolding net_inv_def by auto
next
  case (command n s msg cmd a out)
  from command.IH obtain D where "net_inv C U n D" by blast
  from command_step[OF this command.hyps(2-4)] show ?case .
next
  case (deliver n s m a out)
  from deliver.IH obtain D where "net_inv C U n D" by blast
  moreover have "inj_on m_id U" using wi by (simp add: well_iterated_def)
  ultimately show ?case using deliver_step deliver.hyps(2-4) by blast
next
  case (update n s u v a out)
  from update.IH obtain D where inv: "net_inv C U n D" by blast
  have inj: "inj_on m_id U" using wi by (simp add: well_iterated_def)
  show ?case
  proof (cases "cstate (actors n s)")
    case (Replica ic)
    from update_replica_step[OF inv inj Replica update.hyps(2,3)] show ?thesis by blast
  next
    case (Waiting w)
    from update_waiting_step[OF inv wi Waiting update.hyps(2,3)] show ?thesis .
  qed
qed

end

end
