(* ===== verification/Causal_Convergence.thy ===== *)
theory Causal_Convergence
  imports Causal_Network
begin

text \<open>
  What the dispersal algorithm achieves in a network that loses, repeats and reorders datagrams:
  replicas that have stopped dispersing agree, one exchange brings the receiver up to date, no
  reachable message is fatal, and two inputs that are.
\<close>

subsection \<open>Agreement\<close>

context crdt
begin

lemma acked_included:
  fixes n :: "('s, 'd, 'u, 'r) net"
  assumes inv: "net_inv C U n D" and st: "cstate (actors n s) = Replica a" "cstate (actors n t) = Replica b"
    and mem: "cmember b \<in> fst (views n s)" "cmember b \<noteq> cmember a" and quiet: "min_ord a = cclock a"
  shows "lat_le (crdt_join C) (cdata a) (cdata b)"
proof -
  note na = net_invD(1)[OF inv st(1)] and nb = net_invD(1)[OF inv st(2)]
  from node_okD(1)[OF na] have ok: "acks_ok a" and lg: "log_ok C (D s) a" by (simp_all add: replica_inv_def)
  have "snd (views n s) = cmember a" using tracksD(1)[OF node_okD(3)[OF na]] by simp
  with tracksD(3)[OF node_okD(3)[OF na] mem(1)] mem(2) obtain k where k: "acks a (m_id (cmember b)) = Some (cmember b, k)" by auto
  have kc: "k = cclock a" using min_ord_le[OF ok k] acks_okD(2)[OF ok k] quiet by simp
  from node_okD(7)[OF na k] show ?thesis
  proof
    assume "k = 0"
    then show ?thesis using hist_zero[of "D s"] hist_clock[OF lg] kc by metis
  next
    assume "at_least C n (m_socket (cmember b)) (hist C (D s) k)"
    then show ?thesis unfolding kc hist_clock[OF lg] node_okD(6)[OF nb] at_least_def data_at_def by (simp add: st(2))
  qed
qed

lemma quiet_agree:
  fixes n :: "('s, 'd, 'u, 'r) net"
  assumes "net_reach C env U n" "well_iterated env U"
    and "cstate (actors n s) = Replica a" "cstate (actors n t) = Replica b" and "cmember a \<noteq> cmember b"
    and "cmember b \<in> fst (views n s)" "cmember a \<in> fst (views n t)"
    and "min_ord a = cclock a" "min_ord b = cclock b"
  shows "cdata a = cdata b"
  using net_reach_inv[OF assms(1,2)] acked_included[OF _ assms(3,4,6)] acked_included[OF _ assms(4,3,7)] assms(5,8,9)
  by (metis le_antisym)

subsection \<open>No reachable message is fatal\<close>

lemma op_returns:
  assumes "replica_inv C ds ic" "cclock ic \<noteq> - 1" "priority_known env c ic"
  shows "causal_op C env c x ic \<noteq> None"
  using changed_returns[OF assms] by (simp add: causal_op_def Let_def)

lemma delta_returns:
  assumes "replica_inv C ds ic" "cclock ic \<noteq> - 1" "priority_known env c ic"
  shows "causal_delta C env c d i k ic \<noteq> None"
  using changed_returns[OF assms] by (auto simp: causal_delta_def Let_def split: option.splits)

lemma recv_returns:
  fixes n :: "('s, 'd, 'u, 'r) net"
  assumes inv: "net_inv C U n D" and inj: "inj_on m_id U" and room: "clock_room (actors n s)"
    and pri: "ce_iter env (priority (preference (ccommon (actors n s)))) = []"
    and msg: "(\<exists>cmd. msg = Causal_Cmd cmd) \<or> msg = Disperse_Timeout \<or> (\<exists>m. msg = Causal_Intra m \<and> (s, m) \<in> wire n) \<or>
      (\<exists>u. msg = Causal_Update u \<and> update_next U s (actors n s) (views n s) u \<noteq> None)"
  shows "causal_recv C env msg (actors n s) \<noteq> None"
proof (cases "cstate (actors n s)")
  case (Waiting w)
  with msg show ?thesis
    by (cases msg)
      (auto simp: causal_recv_def Let_def with_replica_def publish_def update_next_def
        split: causal_cmd.splits cluster_event.splits if_splits)
next
  case (Replica ic)
  note old = net_invD(1)[OF inv Replica]
  note ri = node_okD(1)[OF old]
  have lt: "cclock ic \<noteq> - 1" using room Replica by (simp add: clock_room_def)
  have pk: "priority_known env (ccommon (actors n s)) ic'" for ic' :: "'s causal_ic" using pri by (simp add: priority_known_def)
  consider (cmd) cmd where "msg = Causal_Cmd cmd" | (timeout) "msg = Disperse_Timeout"
    | (ack) i k where "msg = Causal_Intra (Ack i k)" "(s, Ack i k) \<in> wire n"
    | (delta) d i k where "msg = Causal_Intra (Delta d i k)"
    | (update) u v where "msg = Causal_Update u" "update_next U s (actors n s) (views n s) u = Some v"
    using msg by (metis causal_intra.exhaust option.collapse)
  then show ?thesis
  proof cases
    case cmd
    have "with_replica a (causal_op C env (ccommon (actors n s)) x ic) \<noteq> None" for a :: "('s, 'd, 'u, 'r) causal" and x
      using op_returns[OF ri lt pk] by (simp add: with_replica_def)
    with cmd show ?thesis using Replica by (cases cmd) (simp_all add: causal_recv_def Let_def)
  next
    case timeout
    have "acks_ok ic" using ri by (simp add: replica_inv_def)
    with timeout show ?thesis using disperse_returns[OF _ pk] Replica
      by (auto simp: causal_recv_def Let_def)
  next
    case ack
    from ack_step[OF inv inj Replica ack(2)] show ?thesis
      by (auto simp: causal_recv_def Let_def with_replica_def Replica ack(1))
  next
    case delta
    have "with_replica a (causal_delta C env (ccommon (actors n s)) d i k ic) \<noteq> None" for a :: "('s, 'd, 'u, 'r) causal"
      using delta_returns[OF ri lt pk] by (simp add: with_replica_def)
    with delta show ?thesis using Replica by (simp add: causal_recv_def Let_def)
  next
    case update
    from update(2) Replica have fol: "follows (cu_events u) (fst (views n s), snd (views n s)) = Some (fst v, snd v)"
      and sub: "{m. Added m \<in> set (cu_events u)} \<union> {m. Joined m \<in> set (cu_events u)} \<subseteq> U"
      by (auto simp: update_next_def split: option.splits if_splits)
    have "insert (snd (views n s)) (fst (views n s)) \<subseteq> U"
      using node_okD(4,5)[OF old] tracksD(1)[OF node_okD(3)[OF old]] by simp
    with sub have "insert (snd (views n s)) (fst (views n s)) \<union> {m. Added m \<in> set (cu_events u)} \<union> {m. Joined m \<in> set (cu_events u)} \<subseteq> U"
      by blast
    from causal_events_ok[OF fol node_okD(3)[OF old] _ inj this] ri obtain ic1 dis where
      ev: "causal_events (cu_events u) (ic, False) = Some (ic1, dis)" "acks_ok ic1"
      unfolding replica_inv_def by blast
    have "acks_ok (ic1\<lparr>ccluster := cu_nodes u - {cmember ic1}\<rparr>)" using ev(2) by (simp add: acks_ok_def)
    from disperse_returns[OF this pk] show ?thesis
      using ev(1) update(1) Replica by (auto simp: causal_recv_def Let_def with_replica_def causal_update_def)
  qed
qed

end

subsection \<open>One exchange\<close>

lemma look_up_all_mem:
  "look_up_all am is = Some es \<Longrightarrow> i \<in> set is \<Longrightarrow> am i = Some e \<Longrightarrow> e \<in> set es"
  by (induction "is" arbitrary: es) (auto split: option.splits)

lemma disperse_selected:
  assumes "disperse C env c ic = Some out"
  obtains ts where "(case dp_selector (preference c) of
      Out_Of_Date \<Rightarrow> take_behind (priority (preference c)) (acks ic) (unat (amount (preference c))) (om_keys (ord_acks ic))
    | All \<Rightarrow> look_up_all (acks ic) (map snd (om_keys (ord_acks ic)))) = Some ts"
    "\<And>m k. (m, k) \<in> set ts \<Longrightarrow> k < cclock ic \<Longrightarrow>
      \<exists>d. Send_Intra (m_socket m) (Delta d (m_id (cmember ic)) (cclock ic)) \<in> set out"
proof -
  let ?send = "\<lambda>(m, cnt). Send_Intra (m_socket m)
      (if cnt < min_delta ic then Delta (cdata ic) (m_id (cmember ic)) (cclock ic)
       else Delta (foldl (crdt_join C) (crdt_minimum C) (deltas ic)) (m_id (cmember ic)) (cclock ic))"
  from assms obtain ts first where ts: "(case dp_selector (preference c) of
      Out_Of_Date \<Rightarrow> take_behind (priority (preference c)) (acks ic) (unat (amount (preference c))) (om_keys (ord_acks ic))
    | All \<Rightarrow> look_up_all (acks ic) (map snd (om_keys (ord_acks ic)))) = Some ts"
    and eq: "out = map ?send (filter (\<lambda>(_, cnt). cnt < cclock ic) (first @ ts)) @
      [Schedule_Disperse (dp_timeout (preference c))]"
    unfolding disperse_def Let_def by (auto simp del: map_append filter_append split: option.splits)
  then have out: "set (map ?send (filter (\<lambda>(_, cnt). cnt < cclock ic) (first @ ts))) \<subseteq> set out"
    by (simp only: eq set_append Un_upper1)
  have "\<exists>d. Send_Intra (m_socket m) (Delta d (m_id (cmember ic)) (cclock ic)) \<in> set out"
    if "(m, k) \<in> set ts" "k < cclock ic" for m k
  proof -
    from that have "?send (m, k) \<in> set (map ?send (filter (\<lambda>(_, cnt). cnt < cclock ic) (first @ ts)))" by force
    with out have "?send (m, k) \<in> set out" by blast
    then show ?thesis by (auto split: if_splits)
  qed
  with ts show ?thesis using that by blast
qed

lemma furthest_sent:
  assumes ok: "acks_ok ic" and some: "acks ic \<noteq> (\<lambda>_. None)" and behind: "min_ord ic \<noteq> cclock ic"
    and pri: "priority (preference c) = {}" "amount (preference c) \<noteq> 0"
    and run: "disperse C env c ic = Some out"
  shows "\<exists>i m d. acks ic i = Some (m, min_ord ic) \<and> min_ord ic < cclock ic \<and>
     Send_Intra (m_socket m) (Delta d (m_id (cmember ic)) (cclock ic)) \<in> set out"
proof -
  obtain i0 e0 where "acks ic i0 = Some e0" using some by (metis not_None_eq)
  with ok have "om_get (ord_acks ic) (snd e0, i0) \<noteq> None" using acks_okD(3)[OF ok, of i0 "fst e0" "snd e0"] by simp
  then have ne: "first_ack (ord_acks ic) \<noteq> None" unfolding first_ack_None by metis
  then obtain i xs where ks: "om_keys (ord_acks ic) = (min_ord ic, i) # xs"
    using ok by (cases "om_keys (ord_acks ic)") (auto simp: first_ack_def acks_ok_def)
  then have "(min_ord ic, i) \<in> set (om_keys (ord_acks ic))" by simp
  then have "om_get (ord_acks ic) (min_ord ic, i) \<noteq> None" unfolding set_om_keys by simp
  then obtain m where am: "acks ic i = Some (m, min_ord ic)" using ok unfolding acks_ok_def by blast
  with acks_okD(2)[OF ok am] behind have lt: "min_ord ic < cclock ic" by simp
  from disperse_selected[OF run] obtain ts where
    ts: "(case dp_selector (preference c) of
        Out_Of_Date \<Rightarrow> take_behind {} (acks ic) (unat (amount (preference c))) (om_keys (ord_acks ic))
      | All \<Rightarrow> look_up_all (acks ic) (map snd (om_keys (ord_acks ic)))) = Some ts"
    and sent: "\<And>m k. (m, k) \<in> set ts \<Longrightarrow> k < cclock ic \<Longrightarrow>
      \<exists>d. Send_Intra (m_socket m) (Delta d (m_id (cmember ic)) (cclock ic)) \<in> set out"
    unfolding pri(1) by blast
  have "(m, min_ord ic) \<in> set ts"
  proof (cases "dp_selector (preference c)")
    case Out_Of_Date
    obtain n where "unat (amount (preference c)) = Suc n" using pri(2) by (metis nat.exhaust unat_eq_zero)
    with ts Out_Of_Date show ?thesis by (auto simp: ks am)
  next
    case All
    with ts show ?thesis by (auto simp: ks am split: option.splits)
  qed
  from sent[OF this lt] am lt show ?thesis by blast
qed

context crdt
begin

lemma exchange:
  fixes n :: "('s, 'd, 'u, 'r) net"
  assumes reach: "net_reach C env U n" and wi: "well_iterated env U" and ne: "s \<noteq> t"
    and st: "cstate (actors n s) = Replica a" "cstate (actors n t) = Replica b"
    and room: "clock_room (actors n s)" "clock_room (actors n t)"
    and pri: "priority (preference (ccommon (actors n t))) = {}"
    and know: "acks b (m_id (cmember a)) \<noteq> None" "acks a (m_id (cmember b)) = Some (m, k)"
    and run: "causal_recv C env Disperse_Timeout (actors n s) = Some (a', out)" and sent: "Send_Intra t msg \<in> set out"
  shows "\<exists>b' out' ib a'' ia. causal_recv C env (Causal_Intra msg) (actors n t) = Some (b', out') \<and>
      cstate b' = Replica ib \<and> lat_le (crdt_join C) (cdata a) (cdata ib) \<and>
      Send_Intra s (Ack (m_id (cmember b)) (cclock a)) \<in> set out' \<and>
      causal_recv C env (Causal_Intra (Ack (m_id (cmember b)) (cclock a))) a' = Some (a'', []) \<and>
      cstate a'' = Replica ia \<and> acks ia (m_id (cmember b)) = Some (m, cclock a)"
proof -
  have inj: "inj_on m_id U" using wi by (simp add: well_iterated_def)
  define n1 where "n1 = net_step s a' out (views n s) n"
  have r1: "net_reach C env U n1" unfolding n1_def by (rule net_reach.command[OF reach room(1) _ run]) simp
  have a': "a' = actors n s" and so: "sends_ok C a out"
    using run st(1) by (auto simp: causal_recv_def Let_def split: if_splits intro: disperse_sends)
  then obtain d where msg: "msg = Delta d (m_id (cmember a)) (cclock a)" using sent unfolding sends_ok_def by blast
  have act1: "actors n1 = actors n" by (simp add: n1_def a')
  have w1: "(t, msg) \<in> wire n1" using sent by (simp add: n1_def)
  obtain D1 where inv1: "net_inv C U n1 D1" using net_reach_inv[OF r1 wi] by blast
  have st1: "cstate (actors n1 t) = Replica b" "cstate (actors n1 s) = Replica a" by (simp_all add: act1 st)
  note na = net_invD(1)[OF inv1 st1(2)] and nb = net_invD(1)[OF inv1 st1(1)]
  have room1: "clock_room (actors n1 t)" by (simp add: act1 room)
  have "set (ce_iter env {}) = {}" using well_iteratedD(2)[OF wi] by blast
  then have "ce_iter env (priority (preference (ccommon (actors n1 t)))) = []" by (simp add: act1 pri)
  from recv_returns[OF inv1 inj room1 this, of "Causal_Intra msg"] w1 obtain b' out' where
    recv: "causal_recv C env (Causal_Intra msg) (actors n1 t) = Some (b', out')" by auto
  from know(1) obtain ma ka where ka: "acks b (m_id (cmember a)) = Some (ma, ka)" by auto
  have "ma \<in> U" "m_id ma = m_id (cmember a)" using tracksD(2)[OF node_okD(3)[OF nb] ka] node_okD(4)[OF nb] by auto
  with node_okD(5)[OF na] inj have ma: "ma = cmember a" by (auto dest: inj_onD)
  from recv st1(1) msg have "with_replica (actors n1 t) (causal_delta C env (ccommon (actors n1 t)) d (m_id (cmember a)) (cclock a) b) = Some (b', out')"
    by (simp add: causal_recv_def Let_def)
  then obtain ib c where dl: "causal_delta C env (ccommon (actors n1 t)) d (m_id (cmember a)) (cclock a) b = Some (ib, c, out')"
    and ib: "cstate b' = Replica ib" by (rule with_replica_Some)
  have "at_least C (net_step t b' out' (views n1 t) n1) t (hist C (D1 (m_socket ma)) (cclock a))"
    by (rule delta_step(2)[OF inv1 room1 inj w1[unfolded msg] st1(1) ka dl ib])
  moreover have "hist C (D1 (m_socket ma)) (cclock a) = cdata a"
    unfolding ma node_okD(6)[OF na] by (rule hist_clock) (use node_okD(1)[OF na] in \<open>simp add: replica_inv_def\<close>)
  ultimately have le: "lat_le (crdt_join C) (cdata a) (cdata ib)" by (simp add: at_least_def data_at_def ib)
  have ack: "Send_Intra s (Ack (m_id (cmember b)) (cclock a)) \<in> set out'"
    using dl ka ma node_okD(6)[OF na] by (auto simp: causal_delta_def Let_def split: if_splits)
  define n2 where "n2 = net_step t b' out' (views n1 t) n1"
  have r2: "net_reach C env U n2" unfolding n2_def by (rule net_reach.deliver[OF r1 room1 w1 recv])
  obtain D2 where inv2: "net_inv C U n2 D2" using net_reach_inv[OF r2 wi] by blast
  have st2: "cstate (actors n2 s) = Replica a" using ne st(1) by (simp add: n2_def act1)
  have "(s, Ack (m_id (cmember b)) (cclock a)) \<in> wire n2" using ack by (simp add: n2_def)
  from ack_step[OF inv2 inj st2 this] know(2) obtain ia where
    ca: "causal_ack (m_id (cmember b)) (cclock a) a = Some ia" "acks ia (m_id (cmember b)) = Some (m, max k (cclock a))"
    by auto
  have "k \<le> cclock a" using know(2) node_okD(1)[OF na] acks_okD(2) unfolding replica_inv_def by blast
  with ca(2) have ak: "acks ia (m_id (cmember b)) = Some (m, cclock a)" by (simp add: max.absorb2)
  have "causal_recv C env (Causal_Intra (Ack (m_id (cmember b)) (cclock a))) a' = Some (a'\<lparr>ccommon := ccommon a', cstate := Replica ia\<rparr>, [])"
    using ca(1) st(1) by (simp add: a' causal_recv_def Let_def with_replica_def)
  with recv ib le ack ak act1 show ?thesis by (auto intro!: exI)
qed

end

text \<open>
  Property C6.  Replicas converge: in every reachable network, whatever datagrams were lost, repeated or
  reordered, two replicas that are members of each other's cluster and whose dispersal timers have
  stopped (\<open>min_ord = clock\<close>, the condition under which the handler of the timeout no longer
  disperses) hold the same data.
\<close>

theorem quiet_replicas_agree:
  fixes n :: "('s, 'd, 'u, 'r) net"
  assumes "crdt C" and "well_iterated env U" and "net_reach C env U n"
    and "cstate (actors n s) = Replica a" and "cstate (actors n t) = Replica b" and "cmember a \<noteq> cmember b"
    and "cmember b \<in> fst (views n s)" and "cmember a \<in> fst (views n t)"
    and "min_ord a = cclock a" and "min_ord b = cclock b"
  shows "cdata a = cdata b"
  by (rule crdt.quiet_agree[OF assms(1,3,2,4-10)])

text \<open>
  Property C14.  One exchange brings the receiver up to date: what a replica sends when its dispersal
  timer fires, all of its data or only the deltas it has kept, makes the receiver's data contain the
  sender's; the receiver acknowledges the sender's clock, and the acknowledgement is recorded.
\<close>

theorem exchange_catches_up:
  fixes n :: "('s, 'd, 'u, 'r) net"
  assumes "crdt C" and "well_iterated env U" and "net_reach C env U n" and "s \<noteq> t"
    and "cstate (actors n s) = Replica a" and "cstate (actors n t) = Replica b"
    and "clock_room (actors n s)" and "clock_room (actors n t)"
    and "priority (preference (ccommon (actors n t))) = {}"
    and "acks b (m_id (cmember a)) \<noteq> None" and "acks a (m_id (cmember b)) = Some (m, k)"
    and "causal_recv C env Disperse_Timeout (actors n s) = Some (a', out)" and "Send_Intra t msg \<in> set out"
  shows "\<exists>b' out' ib a'' ia. causal_recv C env (Causal_Intra msg) (actors n t) = Some (b', out') \<and>
      cstate b' = Replica ib \<and> lat_le (crdt_join C) (cdata a) (cdata ib) \<and>
      Send_Intra s (Ack (m_id (cmember b)) (cclock a)) \<in> set out' \<and>
      causal_recv C env (Causal_Intra (Ack (m_id (cmember b)) (cclock a))) a' = Some (a'', []) \<and>
      cstate a'' = Replica ia \<and> acks ia (m_id (cmember b)) = Some (m, cclock a)"
  by (rule crdt.exchange[OF assms(1,3,2,4-13)])

text \<open>
  Fact.  A replica that some member has not caught up with keeps sending: without priorities the
  dispersal timeout sends a delta with the current clock to a member whose acknowledgement is the
  lowest, and schedules the next timeout.
\<close>

theorem dispersal_reaches_furthest:
  assumes "crdt C" and "well_iterated env U" and "net_reach C env U n"
    and "cstate (actors n s) = Replica a" and "acks a \<noteq> (\<lambda>_. None)" and "min_ord a \<noteq> cclock a"
    and "priority (preference (ccommon (actors n s))) = {}" and "amount (preference (ccommon (actors n s))) \<noteq> 0"
  shows "\<exists>out i m d. causal_recv C env Disperse_Timeout (actors n s) = Some (actors n s, out) \<and>
      acks a i = Some (m, min_ord a) \<and> min_ord a < cclock a \<and>
      Send_Intra (m_socket m) (Delta d (m_id (cmember a)) (cclock a)) \<in> set out \<and>
      Schedule_Disperse (dp_timeout (preference (ccommon (actors n s)))) \<in> set out"
proof -
  obtain D where inv: "net_inv C U n D" using crdt.net_reach_inv[OF assms(1,3,2)] by blast
  have ok: "acks_ok a" using node_okD(1)[OF net_invD(1)[OF inv assms(4)]] by (simp add: replica_inv_def)
  have "set (ce_iter env {}) = {}" using well_iteratedD(2)[OF assms(2)] by blast
  then have "priority_known env (ccommon (actors n s)) a" by (simp add: priority_known_def assms(7))
  from disperse_returns[OF ok this] obtain out where dis: "disperse C env (ccommon (actors n s)) a = Some out" by blast
  have recv: "causal_recv C env Disperse_Timeout (actors n s) = Some (actors n s, out)"
    using assms(4-6) dis by (simp add: causal_recv_def Let_def)
  have "Schedule_Disperse (dp_timeout (preference (ccommon (actors n s)))) \<in> set out"
    using dis unfolding disperse_def Let_def by (auto split: option.splits)
  with recv furthest_sent[OF ok assms(5,6,7,8) dis] show ?thesis by blast
qed

text \<open>
  Property C27.  No message that can arrive in a reachable network is fatal to a replica without
  priorities: commands, timeouts, every datagram on the wire and every update that follows the events of
  the cluster are handled, so no unwrap, assertion or \<open>unreachable!\<close> of the actor is hit.
\<close>

theorem reachable_replica_never_panics:
  fixes n :: "('s, 'd, 'u, 'r) net"
  assumes "crdt C" and "well_iterated env U" and "net_reach C env U n" and "clock_room (actors n s)"
    and "priority (preference (ccommon (actors n s))) = {}"
    and "(\<exists>cmd. msg = Causal_Cmd cmd) \<or> msg = Disperse_Timeout \<or> (\<exists>m. msg = Causal_Intra m \<and> (s, m) \<in> wire n) \<or>
      (\<exists>u. msg = Causal_Update u \<and> update_next U s (actors n s) (views n s) u \<noteq> None)"
  shows "causal_recv C env msg (actors n s) \<noteq> None"
proof -
  obtain D where inv: "net_inv C U n D" using crdt.net_reach_inv[OF assms(1,3,2)] by blast
  have "set (ce_iter env {}) = {}" using well_iteratedD(2)[OF assms(2)] by blast
  then have "ce_iter env (priority (preference (ccommon (actors n s)))) = []" by (simp add: assms(5))
  from crdt.recv_returns[OF assms(1) inv well_iteratedD(1)[OF assms(2)] assms(4) this assms(6)] show ?thesis .
qed

subsection \<open>Two fatal inputs\<close>

text \<open>
  Fact.  An acknowledgement of a clock the replica has not reached, such as one addressed to an
  earlier incarnation of the node at the same socket, is not rejected: when the acknowledging node is
  the only other member, dropping the acknowledged deltas runs out of deltas and the unwrap panics.
\<close>

theorem stale_ack_panics:
  assumes "replica_inv C ds ic" and "acks ic = [i \<mapsto> (m, k)]" and "cclock ic < clk"
  shows "causal_recv C env (Causal_Intra (Ack i clk)) \<lparr>ccommon = c, cstate = Replica ic\<rparr> = None"
proof -
  from assms(1) have ok: "acks_ok ic" and lg: "log_ok C ds ic" by (simp_all add: replica_inv_def)
  have am: "acks ic i = Some (m, k)" by (simp add: assms(2))
  note o = acks_okD[OF ok am]
  let ?ord = "om_insert (clk, i) () (om_remove (k, i) (ord_acks ic))"
  have only: "om_get ?ord x \<noteq> None \<longleftrightarrow> x = (clk, i)" for x
    using acks_ok_ord[OF ok, of "fst x" "snd x"] by (cases x) (auto simp: assms(2) split: if_splits)
  obtain mo where mo: "first_ack ?ord = Some mo" using first_ack_insert by blast
  then have "mo = clk" using first_ack_Some(1)[OF mo] only by blast
  moreover have "length (deltas ic) < unat clk - unat (min_delta ic)"
    using lg assms(3) by (auto simp: log_ok_def word_less_nat_alt word_le_nat_alt)
  moreover have "k < clk" using o(2) assms(3) by (rule order_le_less_trans)
  ultimately show ?thesis
    using o(3) mo am by (simp add: causal_recv_def Let_def with_replica_def causal_ack_def pop_front_def)
qed

text \<open>
  Fact.  A dispersal preference that gives priority to a node which is not among the other
  members, for instance one that is already down, makes the next change of the data panic.
\<close>

theorem unknown_priority_panics:
  assumes "m \<in> set (ce_iter env (priority (preference c)))" and "acks ic (m_id m) = None"
    and "\<not> crdt_empty C (crdt_apply C x (cdata ic))"
  shows "causal_recv C env (Causal_Cmd (Mutate x)) \<lparr>ccommon = c, cstate = Replica ic\<rparr> = None"
proof -
  have "look_up_all (acks ic) (map m_id (ce_iter env (priority (preference c)))) = None"
    by (rule look_up_all_None[of "m_id m"]) (use assms(1,2) in simp_all)
  then have "disperse C env c (ic\<lparr>cdata := y, deltas := ds, cclock := k\<rparr>) = None" for y ds k
    by (simp add: disperse_def Let_def split: option.splits)
  with assms(3) show ?thesis
    by (simp add: causal_recv_def Let_def with_replica_def causal_op_def changed_def)
qed

end
