(* ===== verification/Causal_Instances.thy ===== *)
theory Causal_Instances
  imports Causal_Convergence
begin

text \<open>
  A concrete network of two device tables: one node has a device before it learns of the cluster, the
  delta and the acknowledgements travel, and both replicas come to rest.
\<close>

subsection \<open>Members, environment and states\<close>

definition node_a :: member where "node_a = Member (Socket (DNS ''a'') 5000 0) 1 1"

definition node_b :: member where "node_b = Member (Socket (DNS ''b'') 5000 0) 2 1"

definition two_env :: "nat causal_env" where
  "two_env = \<lparr>ce_iter = sorted_list_of_set, ce_alive = (\<lambda>_. True)\<rparr>"

lemma node_simps [simp]:
  "m_id node_a = 1" "m_id node_b = 2" "node_a \<noteq> node_b" "node_b \<noteq> node_a" "m_socket node_a \<noteq> m_socket node_b"
  "m_socket node_b \<noteq> m_socket node_a"
  by (simp_all add: node_a_def node_b_def)

lemma two_env_simps [simp]:
  "ce_iter two_env {} = []" "ce_iter two_env {m} = [m]" "ce_alive two_env r"
  by (simp_all add: two_env_def)

lemma two_iterated: "well_iterated two_env {node_a, node_b}"
  unfolding well_iterated_def
proof (intro conjI allI impI)
  fix S
  assume "S \<subseteq> {node_a, node_b}"
  then have "finite S" by (rule finite_subset) simp
  then show "set (ce_iter two_env S) = S" by (simp add: two_env_def)
qed (auto simp: inj_on_def)

definition sample_put :: device_mutator where
  "sample_put = Put sample_device (Device_Interval 1 (from_millis 50))"

lemma sample_put_delta: "device_mutator_apply sample_put om_empty = sample_devices"
  by (simp add: sample_put_def sample_devices_def om_of_list_def)

lemma sample_devices_simps [simp]:
  "devices_join om_empty sample_devices = sample_devices" "devices_join sample_devices sample_devices = sample_devices"
  "\<not> devices_empty sample_devices" "sample_devices \<noteq> om_empty" "devices_empty om_empty"
  using devices.minimum[of sample_devices] devices.idem[of sample_devices]
  by (simp_all add: devices_minimum_def devices_empty_iff sample_devices_def om_of_list_def)

type_synonym sample_net = "(devices, device_mutator, nat, nat) net"

type_synonym sample_actor = "(devices, device_mutator, nat, nat) causal"

definition two_common :: "(nat, nat) causal_common" where
  "two_common = ccommon (causal_new 0 1 ''devices'' [] default_preference :: sample_actor)"

definition at_state :: "(devices, device_mutator) causal_state \<Rightarrow> sample_actor" where
  "at_state st = \<lparr>ccommon = two_common, cstate = st\<rparr>"

definition two_ic :: "devices \<Rightarrow> u64 \<Rightarrow> member \<Rightarrow> member \<Rightarrow> devices list \<Rightarrow> u64 \<Rightarrow> devices causal_ic" where
  "two_ic x clk me peer ds k =
     \<lparr>cdata = x, cclock = clk, cmember = me, ccluster = {peer}, deltas = ds, acks = [m_id peer \<mapsto> (peer, k)],
      ord_acks = om_insert (k, m_id peer) () om_empty, min_ord = k, min_delta = k\<rparr>"

definition two_view :: "member \<Rightarrow> cluster_update" where
  "two_view me = \<lparr>cu_events = [Joined me], cu_nodes = {node_a, node_b}, cu_ring = ring_new 2\<rparr>"

subsection \<open>The handlers on these states\<close>

lemma om_single [simp]:
  "om_remove k (om_insert k v om_empty) = om_empty" "om_keys (om_insert k v om_empty) = [k]"
  by (auto intro: om_eqI simp: om_keys_def)

lemma two_common_simps [simp]:
  "priority (preference two_common) = {}" "amount (preference two_common) = 1"
  "dp_selector (preference two_common) = Out_Of_Date" "csubscribers two_common = []"
  "two_common\<lparr>csubscribers := []\<rparr> = two_common"
  by (simp_all add: two_common_def causal_new_def default_preference_def)

lemma at_state_simps [simp]:
  "cstate (at_state st) = st" "ccommon (at_state st) = two_common"
  "(at_state st)\<lparr>cstate := st'\<rparr> = at_state st'" "with_replica (at_state st) (Some (ic, two_common, out)) = Some (at_state (Replica ic), out)"
  by (simp_all add: at_state_def with_replica_def)

definition out_timer :: "(devices, nat) causal_effect" where
  "out_timer = Schedule_Disperse (dp_timeout (preference two_common))"

lemma run_mutate_waiting:
  "causal_recv devices_crdt two_env (Causal_Cmd (Mutate sample_put)) (at_state (Waiting \<lparr>ops_queue = []\<rparr>)) =
     Some (at_state (Waiting \<lparr>ops_queue = [sample_put]\<rparr>), [])"
  by (simp add: causal_recv_def Let_def)

lemma run_update:
  "causal_recv devices_crdt two_env (Causal_Update (two_view node_a)) (at_state (Waiting \<lparr>ops_queue = [sample_put]\<rparr>)) =
     Some (at_state (Replica (two_ic sample_devices 1 node_a node_b [sample_devices] 0)), [])"
  "causal_recv devices_crdt two_env (Causal_Update (two_view node_b)) (at_state (Waiting \<lparr>ops_queue = []\<rparr>)) =
     Some (at_state (Replica (two_ic om_empty 0 node_b node_a [] 0)), [])"
  by (simp_all add: causal_recv_def Let_def two_view_def to_ic_def publish_def two_ic_def devices_minimum_def
      sample_put_delta insert_Diff_if om_of_list_def)

lemma run_timeout:
  "causal_recv devices_crdt two_env Disperse_Timeout (at_state (Replica (two_ic sample_devices 1 node_a node_b [sample_devices] 0))) =
     Some (at_state (Replica (two_ic sample_devices 1 node_a node_b [sample_devices] 0)),
       [Send_Intra (m_socket node_b) (Delta sample_devices 1 1), out_timer])"
  by (simp add: causal_recv_def Let_def two_ic_def disperse_def devices_minimum_def out_timer_def fun_eq_iff)

lemma run_delta:
  "causal_recv devices_crdt two_env (Causal_Intra (Delta sample_devices 1 1)) (at_state (Replica (two_ic om_empty 0 node_b node_a [] 0))) =
     Some (at_state (Replica (two_ic sample_devices 1 node_b node_a [sample_devices] 0)),
       [Send_Intra (m_socket node_a) (Ack 2 1), Send_Intra (m_socket node_a) (Delta sample_devices 2 1), out_timer])"
  by (simp add: causal_recv_def Let_def two_ic_def causal_delta_def changed_def publish_def disperse_def
      devices_minimum_def out_timer_def)

lemma run_delta_known:
  "causal_recv devices_crdt two_env (Causal_Intra (Delta sample_devices 2 1)) (at_state (Replica (two_ic sample_devices 1 node_a node_b [] 1))) =
     Some (at_state (Replica (two_ic sample_devices 1 node_a node_b [] 1)), [Send_Intra (m_socket node_b) (Ack 1 1)])"
  by (simp add: causal_recv_def Let_def two_ic_def causal_delta_def)

lemma run_ack:
  assumes "(me, peer) = (node_a, node_b) \<or> (me, peer) = (node_b, node_a)"
  shows "causal_recv devices_crdt two_env (Causal_Intra (Ack (m_id peer) 1)) (at_state (Replica (two_ic sample_devices 1 me peer [sample_devices] 0))) =
     Some (at_state (Replica (two_ic sample_devices 1 me peer [] 1)), [])"
  by (simp add: causal_recv_def Let_def two_ic_def causal_ack_def first_ack_def pop_front_def)

subsection \<open>The run\<close>

abbreviation sock_a :: socket where "sock_a \<equiv> m_socket node_a"
abbreviation sock_b :: socket where "sock_b \<equiv> m_socket node_b"

definition two_start :: sample_net where
  "two_start = \<lparr>actors = (\<lambda>_. at_state (Waiting \<lparr>ops_queue = []\<rparr>)), wire = {}, views = (\<lambda>_. ({}, node_a))\<rparr>"

text \<open>Both nodes know of each other, the first one has a device.\<close>

definition two_met :: sample_net where
  "two_met =
     net_step sock_b (at_state (Replica (two_ic om_empty 0 node_b node_a [] 0))) [] ({node_a, node_b}, node_b)
       (net_step sock_a (at_state (Replica (two_ic sample_devices 1 node_a node_b [sample_devices] 0))) [] ({node_a, node_b}, node_a)
         (net_step sock_a (at_state (Waiting \<lparr>ops_queue = [sample_put]\<rparr>)) [] ({}, node_a) two_start))"

lemma two_start_reach: "net_reach devices_crdt two_env {node_a, node_b} two_start"
proof (rule net_reach.start)
  show "\<exists>vm vi name subrs pref. actors two_start s = causal_new vm vi name subrs pref" for s
    by (rule exI[of _ 0], rule exI[of _ 1], rule exI[of _ "''devices''"], rule exI[of _ "[]"],
        rule exI[of _ default_preference]) (simp add: two_start_def at_state_def two_common_def causal_new_def)
qed (simp add: two_start_def)

lemma two_start_simps [simp]:
  "actors two_start s = at_state (Waiting \<lparr>ops_queue = []\<rparr>)" "wire two_start = {}" "views two_start s = ({}, node_a)"
  by (simp_all add: two_start_def)

lemma two_met_reach: "net_reach devices_crdt two_env {node_a, node_b} two_met"
proof -
  let ?n1 = "net_step sock_a (at_state (Waiting \<lparr>ops_queue = [sample_put]\<rparr>)) [] ({}, node_a) two_start"
  have 1: "net_reach devices_crdt two_env {node_a, node_b} ?n1"
    using net_reach.command[OF two_start_reach, where s = sock_a and msg = "Causal_Cmd (Mutate sample_put)"]
    by (simp add: clock_room_def run_mutate_waiting)
  let ?n2 = "net_step sock_a (at_state (Replica (two_ic sample_devices 1 node_a node_b [sample_devices] 0))) []
      ({node_a, node_b}, node_a) ?n1"
  have 2: "net_reach devices_crdt two_env {node_a, node_b} ?n2"
    by (rule net_reach.update[OF 1, where u = "two_view node_a"])
      (simp_all add: update_next_def two_view_def run_update[unfolded two_view_def])
  show ?thesis
    unfolding two_met_def
    by (rule net_reach.update[OF 2, where u = "two_view node_b"])
      (simp_all add: update_next_def two_view_def run_update[unfolded two_view_def])
qed

lemma two_met_simps [simp]:
  "actors two_met sock_a = at_state (Replica (two_ic sample_devices 1 node_a node_b [sample_devices] 0))"
  "actors two_met sock_b = at_state (Replica (two_ic om_empty 0 node_b node_a [] 0))"
  "views two_met sock_a = ({node_a, node_b}, node_a)" "views two_met sock_b = ({node_a, node_b}, node_b)"
  by (simp_all add: two_met_def)

text \<open>The delta is sent, received, acknowledged and sent back, and both timers come to rest.\<close>

lemma two_ic_simps [simp]:
  "cdata (two_ic x k me peer ds j) = x" "cclock (two_ic x k me peer ds j) = k" "cmember (two_ic x k me peer ds j) = me"
  "acks (two_ic x k me peer ds j) = [m_id peer \<mapsto> (peer, j)]" "min_ord (two_ic x k me peer ds j) = j"
  by (simp_all add: two_ic_def)

lemma clock_room_two [simp]: "clock_room (at_state (Replica (two_ic x k me peer ds j))) \<longleftrightarrow> k \<noteq> - 1"
  by (simp add: clock_room_def two_ic_def)

lemma two_quiet_reach:
  "\<exists>n. net_reach devices_crdt two_env {node_a, node_b} n \<and>
     actors n sock_a = at_state (Replica (two_ic sample_devices 1 node_a node_b [] 1)) \<and>
     actors n sock_b = at_state (Replica (two_ic sample_devices 1 node_b node_a [] 1)) \<and>
     views n sock_a = ({node_a, node_b}, node_a) \<and> views n sock_b = ({node_a, node_b}, node_b)"
proof -
  define n4 where "n4 = net_step sock_a (at_state (Replica (two_ic sample_devices 1 node_a node_b [sample_devices] 0)))
      [Send_Intra sock_b (Delta sample_devices 1 1), out_timer] (views two_met sock_a) two_met"
  have 4: "net_reach devices_crdt two_env {node_a, node_b} n4"
    unfolding n4_def by (rule net_reach.command[OF two_met_reach, where msg = Disperse_Timeout]) (simp_all add: run_timeout)
  define n5 where "n5 = net_step sock_b (at_state (Replica (two_ic sample_devices 1 node_b node_a [sample_devices] 0)))
      [Send_Intra sock_a (Ack 2 1), Send_Intra sock_a (Delta sample_devices 2 1), out_timer] (views n4 sock_b) n4"
  have 5: "net_reach devices_crdt two_env {node_a, node_b} n5"
    unfolding n5_def by (rule net_reach.deliver[OF 4, where m = "Delta sample_devices 1 1"]) (simp_all add: n4_def run_delta)
  define n6 where "n6 = net_step sock_a (at_state (Replica (two_ic sample_devices 1 node_a node_b [] 1))) [] (views n5 sock_a) n5"
  have 6: "net_reach devices_crdt two_env {node_a, node_b} n6"
    unfolding n6_def
    by (rule net_reach.deliver[OF 5, where m = "Ack 2 1"]) (simp_all add: n5_def n4_def run_ack[of node_a node_b, simplified])
  define n7 where "n7 = net_step sock_a (at_state (Replica (two_ic sample_devices 1 node_a node_b [] 1)))
      [Send_Intra sock_b (Ack 1 1)] (views n6 sock_a) n6"
  have 7: "net_reach devices_crdt two_env {node_a, node_b} n7"
    unfolding n7_def
    by (rule net_reach.deliver[OF 6, where m = "Delta sample_devices 2 1"]) (simp_all add: n6_def n5_def run_delta_known)
  define n8 where "n8 = net_step sock_b (at_state (Replica (two_ic sample_devices 1 node_b node_a [] 1))) [] (views n7 sock_b) n7"
  have 8: "net_reach devices_crdt two_env {node_a, node_b} n8"
    unfolding n8_def
    by (rule net_reach.deliver[OF 7, where m = "Ack 1 1"])
      (simp_all add: n7_def n6_def n5_def n4_def run_ack[of node_b node_a, simplified])
  show ?thesis
    by (rule exI[of _ n8], intro conjI, rule 8) (simp_all add: n8_def n7_def n6_def n5_def n4_def)
qed

subsection \<open>Witnesses\<close>

theorem quiet_replicas_agree_witness:
  "\<exists>(n :: sample_net) a b. cstate (actors n sock_a) = Replica a \<and> cstate (actors n sock_b) = Replica b \<and>
     cclock a = 1 \<and> cdata a = sample_devices \<and> cdata a = cdata b"
proof -
  obtain n where n: "net_reach devices_crdt two_env {node_a, node_b} n"
    "actors n sock_a = at_state (Replica (two_ic sample_devices 1 node_a node_b [] 1))"
    "actors n sock_b = at_state (Replica (two_ic sample_devices 1 node_b node_a [] 1))"
    "views n sock_a = ({node_a, node_b}, node_a)" "views n sock_b = ({node_a, node_b}, node_b)"
    using two_quiet_reach by blast
  have "cdata (two_ic sample_devices 1 node_a node_b [] 1) = cdata (two_ic sample_devices 1 node_b node_a [] 1)"
    by (rule quiet_replicas_agree[OF devices.crdt_axioms two_iterated n(1), of sock_a _ sock_b]) (simp_all add: n two_ic_def)
  then show ?thesis
    by (intro exI[of _ n] exI[of _ "two_ic sample_devices 1 node_a node_b [] 1"]
        exI[of _ "two_ic sample_devices 1 node_b node_a [] 1"]) (simp add: n)
qed

theorem exchange_catches_up_witness:
  "\<exists>b' out' ib. causal_recv devices_crdt two_env (Causal_Intra (Delta sample_devices 1 1)) (actors two_met sock_b) = Some (b', out') \<and>
     cstate b' = Replica ib \<and> lat_le devices_join sample_devices (cdata ib)"
proof -
  from exchange_catches_up[OF devices.crdt_axioms two_iterated two_met_reach, of sock_a sock_b
      "two_ic sample_devices 1 node_a node_b [sample_devices] 0" "two_ic om_empty 0 node_b node_a [] 0" node_b 0
      "actors two_met sock_a" "[Send_Intra sock_b (Delta sample_devices 1 1), out_timer]" "Delta sample_devices 1 1"]
  show ?thesis by (auto simp: run_timeout)
qed

theorem dispersal_reaches_furthest_witness:
  "\<exists>out d. causal_recv devices_crdt two_env Disperse_Timeout (actors two_met sock_a) = Some (actors two_met sock_a, out) \<and>
     Send_Intra sock_b (Delta d 1 1) \<in> set out"
proof -
  have "acks (two_ic sample_devices 1 node_a node_b [sample_devices] 0) \<noteq> (\<lambda>_. None)"
    by (simp add: two_ic_def fun_eq_iff)
  from dispersal_reaches_furthest[OF devices.crdt_axioms two_iterated two_met_reach, of sock_a, OF _ this]
  show ?thesis by (auto split: if_splits)
qed

theorem reachable_replica_never_panics_witness:
  "causal_recv devices_crdt two_env (Causal_Cmd (Mutate sample_put)) (actors two_met sock_b) \<noteq> None"
  by (rule reachable_replica_never_panics[OF devices.crdt_axioms two_iterated two_met_reach]) simp_all

theorem stale_ack_panics_witness:
  "causal_recv devices_crdt two_env (Causal_Intra (Ack 2 100))
     \<lparr>ccommon = two_common, cstate = Replica (two_ic sample_devices 1 node_a node_b [sample_devices] 0)\<rparr> = None"
proof (rule stale_ack_panics)
  show "replica_inv devices_crdt [sample_devices] (two_ic sample_devices 1 node_a node_b [sample_devices] 0)"
    by (auto simp: replica_inv_def acks_ok_def log_ok_def two_ic_def first_ack_def devices_minimum_def)
  show "acks (two_ic sample_devices 1 node_a node_b [sample_devices] 0) = [2 \<mapsto> (node_b, 0)]" by (simp add: two_ic_def)
qed (simp add: two_ic_def)

theorem unknown_priority_panics_witness:
  "causal_recv devices_crdt two_env (Causal_Cmd (Mutate sample_put))
     \<lparr>ccommon = two_common\<lparr>preference := default_preference\<lparr>priority := {node_b}\<rparr>\<rparr>,
      cstate = Replica (to_ic devices_crdt two_env \<lparr>ops_queue = []\<rparr> node_a {node_a})\<rparr> = None"
  by (rule unknown_priority_panics[of node_b]) (simp_all add: to_ic_def Let_def devices_minimum_def sample_put_delta)

end
