(* ===== verification/Cluster_Replicas.thy ===== *)
theory Cluster_Replicas
  imports Cluster_Instances Causal_Instances
begin

text \<open>
  The composition of the cluster actor with the replicas of its node: the updates the actor sends are
  the ones a replica can follow, event by event, so that a replica's bookkeeping is about exactly the
  current members and the current identity of the node.
\<close>

declare One_nat_def [simp del]

subsection \<open>Events that can be followed\<close>

lemma follows_applicable:
  "applicable es M \<Longrightarrow> Added me \<notin> set es \<Longrightarrow> follows (es @ es') (M, me) = follows es' (after_events es M, me)"
proof (induction es arbitrary: M)
  case Nil
  then show ?case by (simp add: after_events_def)
next
  case (Cons e es)
  from Cons.prems(1) consider m where "e = Added m" | m where "e = Removed m" by (auto simp: applicable_def)
  then show ?case
  proof cases
    case 1
    note a = applicable_Added[OF Cons.prems(1)[unfolded 1]]
    have "me \<noteq> m" "Added me \<notin> set es" using Cons.prems(2) 1 by auto
    with Cons.IH[OF a(2)] a(1,3) 1 show ?thesis by simp
  next
    case 2
    note r = applicable_Removed[OF Cons.prems(1)[unfolded 2]]
    show ?thesis using Cons.IH[OF r(2)] Cons.prems(2) r(1,3) 2 by simp
  qed
qed

lemma merged_follows:
  assumes inv: "ic_inv env U c ic" and mw: "merged_with env rid g c ic c1 ic1 ns"
    and fresh: "fresh_ok rid U c (known ic \<union> gossip_known g)"
  shows "follows (snd (gossip_merge (ic_gossip ic) g) @ (case ns of Some e \<Rightarrow> [e] | None \<Rightarrow> []))
     (ic_members ic, ns_member c) = Some (ic_members ic1, ns_member c1)"
proof -
  let ?es = "snd (gossip_merge (ic_gossip ic) g)"
  note d = ic_invD[OF inv]
  have app: "applicable ?es (ic_members ic)" using merge_applicable[of "ic_gossip ic" g] d(6) by simp
  have me: "ns_member c \<in> known ic" using d(3,6) up_members_known by auto
  then have na: "Added (ns_member c) \<notin> set ?es" by (auto simp: set_merge_events known_def)
  note f = follows_applicable[OF app na]
  show ?thesis
  proof (cases "Removed (ns_member c) \<in> set ?es")
    case False
    then show ?thesis using mw f[of "[]"] by (simp add: merged_with_def Let_def)
  next
    case True
    have "fresh_self rid c \<notin> known ic" "fresh_self rid c \<notin> gossip_known g" using fresh by (auto simp: fresh_ok_def)
    then have "fresh_self rid c \<notin> after_events ?es (ic_members ic)"
      using d(6) up_members_known[of ic] by (auto simp: after_events_def set_merge_events gossip_known_def)
    moreover have "ns_member c \<notin> after_events ?es (ic_members ic)"
      using True na by (auto simp: after_events_def)
    moreover have "ns_member (new_id env rid c) = fresh_self rid c" by (simp add: new_id_def fresh_self_def)
    ultimately show ?thesis using True mw f[of "[Joined (fresh_self rid c)]"] by (simp add: merged_with_def Let_def)
  qed
qed

subsection \<open>What the handlers send to subscribers\<close>

definition entering :: "cluster_event list \<Rightarrow> member set" where
  "entering es = {m. Added m \<in> set es} \<union> {m. Joined m \<in> set es}"

definition feeds ::
    "('u, 's, 'f) node_state \<Rightarrow> in_cluster \<Rightarrow> ('u, 's, 'f) handler_result \<Rightarrow> bool" where
  "feeds c ic res \<longleftrightarrow>
     (\<forall>c' ic' rt' out r u. res = Some (c', ic', rt', out) \<longrightarrow> Notify r u \<in> set out \<longrightarrow>
        cu_nodes u = ic_members ic' \<and>
        follows (cu_events u) (ic_members ic, ns_member c) = Some (ic_members ic', ns_member c') \<and>
        m_socket (ns_member c') = m_socket (ns_member c) \<and> entering (cu_events u) \<subseteq> ic_members ic')"

lemma feedsI:
  assumes "res = Some (c', ic', rt', out)"
    and "\<And>r u. Notify r u \<in> set out \<Longrightarrow> cu_nodes u = ic_members ic' \<and>
        follows (cu_events u) (ic_members ic, ns_member c) = Some (ic_members ic', ns_member c') \<and>
        m_socket (ns_member c') = m_socket (ns_member c) \<and> entering (cu_events u) \<subseteq> ic_members ic'"
  shows "feeds c ic res"
  using assms unfolding feeds_def by auto

lemma take_charges_quiet:
  "take_charges c ms old new out = (old', new', out') \<Longrightarrow> Notify r u \<in> set out' \<Longrightarrow> Notify r u \<in> set out"
  by (induction c ms old new out rule: take_charges.induct) (auto simp: Let_def split: option.splits)

lemma update_quiet: "update_charges_managers env c ic = Some (ic', out) \<Longrightarrow> Notify r u \<notin> set out"
  by (auto simp: update_charges_managers_def split: option.splits prod.splits dest: take_charges_quiet)

lemma gossip_round_quiet [simp]: "Notify r u \<noteq> gossip_round env c ic g" "gossip_round env c ic g \<noteq> Notify r u"
  by (simp_all add: gossip_round_def Let_def)

lemma notify_update:
  assumes "notify env ic c es = (c', out)" "Notify r u \<in> set out"
  shows "cu_events u = es" "cu_nodes u = ic_members ic"
  using assms by (auto simp: notify_def Let_def split: if_splits)

lemma ic_state_feeds:
  assumes inv: "ic_inv env U c ic" and g: "gossip_known g \<subseteq> U"
    and fresh: "fresh_ok rid U c (known ic \<union> gossip_known g)"
  shows "feeds c ic (ic_state env rid g c ic rt)"
proof (rule ic_state_run[OF assms, of rt])
  fix c1 ic1 ns ic2 out c2 nts h rt2 rounds
  let ?es' = "snd (gossip_merge (ic_gossip ic) g) @ (case ns of Some e \<Rightarrow> [e] | None \<Rightarrow> [])"
  assume mw: "merged_with env rid g c ic c1 ic1 ns" and up: "update_charges_managers env c1 ic1 = Some (ic2, out)"
    and mem: "ic_members ic2 = ic_members ic1" and n: "notify env ic2 c1 ?es' = (c2, nts)"
    and run: "ic_state env rid g c ic rt = Some (c2, ic2\<lparr>gossip_handle := h\<rparr>, rt2, rounds @ out @ nts)"
    and rounds: "\<forall>r u. Notify r u \<notin> set rounds"
  show ?thesis
  proof (rule feedsI[OF run])
    fix r u
    assume "Notify r u \<in> set (rounds @ out @ nts)"
    then have "Notify r u \<in> set nts" using update_quiet[OF up, of r u] rounds by simp
    note nu = notify_update[OF n this]
    show "cu_nodes u = ic_members (ic2\<lparr>gossip_handle := h\<rparr>) \<and>
        follows (cu_events u) (ic_members ic, ns_member c) = Some (ic_members (ic2\<lparr>gossip_handle := h\<rparr>), ns_member c2) \<and>
        m_socket (ns_member c2) = m_socket (ns_member c) \<and> entering (cu_events u) \<subseteq> ic_members (ic2\<lparr>gossip_handle := h\<rparr>)"
      using merged_members[OF mw] merged_with_self[OF mw] merged_follows[OF inv mw fresh] notify_state(1)[OF n] mem by (auto simp: nu new_id_def members_after_def entering_def)
  qed
qed

lemma ic_ping_feeds:
  assumes inv: "ic_inv env U c ic"
  shows "feeds c ic (ic_ping env m c ic rt)"
proof (cases "om_get (states (ic_gossip ic)) m")
  case (Some s)
  then have "ic_ping env m c ic rt = Some (c, ic, rt, [gossip_round env c ic {m}])" by (simp add: ic_ping_def)
  then show ?thesis by (rule feedsI) simp
next
  case None
  let ?ic1 = "ic\<lparr>ic_gossip := (ic_gossip ic)\<lparr>states := om_insert m Up (states (ic_gossip ic))\<rparr>,
      ic_ring := ring_insert (env_hash env) (env_wyrng env) m (ic_ring ic), ic_members := insert m (ic_members ic)\<rparr>"
  note d = ic_invD[OF inv]
  have new: "m \<notin> ic_members ic" "m \<noteq> ns_member c" using None d(3,6) by (auto simp: up_members_def)
  show ?thesis
  proof (cases "update_charges_managers env c ?ic1")
    case None
    with \<open>om_get (states (ic_gossip ic)) m = None\<close> show ?thesis by (simp add: ic_ping_def feeds_def Let_def)
  next
    case (Some r)
    then obtain ic2 out where up: "update_charges_managers env c ?ic1 = Some (ic2, out)" by (cases r) auto
    obtain c2 nts where n: "notify env ic2 c [Added m] = (c2, nts)" by (cases "notify env ic2 c [Added m]")
    have run: "ic_ping env m c ic rt = Some (c2, ic2, rt, out @ nts @ [gossip_round env c2 ic2 {m}])"
      using None up n by (simp add: ic_ping_def Let_def)
    show ?thesis
    proof (rule feedsI[OF run])
      fix r u
      assume "Notify r u \<in> set (out @ nts @ [gossip_round env c2 ic2 {m}])"
      then have "Notify r u \<in> set nts" using update_quiet[OF up, of r u] by simp
      from notify_update[OF n this] show "cu_nodes u = ic_members ic2 \<and>
          follows (cu_events u) (ic_members ic, ns_member c) = Some (ic_members ic2, ns_member c2) \<and>
          m_socket (ns_member c2) = m_socket (ns_member c) \<and> entering (cu_events u) \<subseteq> ic_members ic2"
        using new notify_state(1)[OF n] update_frame(1)[OF up] by (simp add: entering_def)
    qed
  qed
qed

lemma ic_down_feeds: "feeds c ic (ic_down env m c ic rt)"
proof (cases "ic_down env m c ic rt")
  case None
  then show ?thesis by (simp add: feeds_def)
next
  case (Some r)
  show ?thesis
  proof (cases "om_get (states (ic_gossip ic)) m = Some Up")
    case False
    with Some have "ic_down env m c ic rt = Some (c, ic, rt, [])"
      by (auto simp: ic_down_def split: option.splits machine_state.splits)
    then show ?thesis by (rule feedsI) simp
  next
    case True
    then obtain ring1 where rm: "ring_remove (env_hash env) (env_wyrng env) m (ic_ring ic) = (Inr (), ring1)" "m \<in> ic_members ic"
      using Some by (auto simp: ic_down_def split: prod.splits sum.splits if_splits)
    let ?ic1 = "ic\<lparr>ic_gossip := (ic_gossip ic)\<lparr>states := om_insert m Down (states (ic_gossip ic))\<rparr>,
        ic_ring := ring1, ic_members := ic_members ic - {m}\<rparr>"
    obtain ic2 out where up: "update_charges_managers env c ?ic1 = Some (ic2, out)"
      using True rm Some by (auto simp: ic_down_def Let_def split: option.splits)
    obtain c2 nts where n: "notify env ic2 c [Removed m] = (c2, nts)" by (cases "notify env ic2 c [Removed m]")
    have run: "ic_down env m c ic rt = Some (c2, ic2, rt, out @ [gossip_round env c ic2 {m}] @ nts)"
      using True rm up n by (simp add: ic_down_def Let_def)
    show ?thesis
    proof (rule feedsI[OF run])
      fix r u
      assume "Notify r u \<in> set (out @ [gossip_round env c ic2 {m}] @ nts)"
      then have "Notify r u \<in> set nts" using update_quiet[OF up, of r u] by simp
      from notify_update[OF n this] show "cu_nodes u = ic_members ic2 \<and>
          follows (cu_events u) (ic_members ic, ns_member c) = Some (ic_members ic2, ns_member c2) \<and>
          m_socket (ns_member c2) = m_socket (ns_member c) \<and> entering (cu_events u) \<subseteq> ic_members ic2"
        using rm(2) notify_state(1)[OF n] update_frame(1)[OF up] by (simp add: entering_def)
    qed
  qed
qed

lemma ic_process_feeds:
  assumes inv: "ic_inv env U c ic" and adm: "state_admissible rid U c (known ic) msg"
  shows "feeds c ic (ic_process env rid msg c ic rt)"
proof (cases msg)
  case (State_Msg g)
  with ic_state_feeds[OF inv] adm show ?thesis by (simp add: ic_process_def state_admissible_def)
next
  case (Ping m)
  then show ?thesis by (simp add: ic_process_def ic_ping_feeds[OF inv])
qed (auto simp: ic_process_def heartbeat_def intro!: feedsI)

lemma recv_feeds:
  assumes inv: "cluster_inv env U cl S" and adm: "admissible rid U cl S msg" and sub: "\<And>r. msg \<noteq> Subscribe r"
    and ic: "clr_state cl = In_Cluster ic" and run: "cluster_recv env rid msg cl rt = Some (cl', rt', out)"
    and nt: "Notify r u \<in> set out"
  shows "\<exists>ic'. clr_state cl' = In_Cluster ic' \<and> cu_nodes u = ic_members ic' \<and>
     follows (cu_events u) (ic_members ic, ns_member (common cl)) = Some (ic_members ic', ns_member (common cl')) \<and>
     m_socket (ns_member (common cl')) = m_socket (ns_member (common cl)) \<and> entering (cu_events u) \<subseteq> ic_members ic'"
proof -
  let ?c = "common cl"
  from inv ic have ii: "ic_inv env U ?c ic" by (simp add: cluster_inv_def)
  have handled: ?thesis if "feeds ?c ic res" "res = Some (c', ic', r', out)"
      "cl' = cl\<lparr>common := c', clr_state := In_Cluster ic'\<rparr>" for res c' ic' r'
    using that nt unfolding feeds_def by auto
  show ?thesis
  proof (cases msg)
    case (Intra_Msg m)
    obtain c' ic' r where p: "ic_process env rid m ?c ic rt = Some (c', ic', r, out)"
      "cl' = cl\<lparr>common := c', clr_state := In_Cluster ic'\<rparr>"
      using run Intra_Msg ic by (auto simp: cluster_recv_def state_process_def Let_def split: option.splits)
    have "state_admissible rid U ?c (known ic) m" using adm Intra_Msg ic by (simp add: admissible_def)
    from handled[OF ic_process_feeds[OF ii this] p] show ?thesis .
  next
    case (Downed m)
    obtain c' ic' r where p: "ic_down env m ?c ic rt = Some (c', ic', r, out)"
      "cl' = cl\<lparr>common := c', clr_state := In_Cluster ic'\<rparr>"
      using run Downed ic by (auto simp: cluster_recv_def Let_def split: option.splits)
    from handled[OF ic_down_feeds p] show ?thesis .
  next
    case (Subscribe s)
    with sub show ?thesis by blast
  next
    case Gossip_Timeout
    with run ic nt show ?thesis
      by (auto simp: cluster_recv_def Let_def gossip_reqs_def)
  qed (use run ic nt in \<open>auto simp: cluster_recv_def Let_def heartbeat_def\<close>)
qed

subsection \<open>The first update\<close>

text \<open>An update a waiting replica can start from: it ends with the node's own identity.\<close>

definition starts :: "cluster_update \<Rightarrow> member set \<Rightarrow> member \<Rightarrow> bool" where
  "starts u M me \<longleftrightarrow> cu_events u \<noteq> [] \<and> last (cu_events u) \<in> {Joined me, Alone me} \<and> cu_nodes u = M"

lemma png_join_starts:
  assumes "png_join env g ms c rt = Some (c', st, rt', out)" "Notify r u \<in> set out"
  shows "\<exists>ic. st = Some (In_Cluster ic) \<and> starts u (ic_members ic) (ns_member c') \<and>
     m_socket (ns_member c') = m_socket (ns_member c)"
proof -
  from assms obtain ic0 ic1 out1 nts where up: "update_charges_managers env c ic0 = Some (ic1, out1)"
    and n: "notify env ic1 c [Joined (ns_member c)] = (c', nts)"
    and eq: "st = Some (In_Cluster ic1)" "out = out1 @ [gossip_round env c ic1 {}] @ nts"
    by (auto simp: png_join_def Let_def split: prod.splits option.splits)
  have "Notify r u \<in> set nts" using assms(2) update_quiet[OF up, of r u] by (simp add: eq)
  from notify_update[OF n this] notify_state(1)[OF n] show ?thesis by (simp add: eq starts_def)
qed

lemma png_process_starts:
  assumes "png_process env rid msg c rt = Some (c', st, rt', out)" "Notify r u \<in> set out"
  shows "\<exists>ic. st = Some (In_Cluster ic) \<and> starts u (ic_members ic) (ns_member c') \<and>
     m_socket (ns_member c') = m_socket (ns_member c)"
proof (cases msg)
  case (State_Msg g)
  with assms show ?thesis
    by (auto simp: png_process_def Let_def new_id_def dest!: png_join_starts split: if_splits)
next
  case (Ping m)
  with assms show ?thesis by (auto simp: png_process_def Let_def dest!: png_join_starts split: if_splits)
qed (use assms in \<open>auto simp: png_process_def heartbeat_def split: if_splits\<close>)

lemma create_starts:
  assumes "create_cluster env cl rt = (cl', rt', out)" "Notify r u \<in> set out"
  shows "\<exists>ic. clr_state cl' = In_Cluster ic \<and> starts u (ic_members ic) (ns_member (common cl')) \<and>
     ns_member (common cl') = ns_member (common cl)"
proof -
  from assms obtain ic nts c where n: "notify env ic (common cl) [Alone (ns_member (common cl))] = (c, nts)"
    and eq: "cl' = cl\<lparr>common := c, clr_state := In_Cluster ic\<rparr>" "out = nts"
    by (auto simp: create_cluster_def split: prod.splits)
  from notify_update[OF n assms(2)[unfolded eq]] notify_state(1)[OF n] show ?thesis by (simp add: eq starts_def)
qed

lemma recv_starts:
  assumes run: "cluster_recv env rid msg cl rt = Some (cl', rt', out)" and nt: "Notify r u \<in> set out"
    and first: "(\<exists>s. msg = Subscribe s) \<or> (\<forall>ic. clr_state cl \<noteq> In_Cluster ic)"
  shows "\<exists>ic'. clr_state cl' = In_Cluster ic' \<and> starts u (ic_members ic') (ns_member (common cl')) \<and>
     m_socket (ns_member (common cl')) = m_socket (ns_member (common cl))"
proof (cases "\<exists>s. msg = Subscribe s")
  case True
  with run nt show ?thesis
    by (auto simp: cluster_recv_def Let_def starts_def split: clr_state.splits if_splits)
next
  case False
  show ?thesis
  proof (cases "clr_state cl")
    case (Pinging png)
    show ?thesis
    proof (cases msg)
      case (Intra_Msg m)
      with run Pinging obtain c' st where p: "png_process env rid m (common cl) rt = Some (c', st, rt', out)"
        "cl' = cl\<lparr>common := c', clr_state := unwrap_or st (Pinging png)\<rparr>"
        by (auto simp: cluster_recv_def state_process_def Let_def split: option.splits)
      from png_process_starts[OF p(1) nt] p(2) show ?thesis by auto
    next
      case Ping_Timeout
      show ?thesis
      proof (cases "png_count png = 0")
        case True
        with run Pinging Ping_Timeout have "create_cluster env cl rt = (cl', rt', out)"
          by (simp add: cluster_recv_def Let_def)
        from create_starts[OF this nt] show ?thesis by auto
      next
        case False
        with run Pinging Ping_Timeout nt show ?thesis
          by (auto simp: cluster_recv_def Let_def png_ping_def split: prod.splits)
      qed
    qed (use run Pinging nt False in \<open>auto simp: cluster_recv_def Let_def split: prod.splits\<close>)
  next
    case Left
    with run nt False show ?thesis
      by (cases msg) (auto simp: cluster_recv_def state_process_def Let_def)
  qed (use first False in auto)
qed

text \<open>
  Property C24.  The cluster actor drives the replicas of its node: whatever it sends to a subscriber is
  an update the replica can take.  A replica that waits gets its first update when it subscribes or when
  the node enters a cluster; afterwards every update moves its view from the members and the identity
  the cluster actor had before the message to those it has after it.
\<close>

theorem cluster_updates_drive_replicas:
  fixes a :: "('s, 'd, 'u, 'r) causal" and cl :: "('u, 't, 'f) cluster"
  assumes "cluster_reach env U cl rt S" and "admissible rid U cl S msg"
    and "cluster_recv env rid msg cl rt = Some (cl', rt', out)" and "Notify r u \<in> set out"
    and "case cstate a of
        Waiting _ \<Rightarrow> (\<exists>s. msg = Subscribe s) \<or> (\<forall>ic. clr_state cl \<noteq> In_Cluster ic)
      | Replica _ \<Rightarrow> (\<forall>s. msg \<noteq> Subscribe s) \<and>
          (\<exists>ic. clr_state cl = In_Cluster ic \<and> v = (ic_members ic, ns_member (common cl)))"
  shows "\<exists>ic'. clr_state cl' = In_Cluster ic' \<and>
    update_next U (m_socket (ns_member (common cl))) a v u = Some (ic_members ic', ns_member (common cl'))"
proof -
  note inv = cluster_reach_cluster_inv[OF assms(1)]
  have inU: "ic_members ic' \<subseteq> U" "ns_member (common cl') \<in> U" if "clr_state cl' = In_Cluster ic'" for ic'
  proof -
    from cluster_recv_inv[OF inv assms(2), of rt] assms(3) that
    have "ic_inv env U (common cl') ic'" "ns_member (common cl') \<in> U" by (auto simp: cluster_inv_def)
    then show "ic_members ic' \<subseteq> U" "ns_member (common cl') \<in> U" using ic_invD(2) by blast+
  qed
  show ?thesis
  proof (cases "cstate a")
    case (Waiting w)
    with assms(5) have "(\<exists>s. msg = Subscribe s) \<or> (\<forall>ic. clr_state cl \<noteq> In_Cluster ic)" by simp
    from recv_starts[OF assms(3,4) this] obtain ic' where ic': "clr_state cl' = In_Cluster ic'"
      "starts u (ic_members ic') (ns_member (common cl'))" "m_socket (ns_member (common cl')) = m_socket (ns_member (common cl))"
      by blast
    then show ?thesis using inU[OF ic'(1)] Waiting by (auto simp: update_next_def starts_def)
  next
    case (Replica icr)
    with assms(5) obtain ic where ic: "\<And>s. msg \<noteq> Subscribe s" "clr_state cl = In_Cluster ic"
      "v = (ic_members ic, ns_member (common cl))" by auto
    from recv_feeds[OF inv assms(2) ic(1,2) assms(3,4)] obtain ic' where ic': "clr_state cl' = In_Cluster ic'"
      "follows (cu_events u) v = Some (ic_members ic', ns_member (common cl'))"
      "m_socket (ns_member (common cl')) = m_socket (ns_member (common cl))" "entering (cu_events u) \<subseteq> ic_members ic'"
      unfolding ic(3) by blast
    have "entering (cu_events u) \<subseteq> U" using ic'(4) inU(1)[OF ic'(1)] by (rule order_trans)
    then show ?thesis using ic' inU[OF ic'(1)] Replica by (simp add: update_next_def entering_def)
  qed
qed

lemma sample_ping_notifies:
  assumes "cluster_recv sample_env 0 (Intra_Msg (Ping (sample_member 2 2))) (sample_cl 1 1) (sample_rt 1 1) = Some (cl', rt', out)"
  shows "\<exists>u. Notify 7 u \<in> set out \<and> cu_events u = [Added (sample_member 2 2)]"
proof -
  obtain ic where ic: "clr_state (sample_cl 1 1) = In_Cluster ic" "known ic = {sample_member 1 1}"
    using sample_in_cluster by blast
  have "om_get (states (ic_gossip ic)) (sample_member 2 2) = None"
  proof (rule ccontr)
    assume "om_get (states (ic_gossip ic)) (sample_member 2 2) \<noteq> None"
    then have "sample_member 2 2 \<in> known ic" by (simp add: known_def)
    with ic(2) sample_distinct show False by auto
  qed
  moreover have "subscribers (common (sample_cl 1 1)) = [7]" using sample_started_eq[of 1 1] by blast
  ultimately show ?thesis
    using assms ic(1)
    by (auto simp: cluster_recv_def state_process_def ic_process_def ic_ping_def Let_def notify_def
        split: option.splits prod.splits)
qed

theorem cluster_updates_drive_replicas_witness:
  "\<exists>cl' rt' out u ic'. cluster_recv sample_env 0 (Intra_Msg (Ping (sample_member 2 2))) (sample_cl 1 1) (sample_rt 1 1) =
       Some (cl', rt', out) \<and> Notify 7 u \<in> set out \<and> clr_state cl' = In_Cluster ic' \<and>
     update_next sample_members (m_socket (ns_member (common (sample_cl 1 1))))
       (at_state (Replica (two_ic sample_devices 1 (sample_member 1 1) (sample_member 1 1) [] 1)))
       ({sample_member 1 1}, sample_member 1 1) u = Some (ic_members ic', ns_member (common cl'))"
proof -
  obtain ic where ic: "clr_state (sample_cl 1 1) = In_Cluster ic" "ic_members ic = {sample_member 1 1}"
    using sample_in_cluster by blast
  have me: "ns_member (common (sample_cl 1 1)) = sample_member 1 1" using sample_started_eq[of 1 1] by blast
  note r = sample_reach[OF sample_member_in(1)]
  have adm: "admissible 0 sample_members (sample_cl 1 1) {} (Intra_Msg (Ping (sample_member 2 2)))"
    by (rule sample_ping_admissible) simp
  from cluster_recv_inv[OF cluster_reach_cluster_inv[OF r] adm] obtain cl' rt' out where
    run: "cluster_recv sample_env 0 (Intra_Msg (Ping (sample_member 2 2))) (sample_cl 1 1) (sample_rt 1 1) = Some (cl', rt', out)"
    by blast
  from sample_ping_notifies[OF run] obtain u where u: "Notify 7 u \<in> set out" by blast
  let ?a = "at_state (Replica (two_ic sample_devices 1 (sample_member 1 1) (sample_member 1 1) [] 1))"
  have "\<exists>ic'. clr_state cl' = In_Cluster ic' \<and> update_next sample_members (m_socket (ns_member (common (sample_cl 1 1)))) ?a
      ({sample_member 1 1}, sample_member 1 1) u = Some (ic_members ic', ns_member (common cl'))"
    by (rule cluster_updates_drive_replicas[OF r adm run u]) (simp add: ic me)
  with run u show ?thesis by blast
qed

end
