(* ===== verification/Frequency_Buffer.thy ===== *)
theory Frequency_Buffer
  imports Prelude "HOL-Library.Sublist"
begin

text \<open>
  The window in which a device client counts the servers that request its heartbeats
  (\<open>FrequencyBuffer\<close> in cluster/devices/client.rs): the last items, the number of times each occurs, and
  the number of changes from one item to the next, all kept incrementally.  The loop that makes room
  does not end when the capacity is zero, so it is a partial function, and \<open>None\<close> is not returning.
\<close>

record 'a freq_buffer =
  fbuffer :: "'a list"
  frequencies :: "'a \<Rightarrow> u32 option"
  fcapacity :: u32
  fchanges :: u32

definition fb_new :: "u32 \<Rightarrow> 'a freq_buffer" where
  "fb_new cap = \<lparr>fbuffer = [], frequencies = (\<lambda>_. None), fcapacity = cap, fchanges = 0\<rparr>"

definition fb_pop :: "'a freq_buffer \<Rightarrow> 'a freq_buffer" where
  "fb_pop fb =
     (if fbuffer fb = [] then fb
      else
        (let removed = last (fbuffer fb); rest = butlast (fbuffer fb) in
         fb\<lparr>fbuffer := rest,
            fchanges := (if rest \<noteq> [] \<and> last rest \<noteq> removed then fchanges fb - 1 else fchanges fb),
            frequencies :=
              (case frequencies fb removed of
                 None \<Rightarrow> frequencies fb
               | Some m \<Rightarrow> (if m = 1 then (frequencies fb)(removed := None) else (frequencies fb)(removed \<mapsto> m - 1)))\<rparr>))"

partial_function (option) fb_make_room :: "'a freq_buffer \<Rightarrow> 'a freq_buffer option" where
  "fb_make_room fb =
     (if unat (fcapacity fb) \<le> length (fbuffer fb) then fb_make_room (fb_pop fb) else Some fb)"

definition fb_push :: "'a \<Rightarrow> 'a freq_buffer \<Rightarrow> 'a freq_buffer option" where
  "fb_push item fb =
     (case fb_make_room fb of
        None \<Rightarrow> None
      | Some fb \<Rightarrow>
          Some (fb\<lparr>fbuffer := item # fbuffer fb,
            frequencies := (frequencies fb)(item \<mapsto> unwrap_or (frequencies fb item) 0 + 1),
            fchanges := (if fbuffer fb \<noteq> [] \<and> hd (fbuffer fb) \<noteq> item then fchanges fb + 1 else fchanges fb)\<rparr>))"

text \<open>The test of the client: \<open>changes + 1 != frequencies.len()\<close>.\<close>

definition fb_mixed :: "'a freq_buffer \<Rightarrow> bool" where
  "fb_mixed fb \<longleftrightarrow> fchanges fb + 1 \<noteq> of_nat (card (dom (frequencies fb)))"

lemma unat_of_nat_small: "n < 2 ^ LENGTH('a) \<Longrightarrow> unat (of_nat n :: 'a::len word) = n"
  by (simp add: unsigned_of_nat take_bit_nat_eq_self)

lemma of_nat_inject_small:
  "m < 2 ^ LENGTH('a) \<Longrightarrow> n < 2 ^ LENGTH('a) \<Longrightarrow> (of_nat m :: 'a::len word) = of_nat n \<longleftrightarrow> m = n"
  by (metis unat_of_nat_small)

subsection \<open>Changes in a list\<close>

fun turns :: "'a list \<Rightarrow> nat" where
  "turns (x # y # xs) = (if x = y then 0 else 1) + turns (y # xs)"
| "turns _ = 0"

definition alternates :: "'a list \<Rightarrow> bool" where
  "alternates xs \<longleftrightarrow> (\<exists>x y. x \<noteq> y \<and> subseq [x, y, x] xs)"

lemma turns_Cons: "turns (x # xs) = (if xs \<noteq> [] \<and> hd xs \<noteq> x then 1 else 0) + turns xs"
  by (cases xs) auto

lemma turns_snoc: "turns (xs @ [x]) = turns xs + (if xs \<noteq> [] \<and> last xs \<noteq> x then 1 else 0)"
  by (induction xs rule: turns.induct) auto

lemma turns_less: "xs \<noteq> [] \<Longrightarrow> turns xs < length xs"
  by (induction xs rule: turns.induct) auto

lemma alternates_Cons: "alternates (x # zs) \<longleftrightarrow> alternates zs \<or> (\<exists>b. b \<noteq> x \<and> subseq [b, x] zs)"
proof
  assume "alternates (x # zs)"
  then obtain a b where ab: "a \<noteq> b" "subseq [a, b, a] (x # zs)" unfolding alternates_def by blast
  show "alternates zs \<or> (\<exists>b. b \<noteq> x \<and> subseq [b, x] zs)"
  proof (cases "a = x")
    case True
    from ab(2) have "subseq [b, x] zs" unfolding True by simp
    moreover have "b \<noteq> x" using ab(1) True by simp
    ultimately show ?thesis by blast
  next
    case False
    with ab(2) have "subseq [a, b, a] zs" by simp
    with ab(1) show ?thesis unfolding alternates_def by blast
  qed
next
  assume "alternates zs \<or> (\<exists>b. b \<noteq> x \<and> subseq [b, x] zs)"
  then show "alternates (x # zs)"
  proof
    assume "\<exists>b. b \<noteq> x \<and> subseq [b, x] zs"
    then obtain b where b: "b \<noteq> x" "subseq [b, x] zs" by blast
    from b(2) have "subseq [x, b, x] (x # zs)" by simp
    with b(1) show ?thesis unfolding alternates_def by (intro exI[of _ x] exI[of _ b] conjI) simp_all
  next
    assume "alternates zs"
    then show ?thesis unfolding alternates_def by (meson list_emb_Cons)
  qed
qed

text \<open>There are at least as many runs as items; there are more exactly when an item comes back.\<close>

lemma turns_card:
  "xs \<noteq> [] \<Longrightarrow> card (set xs) \<le> turns xs + 1 \<and> (card (set xs) = turns xs + 1 \<longleftrightarrow> \<not> alternates xs)"
proof (induction xs rule: turns.induct)
  case (1 x y xs)
  let ?zs = "y # xs"
  have IH: "card (set ?zs) \<le> turns ?zs + 1" "card (set ?zs) = turns ?zs + 1 \<longleftrightarrow> \<not> alternates ?zs"
    using 1 by auto
  consider "x = y" | "x \<noteq> y" "x \<notin> set ?zs" | "x \<noteq> y" "x \<in> set ?zs" by blast
  then show ?case
  proof cases
    case 1
    have same: "alternates (y # y # xs) \<longleftrightarrow> alternates (y # xs)"
      unfolding alternates_Cons[of y "y # xs"] alternates_Cons[of y xs] by auto
    have "alternates (x # ?zs) \<longleftrightarrow> alternates ?zs"
      using 1 same by simp
    with IH 1 show ?thesis by (simp add: insert_absorb)
  next
    case 2
    have "\<not> subseq [b, x] ?zs" for b
    proof
      assume "subseq [b, x] ?zs"
      then obtain z where "z \<in> set ?zs" "x = z" by (rule list_emb_set[of _ _ _ x]) simp
      with 2(2) show False by simp
    qed
    then have "alternates (x # ?zs) \<longleftrightarrow> alternates ?zs"
      unfolding alternates_Cons[of x] by blast
    with IH 2 show ?thesis by simp
  next
    case 3
    then have "subseq [y, x] ?zs" by (auto simp: subseq_singleton_left)
    with 3 have "alternates (x # ?zs)" unfolding alternates_def by (intro exI[of _ x] exI[of _ y]) simp
    with IH 3 show ?thesis by (simp add: insert_absorb)
  qed
qed (auto simp: alternates_def)

subsection \<open>The bookkeeping\<close>

definition fb_ok :: "'a freq_buffer \<Rightarrow> bool" where
  "fb_ok fb \<longleftrightarrow>
     (\<forall>x. frequencies fb x =
        (if x \<in> set (fbuffer fb) then Some (of_nat (count_list (fbuffer fb) x)) else None)) \<and>
     fchanges fb = of_nat (turns (fbuffer fb)) \<and> length (fbuffer fb) \<le> unat (fcapacity fb)"

lemma fb_ok_new: "fb_ok (fb_new cap)"
  by (simp add: fb_ok_def fb_new_def)

lemma count_small:
  assumes "length xs \<le> unat (cap :: u32)" "x \<in> set xs"
  shows "(of_nat (count_list xs x) = (1 :: u32)) \<longleftrightarrow> count_list xs x = 1"
proof -
  have "count_list xs x \<le> length xs" by (rule count_le_length)
  also have "\<dots> < 2 ^ LENGTH(32)" using assms(1) unsigned_less[of cap] by (rule le_less_trans)
  finally have "unat (of_nat (count_list xs x) :: u32) = count_list xs x" by (rule unat_of_nat_small)
  then show ?thesis by (metis of_nat_1 unsigned_1)
qed

lemma fb_pop_capacity: "fcapacity (fb_pop fb) = fcapacity fb"
  by (simp add: fb_pop_def Let_def)

lemma fb_pop_ok:
  assumes ok: "fb_ok fb" and ne: "fbuffer fb \<noteq> []"
  shows "fb_ok (fb_pop fb)" "fbuffer (fb_pop fb) = butlast (fbuffer fb)" "fcapacity (fb_pop fb) = fcapacity fb"
proof -
  obtain rest r where b: "fbuffer fb = rest @ [r]" using ne by (cases "fbuffer fb" rule: rev_cases) auto
  have len: "length (rest @ [r]) \<le> unat (fcapacity fb)" using ok b by (simp add: fb_ok_def)
  have fr: "frequencies fb x = (if x \<in> set (rest @ [r]) then Some (of_nat (count_list (rest @ [r]) x)) else None)" for x
    using ok b by (simp add: fb_ok_def)
  have one: "of_nat (count_list (rest @ [r]) r) = (1 :: u32) \<longleftrightarrow> r \<notin> set rest"
    using count_small[OF len, of r] by (simp add: count_list_0_iff)
  show bf: "fbuffer (fb_pop fb) = butlast (fbuffer fb)" and "fcapacity (fb_pop fb) = fcapacity fb"
    by (simp_all add: fb_pop_def ne Let_def)
  have "frequencies (fb_pop fb) x = (if x \<in> set rest then Some (of_nat (count_list rest x)) else None)" for x
    using one by (auto simp: fb_pop_def b Let_def fr[of r] fr[of x])
  moreover have "fchanges (fb_pop fb) = of_nat (turns rest)"
    using ok by (simp add: fb_pop_def b Let_def fb_ok_def turns_snoc)
  ultimately show "fb_ok (fb_pop fb)"
    using len by (simp add: fb_ok_def bf b) (simp add: fb_pop_def Let_def)
qed

text \<open>With a positive capacity the loop ends after at most one removal and leaves room.\<close>

lemma fb_make_room_ok:
  assumes ok: "fb_ok fb" and cap: "fcapacity fb \<noteq> 0"
  shows "\<exists>fb'. fb_make_room fb = Some fb' \<and> fb_ok fb' \<and> fcapacity fb' = fcapacity fb \<and>
     fbuffer fb' = take (unat (fcapacity fb) - 1) (fbuffer fb) \<and> length (fbuffer fb') < unat (fcapacity fb)"
proof (cases "unat (fcapacity fb) \<le> length (fbuffer fb)")
  case False
  then have "fb_make_room fb = Some fb" by (subst fb_make_room.simps) simp
  with ok False show ?thesis by auto
next
  case True
  have c: "0 < unat (fcapacity fb)" using cap by (simp add: unat_gt_0)
  with True have ne: "fbuffer fb \<noteq> []" by auto
  have len: "length (fbuffer fb) = unat (fcapacity fb)" using ok True by (simp add: fb_ok_def)
  note p = fb_pop_ok[OF ok ne]
  have "fb_make_room (fb_pop fb) = Some (fb_pop fb)"
  proof -
    have "\<not> unat (fcapacity (fb_pop fb)) \<le> length (fbuffer (fb_pop fb))" using p(2,3) len c by simp
    then show ?thesis by (subst fb_make_room.simps) simp
  qed
  then have "fb_make_room fb = Some (fb_pop fb)" using True by (subst fb_make_room.simps) simp
  with p len c show ?thesis by (simp add: butlast_conv_take)
qed

lemma fb_push_ok:
  assumes ok: "fb_ok fb" and cap: "fcapacity fb \<noteq> 0"
  shows "\<exists>fb'. fb_push x fb = Some fb' \<and> fb_ok fb' \<and> fcapacity fb' = fcapacity fb \<and>
     fbuffer fb' = take (unat (fcapacity fb)) (x # fbuffer fb)"
proof -
  from fb_make_room_ok[OF assms] obtain r where r: "fb_make_room fb = Some r" "fb_ok r" "fcapacity r = fcapacity fb"
    "fbuffer r = take (unat (fcapacity fb) - 1) (fbuffer fb)" "length (fbuffer r) < unat (fcapacity fb)" by blast
  have "take (unat (fcapacity fb)) (x # fbuffer fb) = x # fbuffer r"
    unfolding r(4) using r(5) by (simp add: take_Cons')
  then show ?thesis
    using r by (auto simp: fb_push_def fb_ok_def turns_Cons count_list_0_iff)
qed

text \<open>With capacity zero the loop runs for ever: there is always something to make room for.\<close>

lemma fb_make_room_zero:
  assumes "fb_make_room fb = Some fb'"
  shows "fcapacity fb \<noteq> 0"
proof (rule fb_make_room.raw_induct[where P = "\<lambda>fb _. fcapacity fb \<noteq> 0", OF _ assms])
  fix room :: "'a freq_buffer \<Rightarrow> 'a freq_buffer option" and fb fb' :: "'a freq_buffer"
  assume IH: "\<And>fb fb'. room fb = Some fb' \<Longrightarrow> fcapacity fb \<noteq> 0"
    and run: "(if unat (fcapacity fb) \<le> length (fbuffer fb) then room (fb_pop fb) else Some fb) = Some fb'"
  show "fcapacity fb \<noteq> 0"
  proof (cases "unat (fcapacity fb) \<le> length (fbuffer fb)")
    case True
    with run have "room (fb_pop fb) = Some fb'" by simp
    from IH[OF this] show ?thesis by (simp add: fb_pop_capacity)
  next
    case False
    then show ?thesis by auto
  qed
qed

lemma fb_mixed_iff:
  assumes ok: "fb_ok fb" and ne: "fbuffer fb \<noteq> []"
  shows "fb_mixed fb \<longleftrightarrow> alternates (fbuffer fb)"
proof -
  have dom: "dom (frequencies fb) = set (fbuffer fb)" using ok by (auto simp: fb_ok_def dom_def split: if_splits)
  have "turns (fbuffer fb) + 1 \<le> length (fbuffer fb)" using turns_less[OF ne] by simp
  also have "\<dots> \<le> unat (fcapacity fb)" using ok by (simp add: fb_ok_def)
  finally have t: "turns (fbuffer fb) + 1 < 2 ^ LENGTH(32)" using unsigned_less[of "fcapacity fb"] by (rule le_less_trans)
  have le: "card (set (fbuffer fb)) \<le> turns (fbuffer fb) + 1"
    and eq: "card (set (fbuffer fb)) = turns (fbuffer fb) + 1 \<longleftrightarrow> \<not> alternates (fbuffer fb)"
    using turns_card[OF ne] by blast+
  have "fchanges fb + 1 = (of_nat (turns (fbuffer fb) + 1) :: u32)" using ok by (simp add: fb_ok_def)
  moreover have "(of_nat (turns (fbuffer fb) + 1) :: u32) = of_nat (card (set (fbuffer fb))) \<longleftrightarrow>
      turns (fbuffer fb) + 1 = card (set (fbuffer fb))"
    by (rule of_nat_inject_small[OF t le_less_trans[OF le t]])
  ultimately show ?thesis using eq unfolding fb_mixed_def dom by metis
qed

end
