(* ===== verification/Device_Client.thy ===== *)
theory Device_Client
  imports Frequency_Buffer Devices_State Interval_Storage
begin

text \<open>
  The client of the device service (cluster/devices/client.rs): the actor on a device that tells some
  server of the cluster at which interval it wants to be asked for heartbeats, answers the requests,
  and notices when its server is down or when several servers ask.  A message over the network is an
  effect with the socket and the destination it goes to.  A handler gives the effects it has had and how
  it ends: \<open>Panic\<close> where the code panics (statistics that are not numbers, a window of capacity zero, an
  interval whose double is no duration) and \<open>Diverge\<close> where it does not return (a server log of capacity
  zero).  What was sent before stays sent.
\<close>

subsection \<open>Configuration, messages and state\<close>

record 'f device_client_config =
  dc_phi :: 'f
  storage_capacity :: u32
  dc_times :: u32
  log_capacity :: u32
  dc_seeds :: "socket set"
  initial_interval :: duration

definition default_device_client_config :: "'f \<Rightarrow> 'f device_client_config" where
  "default_device_client_config p995 =
     \<lparr>dc_phi = p995, storage_capacity = 10, dc_times = 5, log_capacity = 10, dc_seeds = {},
      initial_interval = from_millis 1000\<rparr>"

definition new_storage :: "'f device_client_config \<Rightarrow> nat \<Rightarrow> duration \<Rightarrow> interval_storage option" where
  "new_storage conf now init =
     map_option (\<lambda>d. storage_new (unat (storage_capacity conf)) d (unat (dc_times conf)) now) (dur_double init)"

datatype manager = Manager (mgr_server: "socket option")

text \<open>The reference of the requesting server; its local half is not serialised, so it is empty here.\<close>

type_synonym 'u sender_ref = "('u, unit) actor_ref"

datatype 'u client_remote_msg = Heartbeat_Request "'u sender_ref" | Interval_Ack socket device_interval

datatype 'r client_cmd = Set_Interval duration | Subscribe_Manager 'r

datatype ('u, 'r) client_msg = Client_Tick | Client_Remote "'u client_remote_msg" | Client_Cmd "'r client_cmd"

datatype sender_remote_msg = Sender_Heartbeat | Multiple_Senders

datatype server_remote_msg = Set_Heartbeat_Interval device device_interval

text \<open>\<open>Send_Servers\<close> and \<open>Send_Senders\<close> are loops over hash collections, one datagram for each element.\<close>

datatype ('u, 'r) client_effect =
    Send_Server socket "'u destination" server_remote_msg
  | Send_Servers "socket set" "'u destination" server_remote_msg
  | Send_Sender "'u sender_ref" sender_remote_msg
  | Send_Senders "'u sender_ref set" sender_remote_msg
  | Tell_Manager 'r manager
  | Schedule_Client_Tick duration

record ('u, 'r, 'f) device_client =
  my_info :: device
  dc_interval :: device_interval
  dc_config :: "'f device_client_config"
  svr_dest :: "'u destination"
  server :: "socket option"
  server_pov :: device_interval
  dc_storage :: interval_storage
  server_log :: "'u sender_ref freq_buffer"
  dc_subscribers :: "'r list"

text \<open>What the handlers take from outside: the statistics, the comparison of floats, the open mailboxes.\<close>

record ('r, 'f) client_env =
  cl_f64 :: "'f f64_ops"
  cl_less :: "'f \<Rightarrow> 'f \<Rightarrow> bool"
  cl_alive :: "'r \<Rightarrow> bool"

definition device_client_new ::
    "'u \<Rightarrow> 'u \<Rightarrow> socket \<Rightarrow> 'f device_client_config \<Rightarrow> string \<Rightarrow> 'r list \<Rightarrow> nat \<Rightarrow>
     ('u, 'r, 'f) device_client option" where
  "device_client_new variant_server_msg variant_remote sock conf name subrs now =
     map_option (\<lambda>st.
       \<lparr>my_info = Device sock, dc_interval = Device_Interval 1 (initial_interval conf), dc_config = conf,
        svr_dest = destination_new variant_server_msg variant_remote name, server = None,
        server_pov = Device_Interval 0 (initial_interval conf),
        dc_storage = st, server_log = fb_new (log_capacity conf), dc_subscribers = subrs\<rparr>)
       (new_storage conf now (initial_interval conf))"

subsection \<open>Operations\<close>

definition notify_server :: "('u, 'r, 'f) device_client \<Rightarrow> ('u, 'r) client_effect list" where
  "notify_server c =
     (let msg = Set_Heartbeat_Interval (my_info c) (dc_interval c) in
      case server c of
        Some svr \<Rightarrow> [Send_Server svr (svr_dest c) msg]
      | None \<Rightarrow> [Send_Servers (dc_seeds (dc_config c)) (svr_dest c) msg])"

definition new_interval ::
    "duration \<Rightarrow> ('u, 'r, 'f) device_client \<Rightarrow> ('u, 'r, 'f) device_client \<times> ('u, 'r) client_effect list" where
  "new_interval dur c =
     (let c' = c\<lparr>dc_interval := Device_Interval (di_clock (dc_interval c) + 1) dur\<rparr> in (c', notify_server c'))"

definition set_server ::
    "('r, 'f) client_env \<Rightarrow> socket option \<Rightarrow> ('u, 'r, 'f) device_client \<Rightarrow>
     ('u, 'r, 'f) device_client \<times> ('u, 'r) client_effect list" where
  "set_server env svr c =
     (c\<lparr>dc_subscribers := filter (cl_alive env) (dc_subscribers c), server := svr\<rparr>,
      map (\<lambda>s. Tell_Manager s (Manager svr)) (dc_subscribers c))"

definition client_pre_start :: "('u, 'r, 'f) device_client \<Rightarrow> ('u, 'r) client_effect list" where
  "client_pre_start c = notify_server c @ [Schedule_Client_Tick (di_interval (dc_interval c))]"

type_synonym ('u, 'r, 'f) client_result = "(('u, 'r) client_effect, ('u, 'r, 'f) device_client) outcome"

definition client_tick ::
    "('r, 'f) client_env \<Rightarrow> nat \<Rightarrow> ('u, 'r, 'f) device_client \<Rightarrow> ('u, 'r, 'f) client_result" where
  "client_tick env now c =
     (case phi (cl_f64 env) now (dc_storage c) of
        None \<Rightarrow> ([], Panic)
      | Some p \<Rightarrow>
          (let (c1, out) = (if cl_less env (dc_phi (dc_config c)) p
             then (case set_server env None c of (c1, told) \<Rightarrow> (c1, told @ notify_server c1))
             else (c, [])) in
           (out @ [Schedule_Client_Tick (di_interval (dc_interval c1))], Done c1)))"

text \<open>The first half of a heartbeat request: the answer is sent before the request is logged.\<close>

definition heartbeat_answer ::
    "('r, 'f) client_env \<Rightarrow> nat \<Rightarrow> 'u sender_ref \<Rightarrow> ('u, 'r, 'f) device_client \<Rightarrow> ('u, 'r, 'f) client_result" where
  "heartbeat_answer env now sender c =
     (if opt_filter (\<lambda>x. x = ref_socket sender) (server c) = None
      then
        (case new_storage (dc_config c) now (di_interval (dc_interval c)) of
           None \<Rightarrow> ([], Panic)
         | Some st \<Rightarrow>
             (case set_server env (Some (ref_socket sender)) (c\<lparr>dc_storage := st\<rparr>) of
                (c1, told) \<Rightarrow>
                  (told @ [Send_Sender sender Sender_Heartbeat],
                   Done (c1\<lparr>dc_config := (dc_config c1)\<lparr>dc_seeds := insert (ref_socket sender) (dc_seeds (dc_config c1))\<rparr>\<rparr>))))
      else
        (case push_instant now (dc_storage c) of
           None \<Rightarrow> ([], Panic)
         | Some st \<Rightarrow> ([Send_Sender sender Sender_Heartbeat], Done (c\<lparr>dc_storage := st\<rparr>))))"

text \<open>The second half: the log, and the warning of all its senders.\<close>

definition log_sender :: "'u sender_ref \<Rightarrow> ('u, 'r, 'f) device_client \<Rightarrow> ('u, 'r, 'f) client_result" where
  "log_sender sender c =
     (case fb_push sender (server_log c) of
        None \<Rightarrow> ([], Diverge)
      | Some fb \<Rightarrow>
          (if fb_mixed fb then [Send_Senders (dom (frequencies fb)) Multiple_Senders] else [], Done (c\<lparr>server_log := fb\<rparr>)))"

definition heartbeat_request ::
    "('r, 'f) client_env \<Rightarrow> nat \<Rightarrow> 'u sender_ref \<Rightarrow> ('u, 'r, 'f) device_client \<Rightarrow> ('u, 'r, 'f) client_result" where
  "heartbeat_request env now sender c = and_then (heartbeat_answer env now sender c) (log_sender sender)"

definition interval_ack ::
    "('r, 'f) client_env \<Rightarrow> nat \<Rightarrow> socket \<Rightarrow> device_interval \<Rightarrow> ('u, 'r, 'f) device_client \<Rightarrow>
     ('u, 'r, 'f) client_result" where
  "interval_ack env now sock interval c =
     (case set_server env (Some sock) c of (c1, told) \<Rightarrow>
       (let c2 = c1\<lparr>server_pov := interval\<rparr> in
        if server_pov c2 = dc_interval c2
        then
          (case new_storage (dc_config c2) now (di_interval (dc_interval c2)) of
             None \<Rightarrow> (told, Panic)
           | Some st \<Rightarrow> (told, Done (c2\<lparr>dc_storage := st\<rparr>)))
        else if di_clock (server_pov c2) < di_clock (dc_interval c2) then (told @ notify_server c2, Done c2)
        else
          (case new_interval (di_interval (dc_interval c2))
               (c2\<lparr>dc_interval := Device_Interval (di_clock (server_pov c2)) (di_interval (dc_interval c2))\<rparr>) of
             (c3, out) \<Rightarrow> (told @ out, Done c3))))"

definition client_recv ::
    "('r, 'f) client_env \<Rightarrow> nat \<Rightarrow> ('u, 'r) client_msg \<Rightarrow> ('u, 'r, 'f) device_client \<Rightarrow>
     ('u, 'r, 'f) client_result" where
  "client_recv env now msg c =
     (case msg of
        Client_Tick \<Rightarrow> client_tick env now c
      | Client_Remote (Heartbeat_Request sender) \<Rightarrow> heartbeat_request env now sender c
      | Client_Remote (Interval_Ack sock interval) \<Rightarrow> interval_ack env now sock interval c
      | Client_Cmd (Set_Interval dur) \<Rightarrow> (case new_interval dur c of (c1, out) \<Rightarrow> (out, Done c1))
      | Client_Cmd (Subscribe_Manager subr) \<Rightarrow>
          ([Tell_Manager subr (Manager (server c))], Done (c\<lparr>dc_subscribers := dc_subscribers c @ [subr]\<rparr>)))"

subsection \<open>The server log\<close>

definition client_ok :: "('u, 'r, 'f) device_client \<Rightarrow> bool" where
  "client_ok c \<longleftrightarrow> fb_ok (server_log c) \<and> storage_ok (dc_storage c)"

lemma new_storage_Some:
  assumes "new_storage conf now init = Some st"
  shows "storage_ok st" "capacity st = unat (storage_capacity conf)"
  using assms by (auto simp: new_storage_def storage_ok_new) (simp add: storage_new_def Let_def)

lemma new_storage_None [simp]: "new_storage conf now init = None \<longleftrightarrow> \<not> init * 2 \<le> duration_max"
  by (simp add: new_storage_def)

lemma set_server_simps [simp]:
  "server_log (fst (set_server env svr c)) = server_log c" "dc_storage (fst (set_server env svr c)) = dc_storage c"
  "dc_config (fst (set_server env svr c)) = dc_config c" "dc_interval (fst (set_server env svr c)) = dc_interval c"
  "my_info (fst (set_server env svr c)) = my_info c" "svr_dest (fst (set_server env svr c)) = svr_dest c"
  "server (fst (set_server env svr c)) = svr" "server_pov (fst (set_server env svr c)) = server_pov c"
  "snd (set_server env svr c) = map (\<lambda>s. Tell_Manager s (Manager svr)) (dc_subscribers c)"
  by (simp_all add: set_server_def)

text \<open>The windows of the client can hold something.\<close>

definition windows_ok :: "('u, 'r, 'f) device_client \<Rightarrow> bool" where
  "windows_ok c \<longleftrightarrow> storage_ok (dc_storage c) \<and> capacity (dc_storage c) \<noteq> 0 \<and> storage_capacity (dc_config c) \<noteq> 0"

lemma unat_pos: "0 < unat (w :: u32) \<longleftrightarrow> w \<noteq> 0"
  by (metis gr_zeroI unat_eq_zero neq0_conv)

text \<open>A request is answered, unless the window of intervals cannot be made or moved; then nothing is sent.\<close>

lemma heartbeat_answer_Done:
  assumes "heartbeat_answer env now sender c = (out, Done c1)"
  obtains told where "out = told @ [Send_Sender sender Sender_Heartbeat]" "\<forall>e\<in>set told. \<exists>s m. e = Tell_Manager s m"
    "server_log c1 = server_log c" "server c1 = Some (ref_socket sender)" "dc_interval c1 = dc_interval c"
    "storage_ok (dc_storage c) \<longrightarrow> storage_ok (dc_storage c1)" "windows_ok c \<longrightarrow> windows_ok c1"
proof (cases "opt_filter (\<lambda>x. x = ref_socket sender) (server c) = None")
  case True
  with assms obtain st where "new_storage (dc_config c) now (di_interval (dc_interval c)) = Some st"
    by (auto simp: heartbeat_answer_def split: option.splits)
  from this new_storage_Some[OF this] assms True show thesis
    by (intro that[of "map (\<lambda>s. Tell_Manager s (Manager (Some (ref_socket sender)))) (dc_subscribers c)"])
      (auto simp: heartbeat_answer_def set_server_def windows_ok_def unat_pos)
next
  case False
  with assms obtain st where st: "push_instant now (dc_storage c) = Some st"
    by (auto simp: heartbeat_answer_def split: option.splits)
  have "server c = Some (ref_socket sender)"
    using False by (auto simp: opt_filter_def split: option.splits if_splits)
  then show thesis using assms False st storage_ok_push(1,2)[OF _ st]
    by (intro that[of "[]"]) (auto simp: heartbeat_answer_def windows_ok_def)
qed

lemma heartbeat_answer_returns:
  assumes "windows_ok c" and "di_interval (dc_interval c) * 2 \<le> duration_max"
  shows "\<exists>out c1. heartbeat_answer env now sender c = (out, Done c1)"
proof (cases "opt_filter (\<lambda>x. x = ref_socket sender) (server c) = None")
  case True
  with assms(2) show ?thesis by (auto simp: heartbeat_answer_def split: option.splits prod.splits)
next
  case False
  obtain st where "push_instant now (dc_storage c) = Some st"
    using push_instant_eq[of "dc_storage c"] assms(1) by (auto simp: windows_ok_def Let_def)
  with False show ?thesis unfolding heartbeat_answer_def if_not_P[OF False] by simp
qed

lemma fb_push_zero: "fcapacity fb = 0 \<Longrightarrow> fb_push x fb = None"
  using fb_make_room_zero[of fb] by (fastforce simp: fb_push_def split: option.splits)

lemma heartbeat_request_parts:
  assumes "heartbeat_request env now sender c = (out, Done c')"
  obtains c1 told fb where "fb_push sender (server_log c) = Some fb" "server_log c1 = server_log c"
    "c' = c1\<lparr>server_log := fb\<rparr>" "storage_ok (dc_storage c) \<longrightarrow> storage_ok (dc_storage c')"
    "windows_ok c \<longrightarrow> windows_ok c'" "server c' = Some (ref_socket sender)" "dc_interval c' = dc_interval c"
    "out = told @ [Send_Sender sender Sender_Heartbeat] @
       (if fb_mixed fb then [Send_Senders (dom (frequencies fb)) Multiple_Senders] else [])"
    "\<forall>S m. Send_Senders S m \<notin> set told"
proof -
  from assms obtain out1 c1 out2 where r: "heartbeat_answer env now sender c = (out1, Done c1)"
    "log_sender sender c1 = (out2, Done c')" "out = out1 @ out2"
    unfolding heartbeat_request_def by (rule and_then_DoneE)
  from r(1) obtain told where t: "out1 = told @ [Send_Sender sender Sender_Heartbeat]" "\<forall>e\<in>set told. \<exists>s m. e = Tell_Manager s m"
    "server_log c1 = server_log c" "server c1 = Some (ref_socket sender)" "dc_interval c1 = dc_interval c"
    "storage_ok (dc_storage c) \<longrightarrow> storage_ok (dc_storage c1)" "windows_ok c \<longrightarrow> windows_ok c1"
    by (rule heartbeat_answer_Done)
  from r(2) obtain fb where fb: "fb_push sender (server_log c1) = Some fb" "c' = c1\<lparr>server_log := fb\<rparr>"
    "out2 = (if fb_mixed fb then [Send_Senders (dom (frequencies fb)) Multiple_Senders] else [])"
    by (auto simp: log_sender_def split: option.splits)
  have "\<forall>S m. Send_Senders S m \<notin> set told" using t(2) by blast
  with r(3) t fb show thesis by (intro that[of fb c1 told]) (simp_all add: windows_ok_def)
qed

text \<open>Every message that is handled keeps the log and the windows in order, whatever the capacities are.\<close>

lemma client_ok_recv:
  assumes ok: "client_ok c" and run: "client_recv env now msg c = (out, Done c')"
  shows "client_ok c' \<and> fcapacity (server_log c') = fcapacity (server_log c) \<and> (windows_ok c \<longrightarrow> windows_ok c')"
proof -
  from ok have fb: "fb_ok (server_log c)" and st: "storage_ok (dc_storage c)" by (simp_all add: client_ok_def)
  consider (tick) "msg = Client_Tick" | (req) s where "msg = Client_Remote (Heartbeat_Request s)"
    | (ack) k i where "msg = Client_Remote (Interval_Ack k i)" | (cmd) cmd where "msg = Client_Cmd cmd"
    by (cases msg) (auto elim: client_remote_msg.exhaust)
  then show ?thesis
  proof cases
    case tick
    then show ?thesis using run ok
      by (auto simp: client_recv_def client_tick_def set_server_def client_ok_def windows_ok_def split: option.splits if_splits)
  next
    case req
    with run have "heartbeat_request env now s c = (out, Done c')" by (simp add: client_recv_def)
    then obtain c1 fb' where p: "fb_push s (server_log c) = Some fb'" "c' = c1\<lparr>server_log := fb'\<rparr>"
      "storage_ok (dc_storage c) \<longrightarrow> storage_ok (dc_storage c')" "windows_ok c \<longrightarrow> windows_ok c'"
      by (rule heartbeat_request_parts)
    have cap: "fcapacity (server_log c) \<noteq> 0" using p(1) fb_push_zero[of "server_log c" s] by auto
    from p fb_push_ok[OF fb cap, of s] st show ?thesis by (auto simp: client_ok_def)
  next
    case ack
    then show ?thesis using run ok
      by (auto simp: client_recv_def interval_ack_def set_server_def new_interval_def client_ok_def windows_ok_def Let_def
          unat_pos new_storage_Some split: if_splits option.splits)
  next
    case cmd
    then show ?thesis using run ok
      by (cases cmd) (auto simp: client_recv_def new_interval_def client_ok_def windows_ok_def Let_def)
  qed
qed

text \<open>With positive capacities, valid statistics and intervals that can be doubled every message is handled.\<close>

definition client_sized :: "('u, 'r, 'f) device_client \<Rightarrow> bool" where
  "client_sized c \<longleftrightarrow>
     client_ok c \<and> windows_ok c \<and> fcapacity (server_log c) \<noteq> 0 \<and> di_interval (dc_interval c) * 2 \<le> duration_max"

definition interval_fits :: "('u, 'r) client_msg \<Rightarrow> bool" where
  "interval_fits msg \<longleftrightarrow> (case msg of Client_Cmd (Set_Interval dur) \<Rightarrow> dur * 2 \<le> duration_max | _ \<Rightarrow> True)"

lemma heartbeat_request_returns:
  assumes sz: "client_sized c"
  shows "\<exists>c' out. heartbeat_request env now sender c = (out, Done c') \<and> client_sized c' \<and>
     fcapacity (server_log c') = fcapacity (server_log c) \<and>
     fbuffer (server_log c') = take (unat (fcapacity (server_log c))) (sender # fbuffer (server_log c))"
proof -
  from sz have ok: "fb_ok (server_log c)" "fcapacity (server_log c) \<noteq> 0" "windows_ok c" "di_interval (dc_interval c) * 2 \<le> duration_max"
    by (simp_all add: client_sized_def client_ok_def)
  from fb_push_ok[OF ok(1,2), of sender] obtain fb where fb: "fb_push sender (server_log c) = Some fb" "fb_ok fb"
    "fcapacity fb = fcapacity (server_log c)" "fbuffer fb = take (unat (fcapacity (server_log c))) (sender # fbuffer (server_log c))"
    by blast
  from heartbeat_answer_returns[OF ok(3,4), of env now sender] obtain out1 c1 where
    a: "heartbeat_answer env now sender c = (out1, Done c1)" by blast
  then have "server_log c1 = server_log c" by (rule heartbeat_answer_Done)
  with a fb(1) have run: "\<exists>out. heartbeat_request env now sender c = (out, Done (c1\<lparr>server_log := fb\<rparr>))"
    by (simp add: heartbeat_request_def log_sender_def)
  from a have "dc_interval c1 = dc_interval c" "storage_ok (dc_storage c) \<longrightarrow> storage_ok (dc_storage c1)" "windows_ok c \<longrightarrow> windows_ok c1"
    by (auto elim: heartbeat_answer_Done)
  with fb ok sz have "client_sized (c1\<lparr>server_log := fb\<rparr>)"
    by (auto simp: client_sized_def client_ok_def windows_ok_def)
  with run fb show ?thesis by auto
qed

lemma client_recv_returns:
  assumes sz: "client_sized c" and stats: "\<And>m sd. f_normal_ok (cl_f64 env) m sd" and fits: "interval_fits msg"
  shows "\<exists>c' out. client_recv env now msg c = (out, Done c') \<and> client_sized c'"
proof (cases "\<exists>s. msg = Client_Remote (Heartbeat_Request s)")
  case True
  then show ?thesis using heartbeat_request_returns[OF sz] by (fastforce simp: client_recv_def)
next
  case False
  have "\<exists>c' out. client_recv env now msg c = (out, Done c') \<and> di_interval (dc_interval c') * 2 \<le> duration_max"
  proof -
    consider (tick) "msg = Client_Tick" | (ack) k i where "msg = Client_Remote (Interval_Ack k i)"
      | (cmd) cmd where "msg = Client_Cmd cmd"
      using False by (metis client_msg.exhaust client_remote_msg.exhaust)
    then show ?thesis
    proof cases
      case tick
      then show ?thesis using sz stats
        by (auto simp: client_recv_def client_tick_def set_server_def client_sized_def phi_def phi_duration_def normal_def Let_def)
    next
      case ack
      have "new_storage (dc_config c) now (di_interval (dc_interval c)) \<noteq> None" using sz by (simp add: client_sized_def)
      with ack show ?thesis using sz
        by (auto simp: client_recv_def interval_ack_def set_server_def new_interval_def client_sized_def Let_def
            simp del: new_storage_None)
    next
      case cmd
      then show ?thesis using sz fits
        by (cases cmd) (auto simp: client_recv_def new_interval_def client_sized_def interval_fits_def Let_def)
    qed
  qed
  then obtain c' out where "client_recv env now msg c = (out, Done c')" "di_interval (dc_interval c') * 2 \<le> duration_max" by blast
  with client_ok_recv[OF _ this(1)] sz show ?thesis by (auto simp: client_sized_def)
qed

text \<open>A run of messages, each handled at its instant, until the first that is not handled.\<close>

fun client_run ::
    "('r, 'f) client_env \<Rightarrow> (nat \<times> ('u, 'r) client_msg) list \<Rightarrow> ('u, 'r, 'f) device_client \<Rightarrow>
     ('u, 'r, 'f) client_result" where
  "client_run env [] c = ([], Done c)"
| "client_run env (m # ms) c = and_then (client_recv env (fst m) (snd m) c) (client_run env ms)"

lemma client_run_ok:
  "client_ok c \<Longrightarrow> client_run env ms c = (out, Done c') \<Longrightarrow>
   client_ok c' \<and> fcapacity (server_log c') = fcapacity (server_log c) \<and> (windows_ok c \<longrightarrow> windows_ok c')"
proof (induction ms arbitrary: c out)
  case (Cons m ms)
  from Cons.prems(2) obtain out1 c1 out2 where s: "client_recv env (fst m) (snd m) c = (out1, Done c1)"
    "client_run env ms c1 = (out2, Done c')" by (auto elim: and_then_DoneE)
  from client_ok_recv[OF Cons.prems(1) s(1)] Cons.IH[OF _ s(2)] show ?case by auto
qed auto

lemma client_run_returns:
  "client_sized c \<Longrightarrow> (\<And>m sd. f_normal_ok (cl_f64 env) m sd) \<Longrightarrow> \<forall>m\<in>set ms. interval_fits (snd m) \<Longrightarrow>
   \<exists>c' out. client_run env ms c = (out, Done c') \<and> client_sized c'"
proof (induction ms arbitrary: c)
  case (Cons m ms)
  from client_recv_returns[OF Cons.prems(1,2), of "snd m" "fst m"] Cons.prems(3) obtain c1 out1 where
    s: "client_recv env (fst m) (snd m) c = (out1, Done c1)" "client_sized c1" by auto
  from Cons.IH[OF s(2) Cons.prems(2)] Cons.prems(3) obtain c' out2 where
    "client_run env ms c1 = (out2, Done c')" "client_sized c'" by auto
  with s(1) show ?case by simp
qed simp

lemma client_new_parts:
  assumes "device_client_new vs vr sock conf name subrs start = Some c"
  shows "client_ok c" "server_log c = fb_new (log_capacity conf)" "fcapacity (server_log c) = log_capacity conf"
    "di_interval (dc_interval c) = initial_interval conf" "initial_interval conf * 2 \<le> duration_max"
    "storage_capacity conf \<noteq> 0 \<Longrightarrow> windows_ok c" "server c = None" "dc_subscribers c = subrs" "dc_config c = conf"
proof -
  from assms obtain st where st: "new_storage conf start (initial_interval conf) = Some st"
    and c: "c = \<lparr>my_info = Device sock, dc_interval = Device_Interval 1 (initial_interval conf), dc_config = conf,
        svr_dest = destination_new vs vr name, server = None, server_pov = Device_Interval 0 (initial_interval conf),
        dc_storage = st, server_log = fb_new (log_capacity conf), dc_subscribers = subrs\<rparr>"
    by (auto simp: device_client_new_def)
  have "\<not> new_storage conf start (initial_interval conf) = None" using st by simp
  then show "initial_interval conf * 2 \<le> duration_max" by simp
  have "fcapacity (fb_new (log_capacity conf)) = log_capacity conf" by (simp add: fb_new_def)
  with new_storage_Some[OF st] show "client_ok c" "server_log c = fb_new (log_capacity conf)"
    "fcapacity (server_log c) = log_capacity conf" "di_interval (dc_interval c) = initial_interval conf"
    "storage_capacity conf \<noteq> 0 \<Longrightarrow> windows_ok c" "server c = None" "dc_subscribers c = subrs" "dc_config c = conf"
    by (simp_all add: c client_ok_def fb_ok_new windows_ok_def unat_pos)
qed



text \<open>
  Property C40.  A client whose server log has capacity zero serves one heartbeat request and then hangs.
  Whatever it has handled before, if it has a window for the intervals and its interval can be doubled,
  the request is answered (the server told to the subscribers, then the heartbeat sent to the asking
  monitor), but the loop that makes room in the log does not end, so that the handler never returns.  In
  particular no run that went on contains a request.
\<close>

theorem client_zero_log_hangs:
  assumes "device_client_new vs vr sock conf name subrs start = Some c0"
    and "log_capacity conf = 0" and "storage_capacity conf \<noteq> 0"
    and "client_run env ms c0 = (out0, Done c)" and "di_interval (dc_interval c) * 2 \<le> duration_max"
  shows "(\<exists>told. client_recv env now (Client_Remote (Heartbeat_Request sender)) c =
       (told @ [Send_Sender sender Sender_Heartbeat], Diverge) \<and> (\<forall>e\<in>set told. \<exists>s m. e = Tell_Manager s m)) \<and>
     (\<forall>now' sender'. (now', Client_Remote (Heartbeat_Request sender')) \<notin> set ms)"
proof
  note new = client_new_parts[OF assms(1)]
  have hang: "snd (client_recv env t (Client_Remote (Heartbeat_Request q)) d) \<noteq> Done d'"
    if "fcapacity (server_log d) = 0" for t q and d d' :: "('a, 'b, 'c) device_client"
  proof
    assume "snd (client_recv env t (Client_Remote (Heartbeat_Request q)) d) = Done d'"
    then obtain o' where "heartbeat_request env t q d = (o', Done d')" by (cases "heartbeat_request env t q d") (simp add: client_recv_def)
    then obtain fb where "fb_push q (server_log d) = Some fb" by (rule heartbeat_request_parts)
    with fb_push_zero[OF that] show False by simp
  qed
  have no: "\<forall>t q. (t, Client_Remote (Heartbeat_Request q)) \<notin> set ms"
    if "client_ok d" "fcapacity (server_log d) = 0" "client_run env ms d = (o', Done d')"
    for ms o' and d d' :: "('a, 'b, 'c) device_client"
    using that
  proof (induction ms arbitrary: d o')
    case (Cons m ms)
    from Cons.prems(3) obtain out1 d1 out2 where s: "client_recv env (fst m) (snd m) d = (out1, Done d1)"
      "client_run env ms d1 = (out2, Done d')" by (auto elim: and_then_DoneE)
    have "\<nexists>q. snd m = Client_Remote (Heartbeat_Request q)" using hang[OF Cons.prems(2)] s(1) by (metis snd_conv)
    with Cons.IH[OF _ _ s(2)] client_ok_recv[OF Cons.prems(1) s(1)] Cons.prems(2) show ?case by auto
  qed simp
  from no[OF new(1) _ assms(4)] new(3) assms(2) show "\<forall>t q. (t, Client_Remote (Heartbeat_Request q)) \<notin> set ms" by simp
  from client_run_ok[OF new(1) assms(4)] new(3,6) assms(2,3) have c: "windows_ok c" "fcapacity (server_log c) = 0" by auto
  from heartbeat_answer_returns[OF c(1) assms(5), of env now sender] obtain out1 c1 where
    a: "heartbeat_answer env now sender c = (out1, Done c1)" by blast
  then obtain told where t: "out1 = told @ [Send_Sender sender Sender_Heartbeat]" "\<forall>e\<in>set told. \<exists>s m. e = Tell_Manager s m"
    "server_log c1 = server_log c" by (rule heartbeat_answer_Done)
  have "client_recv env now (Client_Remote (Heartbeat_Request sender)) c = (out1, Diverge)"
    using a t(3) fb_push_zero[OF c(2)] by (simp add: client_recv_def heartbeat_request_def log_sender_def)
  with t show "\<exists>told. client_recv env now (Client_Remote (Heartbeat_Request sender)) c =
       (told @ [Send_Sender sender Sender_Heartbeat], Diverge) \<and> (\<forall>e\<in>set told. \<exists>s m. e = Tell_Manager s m)" by auto
qed

subsection \<open>The interval\<close>

text \<open>
  Fact.  The device has the last word on its heartbeat interval.  When a server acknowledges another
  interval than the device's, the device sends its own duration back to that server under a clock that
  beats both the server's and its previous one in the order of the replicated table, so that the put it
  causes takes effect; when the server agrees the exchange ends.
\<close>

theorem client_reasserts_interval:
  fixes c :: "('u, 'r, 'f) device_client"
  assumes "client_recv env now (Client_Remote (Interval_Ack sock i)) c = (out, Done c')" and "di_clock i \<noteq> - 1"
  shows "server c' = Some sock \<and> di_interval (dc_interval c') = di_interval (dc_interval c) \<and>
    (if i = dc_interval c then dc_interval c' = dc_interval c \<and> (\<forall>t d m. Send_Server t d m \<notin> set out)
     else i < dc_interval c' \<and> dc_interval c \<le> dc_interval c' \<and>
       Send_Server sock (svr_dest c) (Set_Heartbeat_Interval (my_info c) (dc_interval c')) \<in> set out)"
proof -
  let ?c = "c\<lparr>dc_subscribers := filter (cl_alive env) (dc_subscribers c), server := Some sock, server_pov := i\<rparr>"
  let ?told = "map (\<lambda>s. Tell_Manager s (Manager (Some sock))) (dc_subscribers c)"
  from assms(1) have run: "interval_ack env now sock i c = (out, Done c')" by (simp add: client_recv_def)
  consider "i = dc_interval c" | "i \<noteq> dc_interval c" "di_clock i < di_clock (dc_interval c)"
    | "i \<noteq> dc_interval c" "\<not> di_clock i < di_clock (dc_interval c)" by blast
  then show ?thesis
  proof cases
    case 1
    have "interval_ack env now sock i c =
        (case new_storage (dc_config c) now (di_interval (dc_interval c)) of
           None \<Rightarrow> (?told, Panic) | Some st \<Rightarrow> (?told, Done (?c\<lparr>dc_storage := st\<rparr>)))"
      by (simp add: interval_ack_def set_server_def Let_def 1[symmetric])
    with run 1 show ?thesis by (auto simp del: new_storage_None split: option.splits)
  next
    case 2
    have "interval_ack env now sock i c = (?told @ notify_server ?c, Done ?c)"
      by (simp add: interval_ack_def set_server_def Let_def 2)
    with run 2 show ?thesis by (auto simp: notify_server_def less_le_not_le[of i] device_interval_le_iff)
  next
    case 3
    let ?c3 = "?c\<lparr>dc_interval := Device_Interval (di_clock i + 1) (di_interval (dc_interval c))\<rparr>"
    have "interval_ack env now sock i c = (?told @ notify_server ?c3, Done ?c3)"
      by (simp add: interval_ack_def set_server_def new_interval_def Let_def 3)
    moreover have "di_clock i < di_clock i + 1" using assms(2) by (rule word_less_add_one)
    moreover from this 3(2) have "di_clock (dc_interval c) < di_clock i + 1" by order
    ultimately show ?thesis
      using run 3(1) by (auto simp: notify_server_def less_le_not_le[of i] device_interval_le_iff)
  qed
qed

text \<open>
  Fact.  A command that sets an interval whose double is no duration is handled and sent to the servers,
  but kills the client at the next heartbeat request of a new server, before it has answered it.
\<close>

theorem client_huge_interval_panics:
  assumes "duration_max < dur * 2" and "server c \<noteq> Some (ref_socket sender)"
  shows "\<exists>c1. client_recv env now (Client_Cmd (Set_Interval dur)) c = (notify_server c1, Done c1) \<and>
     client_recv env now1 (Client_Remote (Heartbeat_Request sender)) c1 = ([], Panic)"
proof -
  have "new_storage (dc_config c) now1 dur = None" using assms(1) by simp
  with assms(2) show ?thesis
    by (auto simp: client_recv_def new_interval_def heartbeat_request_def heartbeat_answer_def Let_def opt_filter_def
        simp del: new_storage_None split: option.splits)
qed

subsection \<open>Witnesses\<close>

definition sample_f64 :: "nat f64_ops" where
  "sample_f64 = \<lparr>f_of_u64 = unat, f_of_usize = (\<lambda>n. n), f_div = (div), f_mult = (*), f_sub = (-), f_sqrt = (\<lambda>x. x),
     f_max = max, f_min_positive = 1, f_thousand = 1000, f_finite = (\<lambda>_. True), f_secs_of_duration = (\<lambda>d. d div 1000000000),
     f_duration_of_secs = (\<lambda>x. Some (x * 1000000000)), f_normal_ok = (\<lambda>_ _. True),
     f_normal_cdf = (\<lambda>m sd x. x), f_normal_inverse_cdf = (\<lambda>m sd p. p)\<rparr>"

definition sample_client_env :: "(nat, nat) client_env" where
  "sample_client_env = \<lparr>cl_f64 = sample_f64, cl_less = (<), cl_alive = (\<lambda>_. True)\<rparr>"

definition sample_client :: "u32 \<Rightarrow> (nat, nat, nat) device_client option" where
  "sample_client cap = device_client_new 0 1 (Socket (DNS ''device'') 5000 0)
     (default_device_client_config 5\<lparr>log_capacity := cap\<rparr>) ''devices'' [7] 0"

definition sample_sender :: "string \<Rightarrow> nat sender_ref" where
  "sample_sender h = actor_ref_new 2 3 ''sender'' (Socket (DNS h) 5000 0)"

lemma sample_client_Some: "sample_client cap = Some (the (sample_client cap))"
  by (simp add: sample_client_def device_client_new_def new_storage_def default_device_client_config_def from_millis_def
      dur_double_def duration_max_def)

lemmas sample_client_new = sample_client_Some[unfolded sample_client_def]

lemma sample_sized: "client_sized (the (sample_client 10))"
  using client_new_parts[OF sample_client_new[of 10]]
  by (simp add: client_sized_def sample_client_def default_device_client_config_def)

lemma sample_log: "server_log (the (sample_client 10)) = fb_new 10" "fcapacity (fb_new 10) = 10" "fbuffer (fb_new 10) = []"
  using client_new_parts(2)[OF sample_client_new[of 10]] by (simp_all add: sample_client_def) (simp_all add: fb_new_def)

lemma sample_stats: "f_normal_ok (cl_f64 sample_client_env) m sd"
  by (simp add: sample_client_env_def sample_f64_def)


theorem client_zero_log_hangs_witness:
  "\<exists>c0 told. sample_client 0 = Some c0 \<and>
     client_recv sample_client_env 0 (Client_Remote (Heartbeat_Request (sample_sender ''a''))) c0 =
       (told @ [Send_Sender (sample_sender ''a'') Sender_Heartbeat], Diverge)"
proof -
  note new = client_new_parts[OF sample_client_new[of 0], folded sample_client_def]
  have "di_interval (dc_interval (the (sample_client 0))) * 2 \<le> duration_max" unfolding new(4) by (rule new(5))
  with client_zero_log_hangs[OF sample_client_new[of 0, folded sample_client_def, unfolded sample_client_def] _ _ client_run.simps(1),
      folded sample_client_def, of sample_client_env 0 "sample_sender ''a''"] sample_client_Some[of 0]
  show ?thesis by (auto simp: default_device_client_config_def)
qed

theorem client_reasserts_interval_witness:
  "\<exists>c' out. client_recv sample_client_env 0 (Client_Remote (Interval_Ack (Socket (DNS ''a'') 5000 0) (Device_Interval 7 5)))
     (the (sample_client 10)) = (out, Done c') \<and> Device_Interval 7 5 < dc_interval c'"
proof -
  obtain c' out where run: "client_recv sample_client_env 0 (Client_Remote (Interval_Ack (Socket (DNS ''a'') 5000 0) (Device_Interval 7 5)))
     (the (sample_client 10)) = (out, Done c')"
    using client_recv_returns[OF sample_sized sample_stats, of "Client_Remote (Interval_Ack (Socket (DNS ''a'') 5000 0) (Device_Interval 7 5))" 0]
    by (auto simp: interval_fits_def)
  have "dc_interval (the (sample_client 10)) \<noteq> Device_Interval 7 5"
    using client_new_parts(4)[OF sample_client_new[of 10], folded sample_client_def]
    by (auto simp: default_device_client_config_def from_millis_def)
  with client_reasserts_interval[OF run] run show ?thesis by auto
qed

theorem client_huge_interval_panics_witness:
  "\<exists>c1. client_recv sample_client_env 0 (Client_Remote (Heartbeat_Request (sample_sender ''a''))) c1 = ([], Panic)"
proof -
  have "server (the (sample_client 10)) = None"
    using client_new_parts(7)[OF sample_client_new[of 10], folded sample_client_def] .
  then have "\<exists>c1. client_recv sample_client_env 0 (Client_Cmd (Set_Interval duration_max)) (the (sample_client 10)) = (notify_server c1, Done c1) \<and>
      client_recv sample_client_env 0 (Client_Remote (Heartbeat_Request (sample_sender ''a''))) c1 = ([], Panic)"
    by (intro client_huge_interval_panics) (simp_all add: duration_max_def)
  then show ?thesis by blast
qed



end
