(* ===== verification/Request_Sender.thy ===== *)
theory Request_Sender
  imports Device_Client Cluster
begin

text \<open>
  The actor with which a server monitors one device (cluster/devices/heartbeat_request_sender.rs): it
  asks for a heartbeat at every tick until the device has been silent for too long, then it reports the
  device to its server and schedules no further tick.
\<close>

record 'f sender_config =
  rs_phi :: 'f
  rs_capacity :: nat
  rs_times :: nat

definition default_sender_config :: "'f \<Rightarrow> 'f sender_config" where
  "default_sender_config p995 = \<lparr>rs_phi = p995, rs_capacity = 10, rs_times = 5\<rparr>"

datatype sender_msg = Sender_Remote sender_remote_msg | Sender_Interval device_interval | Sender_Tick

datatype 'u sender_effect =
    Request_Heartbeat socket "'u destination" "'u sender_ref"
  | Schedule_Sender_Tick duration
  | Tick_Self
  | Report_Downed device
  | Report_Sender device

record ('u, 'f) req_sender =
  rs_config :: "'f sender_config"
  rs_storage :: interval_storage
  rs_charge :: device
  rs_interval :: device_interval
  dev_dest :: "'u destination"
  rs_self :: "'u sender_ref"

text \<open>
  The reference of the actor itself, as \<open>ctx.interface()\<close> gives it, without its local half.  A monitor for
  an interval whose double is no duration is not created: the caller panics.
\<close>

definition req_sender_new ::
    "'u \<Rightarrow> 'u \<Rightarrow> 'u \<Rightarrow> 'u \<Rightarrow> socket \<Rightarrow> u64 \<Rightarrow> 'f sender_config \<Rightarrow> device \<Rightarrow> device_interval \<Rightarrow> string \<Rightarrow>
     nat \<Rightarrow> ('u, 'f) req_sender option" where
  "req_sender_new v_client v_client_remote v_sender v_sender_remote sock rid conf dev interval name now =
     map_option (\<lambda>dur.
       \<lparr>rs_config = conf, rs_storage = storage_new (rs_capacity conf) dur (rs_times conf) now,
        rs_charge = dev, rs_interval = interval, dev_dest = destination_new v_client v_client_remote name,
        rs_self = actor_ref_new v_sender v_sender_remote (name @ ''-'' @ show_nat (unat rid)) sock\<rparr>)
       (dur_double (di_interval interval))"

definition sender_pre_start :: "'u sender_effect list" where
  "sender_pre_start = [Tick_Self]"

type_synonym ('u, 'f) sender_result = "(('u, 'f) req_sender \<times> 'u sender_effect list) option"

definition sender_recv ::
    "'f f64_ops \<Rightarrow> ('f \<Rightarrow> 'f \<Rightarrow> bool) \<Rightarrow> nat \<Rightarrow> sender_msg \<Rightarrow> ('u, 'f) req_sender \<Rightarrow> ('u, 'f) sender_result" where
  "sender_recv F lt now msg s =
     (case msg of
        Sender_Tick \<Rightarrow>
          (case phi F now (rs_storage s) of
             None \<Rightarrow> None
           | Some p \<Rightarrow>
               Some (s,
                 if lt p (rs_phi (rs_config s))
                 then [Request_Heartbeat (dev_socket (rs_charge s)) (dev_dest s) (rs_self s),
                       Schedule_Sender_Tick (di_interval (rs_interval s))]
                 else [Report_Downed (rs_charge s)]))
      | Sender_Interval interval \<Rightarrow> Some (s\<lparr>rs_interval := interval\<rparr>, [])
      | Sender_Remote Sender_Heartbeat \<Rightarrow>
          map_option (\<lambda>st. (s\<lparr>rs_storage := st\<rparr>, [])) (push_instant now (rs_storage s))
      | Sender_Remote Multiple_Senders \<Rightarrow> Some (s, [Report_Sender (rs_charge s)]))"

subsection \<open>The life of a monitor\<close>

text \<open>
  The ticks that are under way: one from the start of the actor, and those it scheduled itself.  Other
  messages may arrive at any time.
\<close>

definition ticks_in :: "'u sender_effect list \<Rightarrow> nat" where
  "ticks_in out = length (filter (\<lambda>e. case e of Schedule_Sender_Tick _ \<Rightarrow> True | _ \<Rightarrow> False) out)"

inductive sender_life ::
    "'f f64_ops \<Rightarrow> ('f \<Rightarrow> 'f \<Rightarrow> bool) \<Rightarrow> device \<Rightarrow> ('u, 'f) req_sender \<Rightarrow> nat \<Rightarrow> 'u sender_effect list \<Rightarrow> bool"
  for F :: "'f f64_ops" and lt :: "'f \<Rightarrow> 'f \<Rightarrow> bool" and d :: device where
  start: "req_sender_new vc vr vs vq sock rid conf d interval name now = Some s \<Longrightarrow> sender_life F lt d s 1 []"
| tick: "sender_life F lt d s (Suc p) outs \<Longrightarrow> sender_recv F lt now Sender_Tick s = Some (s', out) \<Longrightarrow>
    sender_life F lt d s' (p + ticks_in out) (outs @ out)"
| other: "sender_life F lt d s p outs \<Longrightarrow> msg \<noteq> Sender_Tick \<Longrightarrow> sender_recv F lt now msg s = Some (s', out) \<Longrightarrow>
    sender_life F lt d s' p (outs @ out)"

lemma sender_life_inv:
  "sender_life F lt d s p outs \<Longrightarrow>
   rs_charge s = d \<and>
   (p = 1 \<and> (\<forall>x. Report_Downed x \<notin> set outs) \<or>
    p = 0 \<and> (\<exists>pre post. outs = pre @ Report_Downed d # post \<and> (\<forall>x. Report_Downed x \<notin> set pre \<union> set post) \<and>
      (\<forall>t e r. Request_Heartbeat t e r \<notin> set post)))"
proof (induction rule: sender_life.induct)
  case (start vc vr vs vq sock rid conf interval name now s)
  then show ?case by (auto simp: req_sender_new_def)
next
  case (tick s p outs now s' out)
  then have ih: "p = 0" "\<forall>x. Report_Downed x \<notin> set outs" "rs_charge s = d" by auto
  from tick.hyps(2) have "s' = s" "(\<exists>t e r k. out = [Request_Heartbeat t e r, Schedule_Sender_Tick k]) \<or> out = [Report_Downed (rs_charge s)]"
    by (auto simp: sender_recv_def split: option.splits if_splits)
  then consider t e r k where "s' = s" "out = [Request_Heartbeat t e r, Schedule_Sender_Tick k]"
    | "s' = s" "out = [Report_Downed d]" using ih(3) by blast
  then show ?case
  proof cases
    case 1
    with ih show ?thesis by (auto simp: ticks_in_def)
  next
    case 2
    with ih show ?thesis by (intro conjI disjI2 exI[of _ outs] exI[of _ "[]"]) (auto simp: ticks_in_def)
  qed
next
  case (other s p outs msg now s' out)
  from other.hyps(2,3) have out: "rs_charge s' = rs_charge s" "\<forall>x. Report_Downed x \<notin> set out"
    "\<forall>t e r. Request_Heartbeat t e r \<notin> set out"
    by (auto simp: sender_recv_def split: sender_msg.splits sender_remote_msg.splits)
  from other.IH show ?case
  proof (elim conjE disjE exE)
    fix pre post
    assume "p = 0" "outs = pre @ Report_Downed d # post" "\<forall>x. Report_Downed x \<notin> set pre \<union> set post"
      "\<forall>t e r. Request_Heartbeat t e r \<notin> set post" "rs_charge s = d"
    with out show ?thesis by (intro conjI disjI2 exI[of _ pre] exI[of _ "post @ out"]) auto
  qed (use out in auto)
qed

text \<open>
  Fact.  A monitor's verdict on its device is given at most once and ends the monitoring: whatever
  ticks, heartbeats and new intervals come, at most one report that the device is down is made, it names
  the monitored device, and no heartbeat is requested after it.
\<close>

theorem sender_reports_once:
  assumes "sender_life F lt d s p outs" and "Report_Downed x \<in> set outs"
  shows "x = d \<and> p = 0 \<and> (\<exists>pre post. outs = pre @ Report_Downed d # post \<and>
     (\<forall>y. Report_Downed y \<notin> set pre \<union> set post) \<and> (\<forall>t e r. Request_Heartbeat t e r \<notin> set post))"
  using sender_life_inv[OF assms(1)] assms(2) by auto

definition sample_req_sender :: "(nat, nat) req_sender" where
  "sample_req_sender = the (req_sender_new 0 1 2 3 (Socket (DNS ''a'') 5000 0) 9 (default_sender_config 5) sample_device
     (Device_Interval 1 (from_millis 50)) ''devices'' 0)"

lemma sample_req_sender:
  "req_sender_new 0 1 2 3 (Socket (DNS ''a'') 5000 0) 9 (default_sender_config 5) sample_device
     (Device_Interval 1 (from_millis 50)) ''devices'' 0 = Some sample_req_sender"
  "rs_storage sample_req_sender = storage_new 10 (from_millis 50 * 2) 5 0" "rs_charge sample_req_sender = sample_device"
  "rs_phi (rs_config sample_req_sender) = 5"
  by (simp_all add: sample_req_sender_def req_sender_new_def default_sender_config_def dur_double_def duration_max_def from_millis_def)

text \<open>Six seconds of silence are more than the limit of the sample statistics.\<close>

theorem sender_reports_once_witness:
  "\<exists>(s :: (nat, nat) req_sender) p outs. sender_life sample_f64 (<) sample_device s p outs \<and> Report_Downed sample_device \<in> set outs \<and> p = 0"
proof -
  have l: "sender_life sample_f64 (<) sample_device sample_req_sender (Suc 0) []"
    unfolding One_nat_def[symmetric] by (rule sender_life.start[OF sample_req_sender(1)])
  have r: "sender_recv sample_f64 (<) 6000000000 Sender_Tick sample_req_sender = Some (sample_req_sender, [Report_Downed sample_device])"
    by (simp add: sender_recv_def phi_def phi_duration_def normal_def Let_def sample_f64_def sample_req_sender
        storage_new_def)
  note t = sender_life.tick[OF l r]
  from sender_reports_once[OF t, of sample_device] have "0 + ticks_in [Report_Downed sample_device :: nat sender_effect] = 0" by simp
  with t show ?thesis by (intro exI conjI) (assumption, simp_all)
qed

text \<open>
  Property C30.  A round of monitoring: while the statistics are below the limit a tick asks the device, the
  client on it, with positive capacities and an interval that can be doubled, answers the asking monitor
  itself, and that answer is recorded, so that the silence is counted from then on.
\<close>

theorem monitoring_round:
  assumes "phi F now (rs_storage s) = Some p" and "lt p (rs_phi (rs_config s))"
    and "client_sized c" and "capacity (rs_storage s) \<noteq> 0" and "storage_ok (rs_storage s)"
  shows "\<exists>c' out s'. sender_recv F lt now Sender_Tick s = Some (s,
       [Request_Heartbeat (dev_socket (rs_charge s)) (dev_dest s) (rs_self s), Schedule_Sender_Tick (di_interval (rs_interval s))]) \<and>
     client_recv env now1 (Client_Remote (Heartbeat_Request (rs_self s))) c = (out, Done c') \<and>
     server c' = Some (ref_socket (rs_self s)) \<and> Send_Sender (rs_self s) Sender_Heartbeat \<in> set out \<and>
     sender_recv F lt now2 (Sender_Remote Sender_Heartbeat) s = Some (s', []) \<and> latest (rs_storage s') = now2"
proof -
  from heartbeat_request_returns[OF assms(3)] obtain c' out where
    run: "heartbeat_request env now1 (rs_self s) c = (out, Done c')" by blast
  then obtain told rest where "server c' = Some (ref_socket (rs_self s))"
    "out = told @ [Send_Sender (rs_self s) Sender_Heartbeat] @ rest" by (rule heartbeat_request_parts) blast
  moreover obtain st where st: "push_instant now2 (rs_storage s) = Some st"
    using push_instant_eq[OF assms(5)] assms(4) by (simp add: Let_def)
  moreover note storage_ok_push(3)[OF assms(5) st]
  ultimately show ?thesis
    using assms(1,2) run by (simp add: sender_recv_def client_recv_def)
qed

theorem monitoring_round_witness:
  "\<exists>c' out. client_recv sample_client_env 0 (Client_Remote (Heartbeat_Request (rs_self sample_req_sender))) (the (sample_client 10)) =
     (out, Done c') \<and> Send_Sender (rs_self sample_req_sender) Sender_Heartbeat \<in> set out"
proof -
  have "phi sample_f64 0 (rs_storage sample_req_sender) = Some 0"
    by (simp add: phi_def phi_duration_def normal_def Let_def sample_f64_def)
  moreover have "(0::nat) < rs_phi (rs_config sample_req_sender)" "capacity (rs_storage sample_req_sender) \<noteq> 0"
    "storage_ok (rs_storage sample_req_sender)"
    by (simp_all add: sample_req_sender storage_ok_new) (simp add: storage_new_def Let_def)
  ultimately show ?thesis
    using monitoring_round[of sample_f64 0 sample_req_sender 0 "(<)" "the (sample_client 10)" sample_client_env 0 0, OF _ _ sample_sized]
    by blast
qed

end
