(* ===== verification/Device_Server.thy ===== *)
theory Device_Server
  imports Request_Sender Causal
begin

text \<open>
  The server of the device service (cluster/devices/server.rs): on each node of the cluster it accepts
  the heartbeat intervals of the devices it is the manager of, forwards the others to their manager,
  keeps the replicated table of devices up to date and one monitor per accepted device.  The reference
  that \<open>HBReqSender::new\<close> returns for a new monitor is an argument of the handler.  A handler gives the
  effects it has had and how it ends; it panics on a ring without members, on a message that cannot come
  while the server waits, and when \<open>HBReqSender::new\<close> cannot double the interval of a new device.
\<close>

subsection \<open>Messages and state\<close>

datatype 'r server_cmd = Subscribe_Charges 'r

datatype 'r server_msg =
    Server_Remote server_remote_msg
  | Server_Update cluster_update
  | Device_Data devices
  | Server_Cmd "'r server_cmd"
  | Am_I_Sender device
  | Downed_Device device

datatype device_charges = Charges (chg_devices: "device set") (chg_table: devices)

datatype ('u, 'h, 'r) server_effect =
    Join_Cluster_Updates
  | Join_Device_Data
  | Mutate_Devices device_mutator
  | Spawn_Monitor 'h device device_interval string
  | Monitor_Interval 'h device_interval
  | Stop_Monitors "'h set"
  | Tell_Charges 'r device_charges
  | Forward socket "'u destination" server_remote_msg

record 'h server_ic =
  sv_member :: member
  sv_nodes :: "member set"
  sv_ring :: node_ring
  sv_devices :: devices
  req_senders :: "device \<Rightarrow> 'h option"
  sv_charges :: "device set"

record server_waiting =
  w_servers :: "member set option"
  w_member :: "member option"
  w_ring :: "node_ring option"
  w_devices :: "devices option"

datatype 'h server_state = Server_Waiting server_waiting | Server_In "'h server_ic"

record ('u, 'r) server_common =
  sv_subscribers :: "'r list"
  sv_dest :: "'u destination"

record ('u, 'h, 'r) device_server =
  sv_common :: "('u, 'r) server_common"
  sv_state :: "'h server_state"

subsection \<open>Operations\<close>

definition server_publish ::
    "('r \<Rightarrow> bool) \<Rightarrow> 'h server_ic \<Rightarrow> ('u, 'r) server_common \<Rightarrow>
     ('u, 'r) server_common \<times> ('u, 'h, 'r) server_effect list" where
  "server_publish alive ic c =
     (c\<lparr>sv_subscribers := filter alive (sv_subscribers c)\<rparr>,
      map (\<lambda>s. Tell_Charges s (Charges (sv_charges ic) (sv_devices ic))) (sv_subscribers c))"

definition remove_device ::
    "('r \<Rightarrow> bool) \<Rightarrow> device \<Rightarrow> ('u, 'r) server_common \<Rightarrow> 'h server_ic \<Rightarrow>
     'h server_ic \<times> ('u, 'r) server_common \<times> ('u, 'h, 'r) server_effect list" where
  "remove_device alive d c ic =
     (case req_senders ic d of
        None \<Rightarrow> (ic, c, [])
      | Some h \<Rightarrow>
          (let ic1 = ic\<lparr>req_senders := (req_senders ic)(d := None), sv_charges := sv_charges ic - {d}\<rparr> in
           case server_publish alive ic1 c of (c1, pubs) \<Rightarrow> (ic1, c1, Stop_Monitors {h} # pubs)))"

definition is_device_manager :: "(device \<Rightarrow> u64) \<Rightarrow> 'h server_ic \<Rightarrow> device \<Rightarrow> bool" where
  "is_device_manager hash ic d =
     list_ex (\<lambda>m. m_id m = m_id (sv_member ic)) (managers hash (sv_ring ic) d 1)"

definition is_ready :: "server_waiting \<Rightarrow> bool" where
  "is_ready w \<longleftrightarrow> w_servers w \<noteq> None \<and> w_ring w \<noteq> None \<and> w_devices w \<noteq> None \<and> w_member w \<noteq> None"

definition server_to_ic :: "'h server_state \<Rightarrow> 'h server_state" where
  "server_to_ic st =
     (case st of
        Server_Waiting w \<Rightarrow>
          (if is_ready w then
             Server_In \<lparr>sv_member = the (w_member w), sv_nodes = the (w_servers w), sv_ring = the (w_ring w),
               sv_devices = the (w_devices w), req_senders = (\<lambda>_. None), sv_charges = {}\<rparr>
           else st)
      | Server_In _ \<Rightarrow> st)"

definition server_preference :: dispersal_preference where
  "server_preference = default_preference\<lparr>dp_selector := All\<rparr>"

text \<open>\<open>DeviceServer::new\<close>: the actor, and the causal actor it creates for the table.\<close>

definition device_server_new ::
    "'u \<Rightarrow> 'u \<Rightarrow> 'u \<Rightarrow> 'u \<Rightarrow> string \<Rightarrow> 'r list \<Rightarrow>
     ('u, 'h, 'r) device_server \<times> (devices, device_mutator, 'u, 'r) causal" where
  "device_server_new v_server v_remote v_causal v_causal_intra name subrs =
     (\<lparr>sv_common = \<lparr>sv_subscribers = subrs, sv_dest = destination_new v_server v_remote name\<rparr>,
       sv_state = Server_Waiting \<lparr>w_servers = None, w_member = None, w_ring = None, w_devices = None\<rparr>\<rparr>,
      causal_new v_causal v_causal_intra (name @ ''-devices'') [] server_preference)"

definition server_pre_start :: "('u, 'h, 'r) server_effect list" where
  "server_pre_start = [Join_Cluster_Updates, Join_Device_Data]"

type_synonym ('u, 'h, 'r) server_result =
  "(('u, 'h, 'r) server_effect, ('u, 'h, 'r) device_server) outcome"

definition set_heartbeat_interval ::
    "(device \<Rightarrow> u64) \<Rightarrow> ('r \<Rightarrow> bool) \<Rightarrow> 'h \<Rightarrow> device \<Rightarrow> device_interval \<Rightarrow> ('u, 'r) server_common \<Rightarrow> 'h server_ic \<Rightarrow>
     (('u, 'h, 'r) server_effect, 'h server_ic \<times> ('u, 'r) server_common) outcome" where
  "set_heartbeat_interval hash alive new_ref d interval c ic =
     (case managers hash (sv_ring ic) d 1 of
        [] \<Rightarrow> ([], Panic)
      | manager # _ \<Rightarrow>
          (if req_senders ic d \<noteq> None \<or> member_eq manager (sv_member ic) then
             and_then ([Mutate_Devices (Put d interval)], Done ())
               (\<lambda>_. case req_senders ic d of
                  Some h \<Rightarrow> ([Monitor_Interval h interval], Done (ic, c))
                | None \<Rightarrow>
                    (case dur_double (di_interval interval) of
                       None \<Rightarrow> ([], Panic)
                     | Some _ \<Rightarrow>
                         (let ic1 = ic\<lparr>req_senders := (req_senders ic)(d \<mapsto> new_ref), sv_charges := insert d (sv_charges ic)\<rparr> in
                          case server_publish alive ic1 c of (c1, pubs) \<Rightarrow>
                            ([Spawn_Monitor new_ref d interval (actor_name (dest_name (sv_dest c))),
                              Monitor_Interval new_ref interval] @ pubs, Done (ic1, c1)))))
           else ([Forward (m_socket manager) (sv_dest c) (Set_Heartbeat_Interval d interval)], Done (ic, c))))"

definition last_identity :: "cluster_event list \<Rightarrow> member option" where
  "last_identity es =
     (if es = [] then None
      else (case last es of Joined m \<Rightarrow> Some m | Alone m \<Rightarrow> Some m | _ \<Rightarrow> None))"

definition publish_if_in :: "('r \<Rightarrow> bool) \<Rightarrow> ('u, 'h, 'r) device_server \<Rightarrow> ('u, 'h, 'r) server_result" where
  "publish_if_in alive sv =
     (case sv_state sv of
        Server_In ic \<Rightarrow> (case server_publish alive ic (sv_common sv) of (c, pubs) \<Rightarrow> (pubs, Done (sv\<lparr>sv_common := c\<rparr>)))
      | Server_Waiting _ \<Rightarrow> ([], Done sv))"

definition server_recv ::
    "(device \<Rightarrow> u64) \<Rightarrow> ('r \<Rightarrow> bool) \<Rightarrow> 'h \<Rightarrow> 'r server_msg \<Rightarrow> ('u, 'h, 'r) device_server \<Rightarrow> ('u, 'h, 'r) server_result" where
  "server_recv hash alive new_ref msg sv =
     (let c = sv_common sv in
      case msg of
        Server_Remote (Set_Heartbeat_Interval d interval) \<Rightarrow>
          (case sv_state sv of
             Server_In ic \<Rightarrow>
               and_then (set_heartbeat_interval hash alive new_ref d interval c ic)
                 (\<lambda>(ic1, c1). ([], Done (sv\<lparr>sv_common := c1, sv_state := Server_In ic1\<rparr>)))
           | Server_Waiting _ \<Rightarrow> ([], Done sv))
      | Server_Update u \<Rightarrow>
          (case sv_state sv of
             Server_In ic \<Rightarrow>
               ([], Done (sv\<lparr>sv_state := Server_In (ic\<lparr>sv_member := unwrap_or (last_identity (cu_events u)) (sv_member ic),
                 sv_ring := cu_ring u, sv_nodes := cu_nodes u\<rparr>)\<rparr>))
           | Server_Waiting w \<Rightarrow>
               publish_if_in alive (sv\<lparr>sv_state := server_to_ic (Server_Waiting
                 (w\<lparr>w_member := (case last_identity (cu_events u) of Some m \<Rightarrow> Some m | None \<Rightarrow> w_member w),
                    w_ring := Some (cu_ring u), w_servers := Some (cu_nodes u)\<rparr>))\<rparr>))
      | Device_Data devs \<Rightarrow>
          publish_if_in alive (sv\<lparr>sv_state :=
            (case sv_state sv of
               Server_Waiting w \<Rightarrow> server_to_ic (Server_Waiting (w\<lparr>w_devices := Some devs\<rparr>))
             | Server_In ic \<Rightarrow> Server_In (ic\<lparr>sv_devices := devs\<rparr>))\<rparr>)
      | Server_Cmd (Subscribe_Charges subr) \<Rightarrow>
          (case sv_state sv of
             Server_In ic \<Rightarrow> [Tell_Charges subr (Charges (sv_charges ic) (sv_devices ic))]
           | Server_Waiting _ \<Rightarrow> [],
           Done (sv\<lparr>sv_common := c\<lparr>sv_subscribers := sv_subscribers c @ [subr]\<rparr>\<rparr>))
      | Am_I_Sender d \<Rightarrow>
          (case sv_state sv of
             Server_In ic \<Rightarrow>
               (if is_device_manager hash ic d then ([], Done sv)
                else
                  (case remove_device alive d c ic of (ic1, c1, out) \<Rightarrow>
                     (out, Done (sv\<lparr>sv_common := c1, sv_state := Server_In ic1\<rparr>))))
           | Server_Waiting _ \<Rightarrow> ([], Panic))
      | Downed_Device d \<Rightarrow>
          (case sv_state sv of
             Server_In ic \<Rightarrow>
               (case remove_device alive d c ic of (ic1, c1, out) \<Rightarrow>
                  (out @ [Mutate_Devices (Remove d)], Done (sv\<lparr>sv_common := c1, sv_state := Server_In ic1\<rparr>)))
           | Server_Waiting _ \<Rightarrow> ([], Panic)))"

definition server_post_stop :: "('u, 'h, 'r) device_server \<Rightarrow> ('u, 'h, 'r) server_effect list" where
  "server_post_stop sv =
     (case sv_state sv of Server_In ic \<Rightarrow> [Stop_Monitors (ran (req_senders ic))] | Server_Waiting _ \<Rightarrow> [])"

subsection \<open>Monitors\<close>

definition spawned_by :: "('u, 'h, 'r) server_effect list \<Rightarrow> 'h set" where
  "spawned_by out = {h. \<exists>d i name. Spawn_Monitor h d i name \<in> set out}"

definition stopped_by :: "('u, 'h, 'r) server_effect list \<Rightarrow> 'h set" where
  "stopped_by out = \<Union> {S. Stop_Monitors S \<in> set out}"

text \<open>The monitors an actor owns: one for each of its charges.\<close>

definition monitors_of :: "('u, 'h, 'r) device_server \<Rightarrow> 'h set" where
  "monitors_of sv = (case sv_state sv of Server_In ic \<Rightarrow> ran (req_senders ic) | Server_Waiting _ \<Rightarrow> {})"

definition server_inv :: "('u, 'h, 'r) device_server \<Rightarrow> bool" where
  "server_inv sv \<longleftrightarrow>
     (case sv_state sv of
        Server_In ic \<Rightarrow> sv_charges ic = dom (req_senders ic) \<and> inj_on (req_senders ic) (dom (req_senders ic))
      | Server_Waiting _ \<Rightarrow> True)"

lemma server_publish_sets:
  "server_publish alive ic c = (c', out) \<Longrightarrow> spawned_by out = {} \<and> stopped_by out = {}"
  by (auto simp: server_publish_def spawned_by_def stopped_by_def)

lemma effect_sets [simp]:
  "spawned_by (xs @ ys) = spawned_by xs \<union> spawned_by ys" "stopped_by (xs @ ys) = stopped_by xs \<union> stopped_by ys"
  "spawned_by [] = {}" "stopped_by [] = {}"
  "spawned_by (x # xs) = (case x of Spawn_Monitor h _ _ _ \<Rightarrow> {h} | _ \<Rightarrow> {}) \<union> spawned_by xs"
  "stopped_by (x # xs) = (case x of Stop_Monitors S \<Rightarrow> S | _ \<Rightarrow> {}) \<union> stopped_by xs"
  by (auto simp: spawned_by_def stopped_by_def split: server_effect.splits)

text \<open>Removing a device stops exactly its monitor.\<close>

lemma remove_device_sets:
  fixes out :: "('u, 'h, 'r) server_effect list"
  assumes "remove_device alive d c ic = (ic1, c1, out)"
  shows "req_senders ic1 = (req_senders ic)(d := None)" "sv_ring ic1 = sv_ring ic" "sv_member ic1 = sv_member ic"
    "sv_charges ic = dom (req_senders ic) \<Longrightarrow> sv_charges ic1 = dom (req_senders ic1)"
    "spawned_by out = {}" "stopped_by out = (case req_senders ic d of None \<Rightarrow> {} | Some h \<Rightarrow> {h})"
proof -
  have "req_senders ic1 = (req_senders ic)(d := None) \<and> sv_ring ic1 = sv_ring ic \<and> sv_member ic1 = sv_member ic \<and>
    (sv_charges ic = dom (req_senders ic) \<longrightarrow> sv_charges ic1 = dom (req_senders ic1)) \<and>
    spawned_by out = {} \<and> stopped_by out = (case req_senders ic d of None \<Rightarrow> {} | Some h \<Rightarrow> {h})"
  proof (cases "req_senders ic d")
    case None
    with assms show ?thesis by (auto simp: remove_device_def fun_upd_idem)
  next
    case (Some h)
    let ?ic1 = "ic\<lparr>req_senders := (req_senders ic)(d := None), sv_charges := sv_charges ic - {d}\<rparr>"
    obtain c2 pubs where p: "server_publish alive ?ic1 c = (c2, pubs :: ('u, 'h, 'r) server_effect list)"
      by (cases "server_publish alive ?ic1 c")
    then have "spawned_by pubs = {}" "stopped_by pubs = {}"
      using server_publish_sets[OF p] by simp_all
    with assms Some p show ?thesis by (auto simp: remove_device_def split: if_splits)
  qed
  then show "req_senders ic1 = (req_senders ic)(d := None)" "sv_ring ic1 = sv_ring ic" "sv_member ic1 = sv_member ic"
    "sv_charges ic = dom (req_senders ic) \<Longrightarrow> sv_charges ic1 = dom (req_senders ic1)"
    "spawned_by out = {}" "stopped_by out = (case req_senders ic d of None \<Rightarrow> {} | Some h \<Rightarrow> {h})" by simp_all
qed

lemma ran_remove:
  assumes "inj_on m (dom m)"
  shows "ran (m(d := None)) = ran m - (case m d of None \<Rightarrow> {} | Some h \<Rightarrow> {h})"
proof (cases "m d")
  case None
  then show ?thesis by (simp add: fun_upd_idem)
next
  case (Some h)
  have "ran (m(d := None)) = ran m - {h}"
  proof (intro set_eqI iffI)
    fix x
    assume "x \<in> ran (m(d := None))"
    then obtain a where a: "a \<noteq> d" "m a = Some x" unfolding ran_def by (auto split: if_splits)
    have "x \<noteq> h"
    proof
      assume "x = h"
      with a(2) Some have "m a = m d" "a \<in> dom m" "d \<in> dom m" by auto
      with a(1) assms show False by (meson inj_onD)
    qed
    with a(2) show "x \<in> ran m - {h}" by (simp add: ranI)
  next
    fix x
    assume "x \<in> ran m - {h}"
    then obtain a where "m a = Some x" "x \<noteq> h" unfolding ran_def by blast
    with Some have "(m(d := None)) a = Some x" by auto
    then show "x \<in> ran (m(d := None))" by (rule ranI)
  qed
  with Some show ?thesis by simp
qed

lemma inj_on_remove: "inj_on m (dom m) \<Longrightarrow> inj_on (m(d := None)) (dom (m(d := None)))"
  by (auto simp: inj_on_def dom_def)

definition server_step_ok ::
    "'h \<Rightarrow> ('u, 'h, 'r) device_server \<Rightarrow> ('u, 'h, 'r) server_result \<Rightarrow> bool" where
  "server_step_ok new_ref sv res \<longleftrightarrow>
     (\<forall>sv' out. res = (out, Done sv') \<longrightarrow>
        server_inv sv' \<and> monitors_of sv' = (monitors_of sv \<union> spawned_by out) - stopped_by out \<and>
        spawned_by out \<subseteq> {new_ref})"

lemma remove_step:
  assumes inv: "server_inv sv" and st: "sv_state sv = Server_In ic" and rem: "remove_device alive d (sv_common sv) ic = (ic1, c1, out)"
    and extra: "spawned_by rest = {}" "stopped_by rest = {}"
  shows "server_step_ok h sv (out @ rest, Done (sv\<lparr>sv_common := c1, sv_state := Server_In ic1\<rparr>))"
proof -
  note r = remove_device_sets[OF rem]
  from inv st have i: "sv_charges ic = dom (req_senders ic)" "inj_on (req_senders ic) (dom (req_senders ic))"
    by (simp_all add: server_inv_def)
  show ?thesis
    unfolding server_step_ok_def
    using r(1) r(4)[OF i(1)] r(5,6) extra ran_remove[OF i(2), of d] inj_on_remove[OF i(2), of d] st
    by (simp add: server_inv_def monitors_of_def)
qed

lemma set_interval_step:
  assumes inv: "server_inv sv" and st: "sv_state sv = Server_In ic" and new: "new_ref \<notin> ran (req_senders ic)"
    and run: "set_heartbeat_interval hash alive new_ref d i (sv_common sv) ic = (out, Done (ic1, c1))"
  shows "server_step_ok new_ref sv (out, Done (sv\<lparr>sv_common := c1, sv_state := Server_In ic1\<rparr>))"
proof -
  from inv st have inv': "sv_charges ic = dom (req_senders ic)" "inj_on (req_senders ic) (dom (req_senders ic))"
    by (simp_all add: server_inv_def)
  obtain m ms where mgr: "managers hash (sv_ring ic) d 1 = m # ms"
    using run by (auto simp: set_heartbeat_interval_def split: list.splits)
  consider (known) h where "req_senders ic d = Some h" | (fresh) "req_senders ic d = None" "m = sv_member ic"
    | (other) "req_senders ic d = None" "m \<noteq> sv_member ic" by (cases "req_senders ic d") auto
  then show ?thesis
  proof cases
    case known
    with run mgr have "ic1 = ic" "out = [Mutate_Devices (Put d i), Monitor_Interval h i]"
      by (auto simp: set_heartbeat_interval_def)
    with inv st show ?thesis by (simp add: server_step_ok_def server_inv_def monitors_of_def)
  next
    case other
    with run mgr have "ic1 = ic" "\<exists>t e msg. out = [Forward t e msg]"
      by (auto simp: set_heartbeat_interval_def)
    with inv st show ?thesis by (auto simp: server_step_ok_def server_inv_def monitors_of_def)
  next
    case fresh
    let ?ic1 = "ic\<lparr>req_senders := (req_senders ic)(d \<mapsto> new_ref), sv_charges := insert d (sv_charges ic)\<rparr>"
    from run mgr fresh have ic1: "ic1 = ?ic1" and sets: "spawned_by out = {new_ref}" "stopped_by out = {}"
      by (auto simp: set_heartbeat_interval_def Let_def split: prod.splits option.splits dest!: server_publish_sets)
    have "inj_on ((req_senders ic)(d \<mapsto> new_ref)) (dom ((req_senders ic)(d \<mapsto> new_ref)))"
      using inv'(2) new by (auto simp: inj_on_def ran_def dom_def)
    moreover have "ran ((req_senders ic)(d \<mapsto> new_ref)) = insert new_ref (ran (req_senders ic))"
      using fresh(1) by (rule ran_map_upd)
    ultimately show ?thesis
      using sets inv'(1) st by (simp add: server_step_ok_def server_inv_def monitors_of_def ic1)
  qed
qed

lemma publish_step:
  assumes inv: "server_inv sv1" and mon: "monitors_of sv1 = monitors_of sv"
  shows "server_step_ok new_ref sv (publish_if_in alive sv1)"
proof (cases "sv_state sv1")
  case (Server_In ic)
  with inv mon show ?thesis
    by (auto simp: server_step_ok_def publish_if_in_def server_inv_def monitors_of_def split: prod.splits
        dest!: server_publish_sets)
next
  case (Server_Waiting w)
  with inv mon show ?thesis by (simp add: server_step_ok_def publish_if_in_def)
qed

lemma server_recv_step:
  assumes inv: "server_inv sv" and new: "new_ref \<notin> monitors_of sv"
  shows "server_step_ok new_ref sv (server_recv hash alive new_ref msg sv)"
proof (cases msg)
  case (Server_Remote r)
  then obtain d i where r: "msg = Server_Remote (Set_Heartbeat_Interval d i)" by (cases r) simp
  show ?thesis
  proof (cases "sv_state sv")
    case (Server_In ic)
    show ?thesis
      unfolding server_step_ok_def
    proof (intro allI impI)
      fix sv' out
      assume "server_recv hash alive new_ref msg sv = (out, Done sv')"
      then obtain ic1 c1 where "set_heartbeat_interval hash alive new_ref d i (sv_common sv) ic = (out, Done (ic1, c1))"
        "sv' = sv\<lparr>sv_common := c1, sv_state := Server_In ic1\<rparr>"
        by (auto simp: r Server_In server_recv_def Let_def and_then_Done_iff)
      with set_interval_step[OF inv Server_In _ this(1)] new Server_In
      show "server_inv sv' \<and> monitors_of sv' = (monitors_of sv \<union> spawned_by out) - stopped_by out \<and> spawned_by out \<subseteq> {new_ref}"
        by (simp add: server_step_ok_def monitors_of_def)
    qed
  next
    case (Server_Waiting w)
    with r inv show ?thesis by (simp add: server_recv_def Let_def server_step_ok_def)
  qed
next
  case (Server_Update u)
  show ?thesis
  proof (cases "sv_state sv")
    case (Server_In ic)
    with Server_Update inv show ?thesis
      by (simp add: server_recv_def Let_def server_step_ok_def server_inv_def monitors_of_def)
  next
    case (Server_Waiting w)
    have "server_step_ok new_ref sv (publish_if_in alive (sv\<lparr>sv_state := server_to_ic (Server_Waiting w')\<rparr>))" for w'
      by (rule publish_step) (simp_all add: Server_Waiting server_inv_def monitors_of_def server_to_ic_def)
    with Server_Update Server_Waiting show ?thesis by (simp add: server_recv_def Let_def)
  qed
next
  case (Device_Data devs)
  have "server_step_ok new_ref sv (publish_if_in alive (sv\<lparr>sv_state :=
      (case sv_state sv of
         Server_Waiting w \<Rightarrow> server_to_ic (Server_Waiting (w\<lparr>w_devices := Some devs\<rparr>))
       | Server_In ic \<Rightarrow> Server_In (ic\<lparr>sv_devices := devs\<rparr>))\<rparr>))"
    by (rule publish_step)
      (use inv in \<open>auto simp: server_inv_def monitors_of_def server_to_ic_def split: server_state.splits\<close>)
  with Device_Data show ?thesis by (simp add: server_recv_def Let_def)
next
  case (Server_Cmd cmd)
  with inv show ?thesis
    by (cases cmd) (auto simp: server_recv_def Let_def server_step_ok_def server_inv_def monitors_of_def split: server_state.splits)
next
  case (Am_I_Sender d)
  show ?thesis
  proof (cases "sv_state sv")
    case (Server_In ic)
    obtain ic1 c1 out where rem: "remove_device alive d (sv_common sv) ic = (ic1, c1, out :: ('a, 'b, 'c) server_effect list)"
      by (cases "remove_device alive d (sv_common sv) ic :: _ \<times> _ \<times> ('a, 'b, 'c) server_effect list")
    from remove_step[OF inv Server_In rem, of "[]" new_ref] inv Am_I_Sender Server_In rem show ?thesis
      by (cases "is_device_manager hash ic d") (simp_all add: server_recv_def Let_def server_step_ok_def)
  next
    case (Server_Waiting w)
    with Am_I_Sender show ?thesis by (simp add: server_recv_def Let_def server_step_ok_def)
  qed
next
  case (Downed_Device d)
  show ?thesis
  proof (cases "sv_state sv")
    case (Server_In ic)
    obtain ic1 c1 out where rem: "remove_device alive d (sv_common sv) ic = (ic1, c1, out :: ('a, 'b, 'c) server_effect list)"
      by (cases "remove_device alive d (sv_common sv) ic :: _ \<times> _ \<times> ('a, 'b, 'c) server_effect list")
    from remove_step[OF inv Server_In rem, of "[Mutate_Devices (Remove d)]" new_ref] Downed_Device Server_In rem show ?thesis
      by (simp add: server_recv_def Let_def)
  next
    case (Server_Waiting w)
    with Downed_Device show ?thesis by (simp add: server_recv_def Let_def server_step_ok_def)
  qed
qed

subsection \<open>Runs of the server\<close>

text \<open>
  A message that may arrive: updates carry a ring with a member, and only a monitor, which must have been
  created before, reports on its device.
\<close>

definition server_admissible :: "'h set \<Rightarrow> 'r server_msg \<Rightarrow> bool" where
  "server_admissible ever msg \<longleftrightarrow>
     (case msg of
        Server_Update u \<Rightarrow> entries (ring (cu_ring u)) \<noteq> []
      | Am_I_Sender _ \<Rightarrow> ever \<noteq> {}
      | Downed_Device _ \<Rightarrow> ever \<noteq> {}
      | _ \<Rightarrow> True)"

text \<open>The monitors that are running, and those that ever were, as long as no handler has panicked.\<close>

inductive server_reach ::
    "(device \<Rightarrow> u64) \<Rightarrow> ('r \<Rightarrow> bool) \<Rightarrow> ('u, 'h, 'r) device_server \<Rightarrow> 'h set \<Rightarrow> 'h set \<Rightarrow> bool"
  for hash :: "device \<Rightarrow> u64" and alive :: "'r \<Rightarrow> bool" where
  start: "server_reach hash alive (fst (device_server_new v1 v2 v3 v4 name subrs)) {} {}"
| recv: "server_reach hash alive sv live ever \<Longrightarrow> new_ref \<notin> live \<Longrightarrow> server_admissible ever msg \<Longrightarrow>
    server_recv hash alive new_ref msg sv = (out, Done sv') \<Longrightarrow>
    server_reach hash alive sv' ((live \<union> spawned_by out) - stopped_by out) (ever \<union> spawned_by out)"

lemma managers_ne:
  assumes "entries (ring r) \<noteq> []"
  shows "managers hash r d 1 \<noteq> []"
proof -
  have "set (unique (map entry_member (clockwise (hash d) (ring r)))) \<noteq> {}" using assms by simp
  then show ?thesis by (auto simp: managers_def simp del: set_unique)
qed

lemma managers_one: "entries (ring r) \<noteq> [] \<Longrightarrow> \<exists>m. managers hash r d 1 = [m]"
  using managers_ne[of r hash d] by (auto simp: managers_def take_Suc neq_Nil_conv)

definition rings_ok :: "('u, 'h, 'r) device_server \<Rightarrow> bool" where
  "rings_ok sv \<longleftrightarrow>
     (case sv_state sv of
        Server_In ic \<Rightarrow> entries (ring (sv_ring ic)) \<noteq> []
      | Server_Waiting w \<Rightarrow> (\<forall>r. w_ring w = Some r \<longrightarrow> entries (ring r) \<noteq> []))"

lemma set_interval_returns:
  assumes "entries (ring (sv_ring ic)) \<noteq> []"
    and "\<not> (req_senders ic d = None \<and> managers hash (sv_ring ic) d 1 = [sv_member ic] \<and> duration_max < di_interval i * 2)"
  shows "\<exists>ic1 c1 out. set_heartbeat_interval hash alive new_ref d i c ic = (out, Done (ic1, c1)) \<and> sv_ring ic1 = sv_ring ic"
  using managers_one[OF assms(1), of hash d] assms(2)
  by (auto simp: set_heartbeat_interval_def Let_def split: list.splits option.splits prod.splits)

lemma publish_if_in_Done:
  "\<exists>out sv'. publish_if_in alive sv1 = (out, Done sv') \<and> (rings_ok sv1 \<longrightarrow> rings_ok sv') \<and> spawned_by out = {} \<and>
     sv_state sv' = sv_state sv1"
proof (cases "sv_state sv1")
  case (Server_In ic)
  obtain c pubs where "server_publish alive ic (sv_common sv1) = (c, pubs)" by (cases "server_publish alive ic (sv_common sv1)")
  from this server_publish_sets[OF this] Server_In show ?thesis by (simp add: publish_if_in_def rings_ok_def)
next
  case (Server_Waiting w)
  then show ?thesis by (simp add: publish_if_in_def)
qed

text \<open>An admissible message is handled, and the server stays ready for the next one.\<close>

definition server_ready :: "('u, 'h, 'r) device_server \<Rightarrow> 'h set \<Rightarrow> bool" where
  "server_ready sv ever \<longleftrightarrow> rings_ok sv \<and> (ever \<noteq> {} \<longrightarrow> (\<exists>ic. sv_state sv = Server_In ic))"

text \<open>A request that needs a new monitor for an interval whose double is no duration.\<close>

definition overlong_request :: "(device \<Rightarrow> u64) \<Rightarrow> ('u, 'h, 'r) device_server \<Rightarrow> 'r server_msg \<Rightarrow> bool" where
  "overlong_request hash sv msg \<longleftrightarrow>
     (case msg of
        Server_Remote (Set_Heartbeat_Interval d i) \<Rightarrow>
          (case sv_state sv of
             Server_In ic \<Rightarrow>
               req_senders ic d = None \<and> managers hash (sv_ring ic) d 1 = [sv_member ic] \<and> duration_max < di_interval i * 2
           | Server_Waiting _ \<Rightarrow> False)
      | _ \<Rightarrow> False)"

lemma overlong_panics:
  assumes "overlong_request hash sv msg"
  shows "\<exists>d i. msg = Server_Remote (Set_Heartbeat_Interval d i) \<and>
    server_recv hash alive new_ref msg sv = ([Mutate_Devices (Put d i)], Panic)"
  using assms
  by (auto simp: overlong_request_def server_recv_def Let_def set_heartbeat_interval_def dur_double_def
      split: server_msg.splits server_remote_msg.splits server_state.splits)

lemma server_recv_ready:
  assumes rd: "server_ready sv ever" and adm: "server_admissible ever msg" and fits: "\<not> overlong_request hash sv msg"
  shows "\<exists>sv' out. server_recv hash alive new_ref msg sv = (out, Done sv') \<and> server_ready sv' (ever \<union> spawned_by out)"
proof (cases "sv_state sv")
  case (Server_In ic)
  from rd Server_In have ne: "entries (ring (sv_ring ic)) \<noteq> []" by (simp add: server_ready_def rings_ok_def)
  have still: ?thesis if "\<exists>sv' out. server_recv hash alive new_ref msg sv = (out, Done sv') \<and>
    (\<exists>ic'. sv_state sv' = Server_In ic' \<and> entries (ring (sv_ring ic')) \<noteq> [])"
    using that by (auto simp: server_ready_def rings_ok_def)
  show ?thesis
  proof (cases msg)
    case (Server_Remote r)
    then obtain d i where r: "msg = Server_Remote (Set_Heartbeat_Interval d i)" by (cases r) simp
    have "\<not> (req_senders ic d = None \<and> managers hash (sv_ring ic) d 1 = [sv_member ic] \<and> duration_max < di_interval i * 2)"
      using fits by (simp add: r overlong_request_def Server_In)
    from set_interval_returns[OF ne this] obtain ic1 c1 out where
      "set_heartbeat_interval hash alive new_ref d i (sv_common sv) ic = (out, Done (ic1, c1))" "sv_ring ic1 = sv_ring ic" by blast
    then show ?thesis using ne by (intro still) (simp add: r server_recv_def Let_def Server_In)
  next
    case (Server_Update u)
    then show ?thesis using adm
      by (intro still) (simp add: server_recv_def Let_def Server_In server_admissible_def)
  next
    case (Device_Data devs)
    obtain sv' out where p: "publish_if_in alive (sv\<lparr>sv_state := Server_In (ic\<lparr>sv_devices := devs\<rparr>)\<rparr>) = (out, Done sv')"
      "sv_state sv' = Server_In (ic\<lparr>sv_devices := devs\<rparr>)"
      using publish_if_in_Done[of alive "sv\<lparr>sv_state := Server_In (ic\<lparr>sv_devices := devs\<rparr>)\<rparr>"] by auto
    with p Device_Data ne show ?thesis by (intro still) (simp add: server_recv_def Let_def Server_In)
  next
    case (Server_Cmd cmd)
    then show ?thesis using ne by (cases cmd; intro still) (simp add: server_recv_def Let_def Server_In)
  next
    case (Am_I_Sender d)
    obtain ic1 c1 out where rem: "remove_device alive d (sv_common sv) ic = (ic1, c1, out)"
      by (cases "remove_device alive d (sv_common sv) ic")
    show ?thesis
    proof (cases "is_device_manager hash ic d")
      case True
      with Am_I_Sender ne show ?thesis by (intro still) (simp add: server_recv_def Let_def Server_In)
    next
      case False
      with Am_I_Sender ne rem remove_device_sets(2)[OF rem] show ?thesis
        by (intro still) (simp add: server_recv_def Let_def Server_In)
    qed
  next
    case (Downed_Device d)
    obtain ic1 c1 out where rem: "remove_device alive d (sv_common sv) ic = (ic1, c1, out)"
      by (cases "remove_device alive d (sv_common sv) ic")
    with Downed_Device ne remove_device_sets(2)[OF rem] show ?thesis
      by (intro still) (simp add: server_recv_def Let_def Server_In)
  qed
next
  case (Server_Waiting w)
  with rd have ev: "ever = {}" and w: "\<And>r. w_ring w = Some r \<Longrightarrow> entries (ring r) \<noteq> []"
    by (auto simp: server_ready_def rings_ok_def)
  have pub: ?thesis if "server_recv hash alive new_ref msg sv = publish_if_in alive sv1" "rings_ok sv1" for sv1
    using publish_if_in_Done[of alive sv1] that ev by (auto simp: server_ready_def)
  have conv: "rings_ok (sv\<lparr>sv_state := server_to_ic (Server_Waiting w')\<rparr>)"
    if "\<And>r. w_ring w' = Some r \<Longrightarrow> entries (ring r) \<noteq> []" for w'
    using that by (auto simp: rings_ok_def server_to_ic_def is_ready_def)
  show ?thesis
  proof (cases msg)
    case (Server_Update u)
    show ?thesis
      by (rule pub, simp add: Server_Update server_recv_def Let_def Server_Waiting, rule conv)
        (use adm Server_Update in \<open>simp add: server_admissible_def\<close>)
  next
    case (Device_Data devs)
    show ?thesis
      by (rule pub, simp add: Device_Data server_recv_def Let_def Server_Waiting, rule conv) (simp add: w)
  next
    case (Server_Remote r)
    then show ?thesis using rd ev by (cases r) (simp add: server_recv_def Let_def Server_Waiting)
  next
    case (Server_Cmd cmd)
    then show ?thesis using rd ev
      by (cases cmd) (simp add: server_recv_def Let_def Server_Waiting server_ready_def rings_ok_def)
  qed (use adm ev in \<open>simp_all add: server_admissible_def\<close>)
qed

lemma server_reach_inv:
  "server_reach hash alive sv live ever \<Longrightarrow> server_inv sv \<and> live = monitors_of sv \<and> server_ready sv ever"
proof (induction rule: server_reach.induct)
  case (start v1 v2 v3 v4 name subrs)
  show ?case by (simp add: device_server_new_def server_inv_def monitors_of_def server_ready_def rings_ok_def)
next
  case (recv sv live ever new_ref msg out sv')
  then have "server_step_ok new_ref sv (out, Done sv')"
    using server_recv_step[of sv new_ref hash alive msg] by simp
  moreover have "\<not> overlong_request hash sv msg"
    using overlong_panics[of hash sv msg alive new_ref] recv.hyps(4) by auto
  ultimately show ?case
    using server_recv_ready[of sv ever msg hash alive new_ref] recv by (simp add: server_step_ok_def)
qed

text \<open>
  What it means that a server accepts an interval: the interval is put into the table, the device is among
  the charges, and its monitor, a new one if there was none, is told the interval.  With a new charge the
  subscribers are told the charges.
\<close>

definition interval_accepted ::
    "'h \<Rightarrow> device \<Rightarrow> device_interval \<Rightarrow> ('u, 'h, 'r) device_server \<Rightarrow> ('u, 'h, 'r) server_result \<Rightarrow> bool" where
  "interval_accepted h d i sv res \<longleftrightarrow>
     (\<exists>ic out sv' ic' g. sv_state sv = Server_In ic \<and> res = (out, Done sv') \<and> sv_state sv' = Server_In ic' \<and>
        Mutate_Devices (Put d i) \<in> set out \<and> d \<in> sv_charges ic' \<and> req_senders ic' d = Some g \<and>
        Monitor_Interval g i \<in> set out \<and>
        (if d \<in> dom (req_senders ic) then req_senders ic' = req_senders ic
         else g = h \<and> Spawn_Monitor h d i (actor_name (dest_name (sv_dest (sv_common sv)))) \<in> set out \<and>
           (\<forall>s\<in>set (sv_subscribers (sv_common sv)). Tell_Charges s (Charges (sv_charges ic') (sv_devices ic')) \<in> set out)))"

text \<open>An interval is accepted by the manager of the device and by a server that monitors it.\<close>

lemma server_accepts:
  assumes st: "sv_state sv = Server_In ic" and mgr: "managers hash (sv_ring ic) d 1 = [m]"
    and "d \<in> dom (req_senders ic) \<or> m = sv_member ic" and inv: "server_inv sv" and fits: "di_interval i * 2 \<le> duration_max"
  shows "interval_accepted h d i sv (server_recv hash alive h (Server_Remote (Set_Heartbeat_Interval d i)) sv)"
proof (cases "req_senders ic d")
  case None
  with assms(3) have m: "m = sv_member ic" by auto
  let ?ic1 = "ic\<lparr>req_senders := (req_senders ic)(d \<mapsto> h), sv_charges := insert d (sv_charges ic)\<rparr>"
  let ?out = "[Mutate_Devices (Put d i), Spawn_Monitor h d i (actor_name (dest_name (sv_dest (sv_common sv)))), Monitor_Interval h i] @
    map (\<lambda>s. Tell_Charges s (Charges (sv_charges ?ic1) (sv_devices ?ic1))) (sv_subscribers (sv_common sv))"
  let ?sv' = "sv\<lparr>sv_common := (sv_common sv)\<lparr>sv_subscribers := filter alive (sv_subscribers (sv_common sv))\<rparr>, sv_state := Server_In ?ic1\<rparr>"
  have "server_recv hash alive h (Server_Remote (Set_Heartbeat_Interval d i)) sv = (?out, Done ?sv')"
    using st mgr m None fits by (simp add: server_recv_def set_heartbeat_interval_def server_publish_def Let_def dur_double_def)
  from this st None show ?thesis
    unfolding interval_accepted_def
    apply -
    apply (rule exI[of _ ic], rule exI[of _ ?out], rule exI[of _ ?sv'], rule exI[of _ ?ic1], rule exI[of _ h])
    apply (simp add: domIff)
    done
next
  case (Some g)
  have run: "server_recv hash alive h (Server_Remote (Set_Heartbeat_Interval d i)) sv =
      ([Mutate_Devices (Put d i), Monitor_Interval g i], Done (sv\<lparr>sv_common := sv_common sv, sv_state := Server_In ic\<rparr>))"
    using st mgr Some by (simp add: server_recv_def Let_def set_heartbeat_interval_def)
  have "d \<in> sv_charges ic" using inv st Some by (auto simp: server_inv_def)
  with run show ?thesis unfolding interval_accepted_def by (auto simp: st Some)
qed

text \<open>Asked whether it should monitor a device, a server keeps it only if it is the manager, and else stops its monitor.\<close>

lemma am_i_sender_effect:
  assumes st: "sv_state sv = Server_In ic" and run: "server_recv hash alive h (Am_I_Sender d) sv = (out, Done sv')"
  shows "\<exists>ic'. sv_state sv' = Server_In ic' \<and> sv_ring ic' = sv_ring ic \<and> sv_member ic' = sv_member ic \<and>
    req_senders ic' = (if is_device_manager hash ic d then req_senders ic else (req_senders ic)(d := None)) \<and>
    stopped_by out = (if is_device_manager hash ic d then {} else set_option (req_senders ic d))"
proof (cases "is_device_manager hash ic d")
  case True
  with assms show ?thesis by (auto simp: server_recv_def Let_def)
next
  case False
  obtain ic1 c1 out1 where rem: "remove_device alive d (sv_common sv) ic = (ic1, c1, out1)"
    by (cases "remove_device alive d (sv_common sv) ic")
  with False st run have "out1 = out" "sv_state sv' = Server_In ic1" by (auto simp: server_recv_def Let_def)
  with remove_device_sets(1-3,6)[OF rem] False show ?thesis by (auto split: option.splits)
qed

subsection \<open>Properties\<close>

text \<open>
  Property C28.  The only message that makes the server of devices panic is an overlong interval for a new
  device.  Over any run in which updates carry a ring with members and only monitors it created report to
  it, every message is handled; in particular the arms marked unreachable are, and the first manager of a
  device always exists.  The one exception is a request for a device that the server must start to monitor
  with an interval longer than half the longest duration: then it panics after it has put that interval into
  the table.  As everywhere, a datagram is taken to go out.
\<close>

theorem server_panics_only_on_overlong:
  assumes "server_reach hash alive sv live ever" and "server_admissible ever msg"
  shows "if overlong_request hash sv msg
    then \<exists>d i. msg = Server_Remote (Set_Heartbeat_Interval d i) \<and> duration_max < di_interval i * 2 \<and>
      server_recv hash alive new_ref msg sv = ([Mutate_Devices (Put d i)], Panic)
    else \<exists>out sv'. server_recv hash alive new_ref msg sv = (out, Done sv')"
proof (cases "overlong_request hash sv msg")
  case True
  from overlong_panics[OF True, of alive new_ref] obtain d i where
    p: "msg = Server_Remote (Set_Heartbeat_Interval d i)" "server_recv hash alive new_ref msg sv = ([Mutate_Devices (Put d i)], Panic)"
    by blast
  with True have "duration_max < di_interval i * 2" by (simp add: overlong_request_def split: server_state.splits)
  with True p show ?thesis by auto
next
  case False
  from server_reach_inv[OF assms(1)] have "server_ready sv ever" by blast
  from server_recv_ready[OF this assms(2) False, of alive new_ref] False show ?thesis by auto
qed


text \<open>
  Property C18.  Requests of devices are routed in at most one hop.  A server in the cluster, in a state that
  its runs reach, accepts an interval that can be doubled if it monitors the device already or is its
  manager: the interval is put into the table, the device is among the charges, its monitor is told the
  interval, and for a new device the monitor is created and the charges are published.  Otherwise it
  forwards the request, unchanged, to the manager, which is another node, and a server there with the same
  ring accepts it.
\<close>

theorem device_interval_one_hop:
  fixes sv :: "('u, 'h, 'r) device_server"
  assumes "server_reach hash alive sv live ever" and "sv_state sv = Server_In ic" and "di_interval i * 2 \<le> duration_max"
  shows "\<exists>m. managers hash (sv_ring ic) d 1 = [m] \<and>
    (if d \<in> dom (req_senders ic) \<or> m = sv_member ic
     then interval_accepted h d i sv (server_recv hash alive h (Server_Remote (Set_Heartbeat_Interval d i)) sv)
     else server_recv hash alive h (Server_Remote (Set_Heartbeat_Interval d i)) sv =
         ([Forward (m_socket m) (sv_dest (sv_common sv)) (Set_Heartbeat_Interval d i)], Done sv) \<and>
       (\<forall>(sv2 :: ('u, 'h, 'r) device_server) live2 ever2 ic2 h2.
          server_reach hash alive sv2 live2 ever2 \<and> sv_state sv2 = Server_In ic2 \<and> sv_member ic2 = m \<and> sv_ring ic2 = sv_ring ic \<longrightarrow>
          interval_accepted h2 d i sv2 (server_recv hash alive h2 (Server_Remote (Set_Heartbeat_Interval d i)) sv2)))"
proof -
  from server_reach_inv[OF assms(1)] assms(2) have ne: "entries (ring (sv_ring ic)) \<noteq> []" and inv: "server_inv sv"
    by (simp_all add: server_ready_def rings_ok_def)
  from managers_one[OF ne, of hash d] obtain m where m: "managers hash (sv_ring ic) d 1 = [m]" by blast
  show ?thesis
  proof (cases "d \<in> dom (req_senders ic) \<or> m = sv_member ic")
    case True
    from server_accepts[OF assms(2) m this inv assms(3), of h alive] True m show ?thesis by auto
  next
    case False
    then have "server_recv hash alive h (Server_Remote (Set_Heartbeat_Interval d i)) sv =
        ([Forward (m_socket m) (sv_dest (sv_common sv)) (Set_Heartbeat_Interval d i)], Done sv)"
      using assms(2) m by (cases sv) (auto simp: server_recv_def Let_def set_heartbeat_interval_def)
    moreover have "interval_accepted h2 d i sv2 (server_recv hash alive h2 (Server_Remote (Set_Heartbeat_Interval d i)) sv2)"
      if "server_reach hash alive sv2 live2 ever2" "sv_state sv2 = Server_In ic2" "sv_member ic2 = m" "sv_ring ic2 = sv_ring ic"
      for sv2 :: "('u, 'h, 'r) device_server" and live2 ever2 ic2 h2
      using server_accepts[OF that(2), of hash d m i h2 alive] server_reach_inv[OF that(1)] that m assms(3) by simp
    ultimately show ?thesis using False m by auto
  qed
qed

text \<open>
  Property C29.  A device that two servers monitor is soon monitored by one: if two servers with the same
  ring and different ids both act on the question of their monitor whether they are the sender, at most one
  of them still monitors the device, and only as the manager.  A server that is not the manager has told its
  monitor of the device, if it had one, to stop, and no other monitor; the manager has stopped none.
\<close>

theorem one_monitor_per_device:
  assumes "sv_state sv1 = Server_In ic1" and "sv_state sv2 = Server_In ic2"
    and "sv_ring ic1 = sv_ring ic2" and "m_id (sv_member ic1) \<noteq> m_id (sv_member ic2)"
    and "entries (ring (sv_ring ic1)) \<noteq> []"
    and "server_recv hash alive h1 (Am_I_Sender d) sv1 = (out1, Done sv1')"
    and "server_recv hash alive h2 (Am_I_Sender d) sv2 = (out2, Done sv2')"
  shows "\<exists>ic1' ic2' m. sv_state sv1' = Server_In ic1' \<and> sv_state sv2' = Server_In ic2' \<and>
    managers hash (sv_ring ic1) d 1 = [m] \<and>
    (d \<in> dom (req_senders ic1') \<longleftrightarrow> d \<in> dom (req_senders ic1) \<and> m_id (sv_member ic1) = m_id m) \<and>
    (d \<in> dom (req_senders ic2') \<longleftrightarrow> d \<in> dom (req_senders ic2) \<and> m_id (sv_member ic2) = m_id m) \<and>
    \<not> (d \<in> dom (req_senders ic1') \<and> d \<in> dom (req_senders ic2')) \<and>
    stopped_by out1 = (if m_id (sv_member ic1) = m_id m then {} else set_option (req_senders ic1 d)) \<and>
    stopped_by out2 = (if m_id (sv_member ic2) = m_id m then {} else set_option (req_senders ic2 d))"
proof -
  from managers_one[OF assms(5), of hash d] obtain m where m: "managers hash (sv_ring ic1) d 1 = [m]" by blast
  from am_i_sender_effect[OF assms(1,6)] obtain ic1' where r1: "sv_state sv1' = Server_In ic1'"
    "req_senders ic1' = (if is_device_manager hash ic1 d then req_senders ic1 else (req_senders ic1)(d := None))"
    "stopped_by out1 = (if is_device_manager hash ic1 d then {} else set_option (req_senders ic1 d))" by blast
  from am_i_sender_effect[OF assms(2,7)] obtain ic2' where r2: "sv_state sv2' = Server_In ic2'"
    "req_senders ic2' = (if is_device_manager hash ic2 d then req_senders ic2 else (req_senders ic2)(d := None))"
    "stopped_by out2 = (if is_device_manager hash ic2 d then {} else set_option (req_senders ic2 d))" by blast
  have "is_device_manager hash ic1 d = (m_id m = m_id (sv_member ic1))"
    "is_device_manager hash ic2 d = (m_id m = m_id (sv_member ic2))"
    using m assms(3) by (simp_all add: is_device_manager_def)
  with r1 r2 m assms(4) show ?thesis by auto
qed

subsection \<open>Instances\<close>

text \<open>
  Servers in the cluster of the sample ring, where every device hashes to the position of the member with
  id 1, which is thus the manager of all of them.
\<close>

definition sample_ic :: "nat \<Rightarrow> (device \<Rightarrow> nat option) \<Rightarrow> nat server_ic" where
  "sample_ic k senders = \<lparr>sv_member = sample_member k 1, sv_nodes = {}, sv_ring = sample_ring 2,
     sv_devices = devices_minimum, req_senders = senders, sv_charges = dom senders\<rparr>"

definition sample_server :: "nat server_ic \<Rightarrow> (nat, nat, nat) device_server" where
  "sample_server ic = \<lparr>sv_common = \<lparr>sv_subscribers = [], sv_dest = destination_new 0 1 ''devices''\<rparr>, sv_state = Server_In ic\<rparr>"

lemma sample_server_managers: "managers (\<lambda>_. 1) (sample_ring 2) d 1 = [sample_member 1 1]"
  by (simp add: managers_def clockwise_def range_from_def range_to_def sample_entries unique_def take_Suc)

lemma sample_ic_sel [simp]:
  "sv_ring (sample_ic k s) = sample_ring 2" "sv_member (sample_ic k s) = sample_member k 1" "req_senders (sample_ic k s) = s"
  "sv_charges (sample_ic k s) = dom s" "sv_devices (sample_ic k s) = devices_minimum" "sv_nodes (sample_ic k s) = {}"
  "sv_state (sample_server ic) = Server_In ic"
  by (simp_all add: sample_ic_def sample_server_def)

lemma sample_interval:
  "server_recv (\<lambda>_. 1) (\<lambda>_. True) 7 (Server_Remote (Set_Heartbeat_Interval sample_device (Device_Interval 1 5)))
     (sample_server (sample_ic 1 (\<lambda>_. None))) =
   ([Mutate_Devices (Put sample_device (Device_Interval 1 5)), Spawn_Monitor 7 sample_device (Device_Interval 1 5) ''devices'',
     Monitor_Interval 7 (Device_Interval 1 5)], Done (sample_server (sample_ic 1 [sample_device \<mapsto> 7])))"
  unfolding server_recv_def Let_def set_heartbeat_interval_def server_publish_def sample_server_def sample_ic_def
  by (simp add: sample_server_managers[simplified] destination_new_def dur_double_def duration_max_def)

lemma sample_server_joined:
  "server_reach (\<lambda>_. 1) (\<lambda>_. True) (sample_server (sample_ic 1 (\<lambda>_. None))) {} {}"
proof -
  let ?w = "\<lparr>w_servers = None, w_member = None, w_ring = None, w_devices = None\<rparr>"
  let ?u = "\<lparr>cu_events = [Joined (sample_member 1 1)], cu_nodes = {}, cu_ring = sample_ring 2\<rparr>"
  let ?s0 = "fst (device_server_new 0 1 2 3 ''devices'' []) :: (nat, nat, nat) device_server"
  let ?s1 = "?s0\<lparr>sv_state := Server_Waiting (?w\<lparr>w_member := Some (sample_member 1 1), w_ring := Some (sample_ring 2), w_servers := Some {}\<rparr>)\<rparr>"
  have r0: "server_reach (\<lambda>_. 1) (\<lambda>_. True) ?s0 {} {}" by (rule server_reach.start)
  have s1: "server_recv (\<lambda>_. 1) (\<lambda>_. True) 0 (Server_Update ?u) ?s0 = ([], Done ?s1)"
    by (simp add: server_recv_def Let_def device_server_new_def last_identity_def server_to_ic_def is_ready_def publish_if_in_def)
  have adm: "server_admissible {} (Server_Update ?u)"
    by (simp add: server_admissible_def sample_entries)
  from server_reach.recv[OF r0 _ adm s1] have r1: "server_reach (\<lambda>_. 1) (\<lambda>_. True) ?s1 {} {}" by simp
  have s2: "server_recv (\<lambda>_. 1) (\<lambda>_. True) 0 (Device_Data devices_minimum) ?s1 = ([], Done (sample_server (sample_ic 1 (\<lambda>_. None))))"
    by (simp add: server_recv_def Let_def device_server_new_def server_to_ic_def is_ready_def publish_if_in_def
        server_publish_def sample_server_def sample_ic_def)
  have "server_admissible {} (Device_Data devices_minimum :: nat server_msg)" by (simp add: server_admissible_def)
  from server_reach.recv[OF r1 _ this s2] show ?thesis by simp
qed

lemma sample_server_reach:
  "server_reach (\<lambda>_. 1) (\<lambda>_. True) (sample_server (sample_ic 1 [sample_device \<mapsto> 7])) {7} {7}"
proof -
  have "server_admissible {} (Server_Remote (Set_Heartbeat_Interval sample_device (Device_Interval 1 5)) :: nat server_msg)"
    by (simp add: server_admissible_def)
  from server_reach.recv[OF sample_server_joined _ this sample_interval] show ?thesis by simp
qed

text \<open>One remote message with the longest duration, for a device the server does not know, is enough.\<close>

theorem server_panics_only_on_overlong_witness:
  "(\<exists>out sv'. server_recv (\<lambda>_. 1) (\<lambda>_. True) 8 (Downed_Device sample_device) (sample_server (sample_ic 1 [sample_device \<mapsto> 7])) =
      (out, Done sv')) \<and>
   snd (server_recv (\<lambda>_. 1) (\<lambda>_. True) 8 (Server_Remote (Set_Heartbeat_Interval sample_device (Device_Interval 1 duration_max)))
      (sample_server (sample_ic 1 (\<lambda>_. None)))) = Panic"
proof
  show "\<exists>out sv'. server_recv (\<lambda>_. 1) (\<lambda>_. True) 8 (Downed_Device sample_device) (sample_server (sample_ic 1 [sample_device \<mapsto> 7])) =
      (out, Done sv')"
    using server_panics_only_on_overlong[OF sample_server_reach, of "Downed_Device sample_device" 8]
    by (simp add: server_admissible_def overlong_request_def)
  have "overlong_request (\<lambda>_. 1) (sample_server (sample_ic 1 (\<lambda>_. None)))
      (Server_Remote (Set_Heartbeat_Interval sample_device (Device_Interval 1 duration_max)))"
    by (simp add: overlong_request_def sample_server_managers[simplified] duration_max_def)
  then show "snd (server_recv (\<lambda>_. 1) (\<lambda>_. True) 8 (Server_Remote (Set_Heartbeat_Interval sample_device (Device_Interval 1 duration_max)))
      (sample_server (sample_ic 1 (\<lambda>_. None)))) = Panic"
    using server_panics_only_on_overlong[OF sample_server_joined,
        of "Server_Remote (Set_Heartbeat_Interval sample_device (Device_Interval 1 duration_max))" 8]
    by (auto simp: server_admissible_def)
qed


theorem device_interval_one_hop_witness:
  "interval_accepted 7 sample_device (Device_Interval 1 5) (sample_server (sample_ic 1 (\<lambda>_. None)))
     (server_recv (\<lambda>_. 1) (\<lambda>_. True) 7 (Server_Remote (Set_Heartbeat_Interval sample_device (Device_Interval 1 5)))
        (sample_server (sample_ic 1 (\<lambda>_. None))))"
  using device_interval_one_hop[OF sample_server_joined, of "sample_ic 1 (\<lambda>_. None)" "Device_Interval 1 5" sample_device 7]
    sample_server_managers[of sample_device]
  by (auto simp: duration_max_def simp del: One_nat_def)

theorem one_monitor_per_device_witness:
  "\<exists>sv1' sv2' out1 out2 ic1' ic2'.
     server_recv (\<lambda>_. 1) (\<lambda>_. True) 0 (Am_I_Sender sample_device) (sample_server (sample_ic 1 [sample_device \<mapsto> 7])) = (out1, Done sv1') \<and>
     server_recv (\<lambda>_. 1) (\<lambda>_. True) 0 (Am_I_Sender sample_device) (sample_server (sample_ic 2 [sample_device \<mapsto> 8])) = (out2, Done sv2') \<and>
     sv_state sv1' = Server_In ic1' \<and> sv_state sv2' = Server_In ic2' \<and>
     sample_device \<in> dom (req_senders ic1') \<and> sample_device \<notin> dom (req_senders ic2') \<and> stopped_by out1 = {} \<and> stopped_by out2 = {8}"
proof -
  let ?s1 = "sample_server (sample_ic 1 [sample_device \<mapsto> 7])" and ?s2 = "sample_server (sample_ic 2 [sample_device \<mapsto> 8])"
  have ne: "entries (ring (sv_ring (sample_ic 1 [sample_device \<mapsto> 7]))) \<noteq> []" by (simp add: sample_entries)
  have ids: "m_id (sample_member 1 1) \<noteq> m_id (sample_member 2 1)" by (simp add: sample_member_def)
  obtain sv1' out1 where r1: "server_recv (\<lambda>_. 1) (\<lambda>_. True) 0 (Am_I_Sender sample_device) ?s1 = (out1, Done sv1')"
    using server_recv_ready[of ?s1 "{7}" "Am_I_Sender sample_device" "\<lambda>_. 1" "\<lambda>_. True" 0]
    by (auto simp: server_ready_def rings_ok_def server_admissible_def sample_entries overlong_request_def)
  obtain sv2' out2 where r2: "server_recv (\<lambda>_. 1) (\<lambda>_. True) 0 (Am_I_Sender sample_device) ?s2 = (out2, Done sv2')"
    using server_recv_ready[of ?s2 "{7}" "Am_I_Sender sample_device" "\<lambda>_. 1" "\<lambda>_. True" 0]
    by (auto simp: server_ready_def rings_ok_def server_admissible_def sample_entries overlong_request_def)
  from one_monitor_per_device[OF _ _ _ _ ne r1 r2] ids sample_server_managers[of sample_device] r1 r2 show ?thesis
    by (auto simp del: One_nat_def)
qed

end
