(* ===== verification/Interface_Macro.thy ===== *)
theory Interface_Macro
  imports Packets
begin

text \<open>
  The derive macro \<open>AurumInterface\<close> (aurum_actors_macros/src/aurum_interface/mod.rs) and the code it
  generates.  The macro is a function from the syntax of an enum, as the crate syn presents it, to the parts
  of the generated implementation or a compile error; \<open>None\<close> is a panic of the macro.  Types are values of
  \<open>'t\<close>, which the macro never inspects.  The generated functions are modelled on those parts, with the
  constants \<open>Case::VARIANT\<close> as a function from types to the unified type.
\<close>

subsection \<open>Syntax\<close>

text \<open>
  The tokens of an attribute after its path: none; a parenthesis, with the expressions in it if they are a
  comma-separated list, and whether tokens follow it; or something else.
\<close>

datatype arg_expr = Ident_Path string | Long_Path | Other_Expr

datatype attr_tokens = No_Tokens | Parenthesised "arg_expr list option" bool | Unparenthesised

datatype attribute = Attribute (attr_path: string) (attr_rest: attr_tokens)

datatype 't input_fields = Named "(string \<times> 't) list" | Unnamed "'t list" | Unit_Fields

datatype 't input_variant = Input_Variant (iv_ident: string) (iv_attrs: "attribute list") (iv_fields: "'t input_fields")

datatype generic_param = Type_Param string | Lifetime_Param string | Const_Param string

datatype 't input_data = Enum_Data "'t input_variant list" | Struct_Data | Union_Data

record 't derive_input =
  di_ident :: string
  di_generics :: "generic_param list"
  di_attrs :: "attribute list"
  di_data :: "'t input_data"

datatype macro_error =
  Lifetime_Parameter | Const_Parameter | Not_An_Enum | Not_One_Field | Many_Annotations |
  No_Parentheses | Syntax_Error | Long_Flag | Duplicate_Flag | Unknown_Flag string | Not_A_Flag

subsection \<open>Annotations\<close>

datatype aurum_properties = Aurum_Properties (prop_local: bool)

definition default_properties :: aurum_properties where
  "default_properties = Aurum_Properties False"

fun collect_flags :: "bool option \<Rightarrow> arg_expr list \<Rightarrow> macro_error + bool option" where
  "collect_flags loc [] = Inr loc"
| "collect_flags loc (Ident_Path s # args) =
     (if s = ''local'' then (if loc \<noteq> None then Inl Duplicate_Flag else collect_flags (Some True) args)
      else Inl (Unknown_Flag s))"
| "collect_flags loc (Long_Path # args) = Inl Long_Flag"
| "collect_flags loc (Other_Expr # args) = Inl Not_A_Flag"

definition properties_parse :: "attr_tokens \<Rightarrow> macro_error + aurum_properties" where
  "properties_parse tokens =
     (case tokens of
        No_Tokens \<Rightarrow> Inr default_properties
      | Unparenthesised \<Rightarrow> Inl No_Parentheses
      | Parenthesised None _ \<Rightarrow> Inl Syntax_Error
      | Parenthesised (Some args) _ \<Rightarrow>
          (case collect_flags None args of
             Inl e \<Rightarrow> Inl e
           | Inr loc \<Rightarrow> Inr (Aurum_Properties (unwrap_or loc (prop_local default_properties)))))"

text \<open>\<open>syn::parse\<close> also refuses tokens that the parser has left.\<close>

definition syn_parse_properties :: "attr_tokens \<Rightarrow> macro_error + aurum_properties" where
  "syn_parse_properties tokens =
     (case properties_parse tokens of
        Inl e \<Rightarrow> Inl e
      | Inr p \<Rightarrow> (case tokens of Parenthesised _ True \<Rightarrow> Inl Syntax_Error | _ \<Rightarrow> Inr p))"

definition properties_get :: "attribute list \<Rightarrow> macro_error + aurum_properties option" where
  "properties_get attrs =
     (case filter (\<lambda>a. attr_path a = ''aurum'') attrs of
        [] \<Rightarrow> Inr None
      | [a] \<Rightarrow> map_sum id Some (syn_parse_properties (attr_rest a))
      | _ \<Rightarrow> Inl Many_Annotations)"

subsection \<open>Derivation\<close>

record 't aurum_variant =
  variant_name :: string
  field_types :: "'t list"
  field_names :: "string list option"
  props :: "aurum_properties option"

text \<open>Types and names of the fields; the names are there if every field has one, also if there is none.\<close>

fun unzip_fields :: "'t input_fields \<Rightarrow> 't list \<times> string list option" where
  "unzip_fields (Named fs) = (map snd fs, Some (map fst fs))"
| "unzip_fields (Unnamed ts) = (ts, if ts = [] then Some [] else None)"
| "unzip_fields Unit_Fields = ([], Some [])"

definition variant_get :: "'t input_variant \<Rightarrow> macro_error + 't aurum_variant" where
  "variant_get v =
     (case properties_get (iv_attrs v) of
        Inl e \<Rightarrow> Inl e
      | Inr ps \<Rightarrow>
          (case unzip_fields (iv_fields v) of
             (types, names) \<Rightarrow>
               (if length types \<noteq> 1 \<and> ps \<noteq> None then Inl Not_One_Field
                else Inr \<lparr>variant_name = iv_ident v, field_types = types, field_names = names, props = ps\<rparr>)))"

text \<open>The results in order, or the first error.\<close>

fun collect_results :: "('a \<Rightarrow> 'e + 'b) \<Rightarrow> 'a list \<Rightarrow> 'e + 'b list" where
  "collect_results f [] = Inr []"
| "collect_results f (x # xs) =
     (case f x of Inl e \<Rightarrow> Inl e | Inr y \<Rightarrow> map_sum id (Cons y) (collect_results f xs))"

fun generic_id :: "generic_param \<Rightarrow> macro_error + string" where
  "generic_id (Type_Param s) = Inr s"
| "generic_id (Lifetime_Param _) = Inl Lifetime_Parameter"
| "generic_id (Const_Param _) = Inl Const_Parameter"

record 't root_impl =
  type_id :: string
  generic_ids :: "string list"
  type_attr :: aurum_properties
  root_variants :: "'t aurum_variant list"

definition derive :: "'t derive_input \<Rightarrow> macro_error + 't root_impl" where
  "derive ast =
     (case collect_results generic_id (di_generics ast) of
        Inl e \<Rightarrow> Inl e
      | Inr ids \<Rightarrow>
          (case di_data ast of
             Enum_Data vs \<Rightarrow>
               (case collect_results variant_get vs of
                  Inl e \<Rightarrow> Inl e
                | Inr variants \<Rightarrow>
                    (case properties_get (di_attrs ast) of
                       Inl e \<Rightarrow> Inl e
                     | Inr attr \<Rightarrow>
                         Inr \<lparr>type_id = di_ident ast, generic_ids = ids,
                           type_attr = unwrap_or attr default_properties, root_variants = variants\<rparr>))
           | _ \<Rightarrow> Inl Not_An_Enum))"

subsection \<open>Expansion\<close>

text \<open>
  The parts of the generated code: the \<open>From\<close> implementations (variant, name of its field if it has one,
  type), the types whose \<open>VARIANT\<close> the generated functions compare with, and the types in the bound of
  \<open>__Unified\<close>.
\<close>

record 't interface_code =
  from_impls :: "(string \<times> string option \<times> 't) list"
  interfaces :: "'t list"
  bounds :: "'t list"

definition first_type :: "'t aurum_variant \<Rightarrow> 't option" where
  "first_type v = (case field_types v of [] \<Rightarrow> None | t # _ \<Rightarrow> Some t)"

definition from_impl :: "'t aurum_variant \<Rightarrow> (string \<times> string option \<times> 't) option" where
  "from_impl v =
     (case first_type v of
        None \<Rightarrow> None
      | Some t \<Rightarrow>
          (case field_names v of
             None \<Rightarrow> Some (variant_name v, None, t)
           | Some [] \<Rightarrow> None
           | Some (n # _) \<Rightarrow> Some (variant_name v, Some n, t)))"

definition expand :: "'t \<Rightarrow> 't root_impl \<Rightarrow> 't interface_code option" where
  "expand self root =
     (case those (map from_impl (filter (\<lambda>v. props v \<noteq> None) (root_variants root))) of
        None \<Rightarrow> None
      | Some froms \<Rightarrow>
          (case those (map first_type
              (filter (\<lambda>v. opt_filter (\<lambda>p. \<not> prop_local p) (props v) \<noteq> None) (root_variants root))) of
             None \<Rightarrow> None
           | Some non_locals \<Rightarrow>
               Some \<lparr>from_impls = froms,
                 interfaces = non_locals @ (if \<not> prop_local (type_attr root) then [self] else []),
                 bounds = non_locals @ [self]\<rparr>))"

text \<open>The macro; \<open>ty\<close> is the type an identifier and its generic arguments denote.\<close>

definition aurum_interface ::
    "(string \<Rightarrow> string list \<Rightarrow> 't) \<Rightarrow> 't derive_input \<Rightarrow> (macro_error + 't interface_code) option" where
  "aurum_interface ty ast =
     (case derive ast of
        Inl e \<Rightarrow> Some (Inl e)
      | Inr root \<Rightarrow> map_option Inr (expand (ty (type_id root) (generic_ids root)) root))"

subsection \<open>The generated functions\<close>

definition generated_has_interface :: "('t \<Rightarrow> 'u) \<Rightarrow> 't interface_code \<Rightarrow> 'u \<Rightarrow> bool" where
  "generated_has_interface variant code interface = list_ex (\<lambda>t. variant t = interface) (interfaces code)"

text \<open>\<open>deser t\<close> is \<open>deserialize_msg\<close> at the interface \<open>t\<close>; the list is the sequence of generated tests.\<close>

fun try_interfaces ::
    "('t \<Rightarrow> 'u \<Rightarrow> interpretations \<Rightarrow> u8 list \<Rightarrow> 'u deserialize_error + 's local_actor_msg) \<Rightarrow> ('t \<Rightarrow> 'u) \<Rightarrow> 't \<Rightarrow>
     't list \<Rightarrow> 'u \<Rightarrow> interpretations \<Rightarrow> u8 list \<Rightarrow> 'u deserialize_error + 's local_actor_msg" where
  "try_interfaces deser variant self [] interface i bytes = Inl (Incompatible_Interface interface (variant self))"
| "try_interfaces deser variant self (t # ts) interface i bytes =
     (if variant t = interface then deser t interface i bytes
      else try_interfaces deser variant self ts interface i bytes)"

definition generated_deserialize_as ::
    "('t \<Rightarrow> 'u \<Rightarrow> interpretations \<Rightarrow> u8 list \<Rightarrow> 'u deserialize_error + 's local_actor_msg) \<Rightarrow> ('t \<Rightarrow> 'u) \<Rightarrow> 't \<Rightarrow>
     't interface_code \<Rightarrow> 'u \<Rightarrow> interpretations \<Rightarrow> u8 list \<Rightarrow> 'u deserialize_error + 's local_actor_msg" where
  "generated_deserialize_as deser variant self code = try_interfaces deser variant self (interfaces code)"

text \<open>
  \<open>From<t>\<close> of the enum: the generated conversions, and the reflexive one of the standard library.
  \<open>build\<close> is the construction of a variant with one field.
\<close>

definition generated_from :: "(string \<Rightarrow> string option \<Rightarrow> 'v \<Rightarrow> 'v) \<Rightarrow> 't \<Rightarrow> 't interface_code \<Rightarrow> 't \<Rightarrow> 'v \<Rightarrow> 'v option" where
  "generated_from build self code t item =
     (if t = self then Some item
      else (case filter (\<lambda>(_, _, t'). t' = t) (from_impls code) of
              [] \<Rightarrow> None
            | (variant, field, _) # _ \<Rightarrow> Some (build variant field item)))"

subsection \<open>What is accepted\<close>

lemma collect_flags_iff:
  "collect_flags loc args = Inr r \<longleftrightarrow>
     args = [] \<and> r = loc \<or> args = [Ident_Path ''local''] \<and> loc = None \<and> r = Some True"
proof (induction loc args rule: collect_flags.induct)
  case (2 loc s args)
  then show ?case by (cases args) auto
qed auto

lemma syn_parse_properties_iff:
  "syn_parse_properties tokens = Inr p \<longleftrightarrow>
     (tokens = No_Tokens \<or> tokens = Parenthesised (Some []) False) \<and> \<not> prop_local p \<or>
     tokens = Parenthesised (Some [Ident_Path ''local'']) False \<and> prop_local p"
proof (cases tokens)
  case No_Tokens
  then show ?thesis
    by (cases p) (auto simp: syn_parse_properties_def properties_parse_def default_properties_def)
next
  case (Parenthesised es more)
  show ?thesis
  proof (cases es)
    case None
    then show ?thesis by (simp add: Parenthesised syn_parse_properties_def properties_parse_def)
  next
    case (Some args)
    consider (err) e where "collect_flags None args = Inl e" | (ok) r where "collect_flags None args = Inr r"
      by (cases "collect_flags None args")
    then show ?thesis
    proof cases
      case err
      then have "args \<noteq> []" "args \<noteq> [Ident_Path ''local'']" by auto
      with err show ?thesis by (simp add: Parenthesised Some syn_parse_properties_def properties_parse_def)
    next
      case ok
      then have "args = [] \<and> r = None \<or> args = [Ident_Path ''local''] \<and> r = Some True"
        by (simp add: collect_flags_iff)
      then show ?thesis
        by (cases p; cases more) (auto simp: Parenthesised Some syn_parse_properties_def properties_parse_def default_properties_def)
    qed
  qed
next
  case Unparenthesised
  then show ?thesis by (simp add: syn_parse_properties_def properties_parse_def)
qed

text \<open>An item is annotated if it has an \<open>aurum\<close> attribute; the annotation may make it local.\<close>

definition annotated :: "attribute list \<Rightarrow> bool" where
  "annotated attrs \<longleftrightarrow> (\<exists>a\<in>set attrs. attr_path a = ''aurum'')"

definition annotated_local :: "attribute list \<Rightarrow> bool" where
  "annotated_local attrs \<longleftrightarrow>
     (\<exists>a\<in>set attrs. attr_path a = ''aurum'' \<and> attr_rest a = Parenthesised (Some [Ident_Path ''local'']) False)"

lemma properties_get_iff:
  assumes "properties_get attrs = Inr ps"
  shows "annotated attrs \<longleftrightarrow> ps \<noteq> None" and "annotated_local attrs \<longleftrightarrow> (\<exists>p. ps = Some p \<and> prop_local p)"
proof -
  have "(annotated attrs \<longleftrightarrow> ps \<noteq> None) \<and> (annotated_local attrs \<longleftrightarrow> (\<exists>p. ps = Some p \<and> prop_local p))"
  proof (cases "filter (\<lambda>a. attr_path a = ''aurum'') attrs")
    case Nil
    then have "\<forall>a\<in>set attrs. attr_path a \<noteq> ''aurum''" by (simp add: filter_empty_conv)
    with Nil assms show ?thesis by (auto simp: properties_get_def annotated_def annotated_local_def)
  next
    case (Cons a rest)
    with assms have rest: "rest = []" by (cases rest) (auto simp: properties_get_def)
    from Cons rest assms obtain p where p: "syn_parse_properties (attr_rest a) = Inr p" "ps = Some p"
      by (cases "syn_parse_properties (attr_rest a)") (auto simp: properties_get_def)
    have mem: "b \<in> set attrs \<and> attr_path b = ''aurum'' \<longleftrightarrow> b = a" for b
      using arg_cong[OF Cons, of set] rest by auto
    then have mem1: "a \<in> set attrs" "attr_path a = ''aurum''" and
      mem2: "\<And>b. b \<in> set attrs \<Longrightarrow> attr_path b = ''aurum'' \<Longrightarrow> b = a" by blast+
    from mem1 have "annotated attrs" unfolding annotated_def by blast
    moreover have "annotated_local attrs \<longleftrightarrow> attr_rest a = Parenthesised (Some [Ident_Path ''local'']) False"
      unfolding annotated_local_def using mem1 mem2 by metis
    ultimately show ?thesis using p by (auto simp: syn_parse_properties_iff)
  qed
  then show "annotated attrs \<longleftrightarrow> ps \<noteq> None" "annotated_local attrs \<longleftrightarrow> (\<exists>p. ps = Some p \<and> prop_local p)" by blast+
qed

lemma collect_results_Inr:
  "collect_results f xs = Inr ys \<longleftrightarrow> list_all2 (\<lambda>x y. f x = Inr y) xs ys"
proof (induction xs arbitrary: ys)
  case Nil
  then show ?case by auto
next
  case (Cons x xs)
  show ?case
  proof (cases "f x")
    case (Inl e)
    then show ?thesis by (auto simp: list_all2_Cons1)
  next
    case (Inr y)
    have "map_sum id (Cons y) (collect_results f xs) = Inr ys \<longleftrightarrow> (\<exists>zs. collect_results f xs = Inr zs \<and> ys = y # zs)"
      by (cases "collect_results f xs") auto
    with Inr Cons.IH show ?thesis by (auto simp: list_all2_Cons1)
  qed
qed

text \<open>A derived variant that is annotated has one field, with a name or without.\<close>

lemma variant_get_ok:
  assumes "variant_get v = Inr w"
  shows "annotated (iv_attrs v) \<longleftrightarrow> props w \<noteq> None"
    and "annotated_local (iv_attrs v) \<longleftrightarrow> (\<exists>p. props w = Some p \<and> prop_local p)"
    and "field_types w = fst (unzip_fields (iv_fields v))" and "variant_name w = iv_ident v"
    and "props w \<noteq> None \<Longrightarrow> (\<exists>t. field_types w = [t] \<and> (field_names w = None \<or> (\<exists>n. field_names w = Some [n])))"
proof -
  from assms obtain ps where ps: "properties_get (iv_attrs v) = Inr ps" "props w = ps"
    and f: "field_types w = fst (unzip_fields (iv_fields v))" "variant_name w = iv_ident v"
      "field_names w = snd (unzip_fields (iv_fields v))" "length (fst (unzip_fields (iv_fields v))) = 1 \<or> ps = None"
    by (auto simp: variant_get_def split: sum.splits prod.splits if_splits)
  show "annotated (iv_attrs v) \<longleftrightarrow> props w \<noteq> None"
    "annotated_local (iv_attrs v) \<longleftrightarrow> (\<exists>p. props w = Some p \<and> prop_local p)"
    using properties_get_iff[OF ps(1)] ps(2) by simp_all
  show "field_types w = fst (unzip_fields (iv_fields v))" "variant_name w = iv_ident v" by (fact f)+
  assume "props w \<noteq> None"
  with ps(2) f(4) have "length (fst (unzip_fields (iv_fields v))) = 1" by auto
  with f show "\<exists>t. field_types w = [t] \<and> (field_names w = None \<or> (\<exists>n. field_names w = Some [n]))"
    by (cases "iv_fields v") (auto simp: length_Suc_conv)
qed

lemma those_map: "(\<And>x. x \<in> set xs \<Longrightarrow> f x = Some (g x)) \<Longrightarrow> those (map f xs) = Some (map g xs)"
  by (induction xs) auto

lemma derive_ok:
  assumes "derive ast = Inr root"
  obtains vs attr where "di_data ast = Enum_Data vs" "list_all2 (\<lambda>v w. variant_get v = Inr w) vs (root_variants root)"
    "properties_get (di_attrs ast) = Inr attr" "type_attr root = unwrap_or attr default_properties"
    "type_id root = di_ident ast" "map Type_Param (generic_ids root) = di_generics ast"
proof -
  have ids: "list_all2 (\<lambda>g s. generic_id g = Inr s) gs ss \<Longrightarrow> map Type_Param ss = gs" for gs ss
  proof (induction gs ss rule: list_all2_induct)
    case (Cons g gs s ss)
    then show ?case by (cases g) auto
  qed simp
  from assms that ids show thesis
    by (auto simp: derive_def collect_results_Inr split: sum.splits input_data.splits)
qed

lemma annotated_single:
  "list_all2 (\<lambda>v w. variant_get v = Inr w) vs ws \<Longrightarrow> \<forall>w\<in>set ws. props w \<noteq> None \<longrightarrow>
     (\<exists>t. field_types w = [t] \<and> (field_names w = None \<or> (\<exists>n. field_names w = Some [n])))"
proof (induction vs ws rule: list_all2_induct)
  case (Cons v vs w ws)
  with variant_get_ok(5)[OF Cons(1)] show ?case by (simp only: list.set ball_simps) blast
qed simp

text \<open>Which part of the generated code a variant contributes to.\<close>

lemma expand_ok:
  assumes "\<forall>v\<in>set (root_variants root). props v \<noteq> None \<longrightarrow>
    (\<exists>t. field_types v = [t] \<and> (field_names v = None \<or> (\<exists>n. field_names v = Some [n])))"
  shows "\<exists>code. expand self root = Some code \<and>
    map (\<lambda>f. (fst f, [snd (snd f)])) (from_impls code) =
      map (\<lambda>v. (variant_name v, field_types v)) (filter (\<lambda>v. props v \<noteq> None) (root_variants root)) \<and>
    interfaces code = concat (map field_types (filter (\<lambda>v. opt_filter (\<lambda>p. \<not> prop_local p) (props v) \<noteq> None) (root_variants root))) @
      (if prop_local (type_attr root) then [] else [self]) \<and>
    set (interfaces code) \<subseteq> set (bounds code) \<and> self \<in> set (bounds code)"
proof -
  let ?g = "\<lambda>v. (variant_name v, map_option hd (field_names v), hd (field_types v))"
  have f: "from_impl v = Some (?g v) \<and> first_type v = Some (hd (field_types v)) \<and> field_types v = [hd (field_types v)]"
    if "v \<in> set (root_variants root)" "props v \<noteq> None" for v
  proof -
    from assms that obtain t where "field_types v = [t]" "field_names v = None \<or> (\<exists>n. field_names v = Some [n])" by blast
    then show ?thesis by (auto simp: from_impl_def first_type_def)
  qed
  let ?a = "filter (\<lambda>v. props v \<noteq> None) (root_variants root)"
  let ?n = "filter (\<lambda>v. opt_filter (\<lambda>p. \<not> prop_local p) (props v) \<noteq> None) (root_variants root)"
  have a: "those (map from_impl ?a) = Some (map ?g ?a)" by (rule those_map) (use f in auto)
  have ann: "props v \<noteq> None" if "v \<in> set ?n" for v using that by (cases "props v") auto
  have n: "those (map first_type ?n) = Some (map (\<lambda>v. hd (field_types v)) ?n)" by (rule those_map) (use f ann in auto)
  have single: "map (\<lambda>v. (variant_name v, [hd (field_types v)])) ?a = map (\<lambda>v. (variant_name v, field_types v)) ?a"
    by (rule map_cong) (use f in auto)
  have flat: "concat (map field_types ?n) = map (\<lambda>v. hd (field_types v)) ?n"
  proof -
    have "map field_types ?n = map (\<lambda>v. [hd (field_types v)]) ?n" by (rule map_cong) (use f ann in auto)
    then show ?thesis by (simp only: concat_map_singleton)
  qed
  show ?thesis
    unfolding expand_def a n option.case using single flat by (auto simp: comp_def)
qed

subsection \<open>Properties\<close>

text \<open>
  Fact.  The macro \<open>AurumInterface\<close> never panics, whatever the item it is put on: derivation accepts a
  variant with an annotation only if it has exactly one field, so the expansion finds the field whose type
  and name it takes by index.
\<close>

theorem interface_macro_never_panics: "aurum_interface ty ast \<noteq> None"
proof (cases "derive ast")
  case (Inl e)
  then show ?thesis by (simp add: aurum_interface_def)
next
  case (Inr root)
  then obtain vs where "list_all2 (\<lambda>v w. variant_get v = Inr w) vs (root_variants root)" by (rule derive_ok)
  from expand_ok[OF annotated_single[OF this], of "ty (type_id root) (generic_ids root)"] Inr show ?thesis
    by (auto simp: aurum_interface_def)
qed

text \<open>What the enum declares: the type of the only field of every annotated variant.\<close>

definition declared :: "'t input_variant list \<Rightarrow> 't set" where
  "declared vs = {t. \<exists>v\<in>set vs. annotated (iv_attrs v) \<and> fst (unzip_fields (iv_fields v)) = [t]}"

definition declared_remote :: "'t input_variant list \<Rightarrow> 't set" where
  "declared_remote vs =
     {t. \<exists>v\<in>set vs. annotated (iv_attrs v) \<and> \<not> annotated_local (iv_attrs v) \<and> fst (unzip_fields (iv_fields v)) = [t]}"

lemma declared_derived:
  "list_all2 (\<lambda>v w. variant_get v = Inr w) vs ws \<Longrightarrow>
     declared vs = set (concat (map field_types (filter (\<lambda>v. props v \<noteq> None) ws))) \<and>
     declared_remote vs =
       set (concat (map field_types (filter (\<lambda>v. opt_filter (\<lambda>p. \<not> prop_local p) (props v) \<noteq> None) ws)))"
proof (induction vs ws rule: list_all2_induct)
  case Nil
  show ?case by (simp add: declared_def declared_remote_def)
next
  case (Cons v vs w ws)
  note ok = variant_get_ok[OF Cons(1)]
  have split: "declared (v # vs) = {t. annotated (iv_attrs v) \<and> fst (unzip_fields (iv_fields v)) = [t]} \<union> declared vs"
    "declared_remote (v # vs) =
      {t. annotated (iv_attrs v) \<and> \<not> annotated_local (iv_attrs v) \<and> fst (unzip_fields (iv_fields v)) = [t]} \<union> declared_remote vs"
    by (auto simp: declared_def declared_remote_def)
  show ?case
  proof (cases "props w")
    case None
    with ok have "\<not> annotated (iv_attrs v)" by simp
    with Cons.IH None show ?thesis by (simp add: split)
  next
    case (Some p)
    with ok obtain t where t: "field_types w = [t]" "annotated (iv_attrs v)" "fst (unzip_fields (iv_fields v)) = [t]"
      "annotated_local (iv_attrs v) \<longleftrightarrow> prop_local p" by auto
    with Cons.IH Some show ?thesis by (auto simp: split)
  qed
qed

lemma derived_parts:
  assumes "aurum_interface ty ast = Some (Inr code)"
  shows "\<exists>vs ids. di_data ast = Enum_Data vs \<and> map Type_Param ids = di_generics ast \<and>
     set (interfaces code) = declared_remote vs \<union> (if annotated_local (di_attrs ast) then {} else {ty (di_ident ast) ids}) \<and>
     (\<lambda>f. snd (snd f)) ` set (from_impls code) = declared vs \<and>
     insert (ty (di_ident ast) ids) (set (interfaces code)) \<subseteq> set (bounds code)"
proof -
  from assms obtain root where root: "derive ast = Inr root"
    and code: "expand (ty (type_id root) (generic_ids root)) root = Some code"
    by (auto simp: aurum_interface_def split: sum.splits)
  from root obtain vs attr where r: "di_data ast = Enum_Data vs"
    "list_all2 (\<lambda>v w. variant_get v = Inr w) vs (root_variants root)"
    "properties_get (di_attrs ast) = Inr attr" "type_attr root = unwrap_or attr default_properties"
    "type_id root = di_ident ast" "map Type_Param (generic_ids root) = di_generics ast" by (rule derive_ok)
  from expand_ok[OF annotated_single[OF r(2)], of "ty (type_id root) (generic_ids root)"]
  have froms: "map (\<lambda>f. (fst f, [snd (snd f)])) (from_impls code) =
      map (\<lambda>v. (variant_name v, field_types v)) (filter (\<lambda>v. props v \<noteq> None) (root_variants root))"
    and ifs: "interfaces code = concat (map field_types (filter (\<lambda>v. opt_filter (\<lambda>p. \<not> prop_local p) (props v) \<noteq> None)
        (root_variants root))) @ (if prop_local (type_attr root) then [] else [ty (type_id root) (generic_ids root)])"
    and bs: "set (interfaces code) \<subseteq> set (bounds code)" "ty (type_id root) (generic_ids root) \<in> set (bounds code)"
    unfolding code option.inject by blast+
  have "(\<lambda>f. snd (snd f)) ` set (from_impls code) = set (concat (map snd (map (\<lambda>f. (fst f, [snd (snd f)])) (from_impls code))))"
    by auto
  also have "\<dots> = declared vs"
    unfolding froms using declared_derived[OF r(2)] by (simp add: comp_def)
  finally have d: "(\<lambda>f. snd (snd f)) ` set (from_impls code) = declared vs" .
  have loc: "prop_local (type_attr root) \<longleftrightarrow> annotated_local (di_attrs ast)"
    using properties_get_iff[OF r(3)] r(4) by (cases attr) (auto simp: default_properties_def)
  have "set (interfaces code) = declared_remote vs \<union> (if annotated_local (di_attrs ast) then {} else {ty (di_ident ast) (generic_ids root)})"
    unfolding ifs loc r(5) using declared_derived[OF r(2)] by simp
  with d r(1,5,6) bs show ?thesis by (intro exI[of _ vs] exI[of _ "generic_ids root"]) simp
qed

lemma generated_has_interface_iff:
  assumes "inj_on variant (insert t (set (interfaces code)))"
  shows "generated_has_interface variant code (variant t) \<longleftrightarrow> t \<in> set (interfaces code)"
proof -
  have "variant t' = variant t \<longleftrightarrow> t' = t" if "t' \<in> set (interfaces code)" for t'
    using inj_on_eq_iff[OF assms] that by simp
  then show ?thesis by (auto simp: generated_has_interface_def list_ex_iff)
qed

text \<open>
  Property C19.  What the macro \<open>AurumInterface\<close> declares.  If it accepts an enum, every variant with an
  annotation can be converted from the type of its field; the remote interfaces of the enum are the types of
  the variants whose annotation is not \<open>local\<close>, and the enum itself unless it is annotated as \<open>local\<close>; and
  exactly these pass \<open>has_interface\<close>, where the unified type tells types apart.
\<close>

theorem derived_interfaces:
  assumes "aurum_interface ty ast = Some (Inr code)" and "inj_on variant (insert t (set (interfaces code)))"
  shows "\<exists>vs ids. di_data ast = Enum_Data vs \<and> map Type_Param ids = di_generics ast \<and>
     (\<lambda>f. snd (snd f)) ` set (from_impls code) = declared vs \<and>
     (generated_has_interface variant code (variant t) \<longleftrightarrow>
        t \<in> declared_remote vs \<or> t = ty (di_ident ast) ids \<and> \<not> annotated_local (di_attrs ast))"
proof -
  from derived_parts[OF assms(1)] obtain vs ids where p: "di_data ast = Enum_Data vs" "map Type_Param ids = di_generics ast"
    "set (interfaces code) = declared_remote vs \<union> (if annotated_local (di_attrs ast) then {} else {ty (di_ident ast) ids})"
    "(\<lambda>f. snd (snd f)) ` set (from_impls code) = declared vs" by blast
  with generated_has_interface_iff[OF assms(2)] show ?thesis by (intro exI[of _ vs] exI[of _ ids]) auto
qed



lemma try_interfaces_eq:
  assumes "inj_on variant (insert t (set ts))"
  shows "try_interfaces deser variant self ts (variant t) i bytes =
     (if t \<in> set ts then deser t (variant t) i bytes else Inl (Incompatible_Interface (variant t) (variant self)))"
  using assms
proof (induction ts)
  case (Cons t' ts)
  have "inj_on variant (insert t (set ts))" using Cons.prems by (rule inj_on_subset) auto
  moreover have "variant t' = variant t \<longleftrightarrow> t' = t" using inj_on_eq_iff[OF Cons.prems] by simp
  ultimately show ?case using Cons.IH by auto
qed simp

lemma generated_deserialize_as_eq:
  assumes "inj_on variant (insert t (set (interfaces code)))"
  shows "generated_deserialize_as deser variant self code (variant t) i bytes =
     (if t \<in> set (interfaces code) then deser t (variant t) i bytes
      else Inl (Incompatible_Interface (variant t) (variant self)))"
  unfolding generated_deserialize_as_def using assms by (rule try_interfaces_eq)

subsection \<open>Instances\<close>

text \<open>The example of the documentation: \<open>#[aurum(local)] enum M { #[aurum] S(String), #[aurum(local)] L(&str), O(usize) }\<close>.\<close>

definition sample_enum :: "string derive_input" where
  "sample_enum = \<lparr>di_ident = ''M'', di_generics = [],
     di_attrs = [Attribute ''derive'' Unparenthesised, Attribute ''aurum'' (Parenthesised (Some [Ident_Path ''local'']) False)],
     di_data = Enum_Data
       [Input_Variant ''S'' [Attribute ''aurum'' No_Tokens] (Unnamed [''String'']),
        Input_Variant ''L'' [Attribute ''aurum'' (Parenthesised (Some [Ident_Path ''local'']) False)] (Unnamed [''str'']),
        Input_Variant ''O'' [] (Unnamed [''usize''])]\<rparr>"

definition sample_code :: "string interface_code" where
  "sample_code = \<lparr>from_impls = [(''S'', None, ''String''), (''L'', None, ''str'')],
     interfaces = [''String''], bounds = [''String'', ''M'']\<rparr>"

lemma sample_expansion: "aurum_interface (\<lambda>n _. n) sample_enum = Some (Inr sample_code)"
  by (simp add: aurum_interface_def derive_def sample_enum_def sample_code_def variant_get_def properties_get_def
      syn_parse_properties_def properties_parse_def default_properties_def expand_def from_impl_def first_type_def)

theorem derived_interfaces_witness:
  "generated_has_interface id sample_code ''String'' \<and> \<not> generated_has_interface id sample_code ''str'' \<and>
   \<not> generated_has_interface id sample_code ''M''"
proof (intro conjI)
  note d = derived_interfaces[OF sample_expansion, of id]
  show "generated_has_interface id sample_code ''String''"
    using d[of "''String''"] by (auto simp: generated_has_interface_def sample_code_def)
  show "\<not> generated_has_interface id sample_code ''str''"
    using d[of "''str''"] by (auto simp: generated_has_interface_def sample_code_def)
  show "\<not> generated_has_interface id sample_code ''M''"
    using d[of "''M''"] by (auto simp: generated_has_interface_def sample_code_def)
qed

end
