(* ===== verification/Unify_Macro.thy ===== *)
theory Unify_Macro
  imports Interface_Macro Complex_Main
begin

text \<open>
  The macro \<open>unify\<close> (aurum_actors_macros/src/unify/mod.rs), which generates the unified type of an
  application: an enum with one variant for every message type and interface, the constants
  \<open>Case::VARIANT\<close>, and the function \<open>has_interface\<close> (core/unification.rs) that dispatches on the root types.
  Types are values of \<open>'t\<close>; \<open>lib\<close> gives the types of the library that every unified type contains.  The
  number of letters of the variants is computed in \<open>f64\<close>: \<open>flog n\<close> is the value of \<open>n.log(1.9)\<close>.
\<close>

subsection \<open>Arguments\<close>

text \<open>
  The argument is a list of entries, each a key, the sign of equality, a value and a semicolon.  A value that
  is not followed by a semicolon is \<open>Bad_Value\<close>, and an entry that does not start with a key is \<open>No_Key\<close>.
\<close>

datatype 't entry_value = Name_Value string string | Types_Value "'t list" | Bad_Value

datatype 't unify_entry = Entry string "'t entry_value" | No_Key

datatype unify_error = Duplicate_Key string | Unrecognized_Key string | Missing_Name | Unify_Syntax

record 't unify_args =
  arg_name :: "(string \<times> string) option"
  arg_roots :: "'t list option"
  arg_interfaces :: "'t list option"

fun parse_entries :: "'t unify_args \<Rightarrow> 't unify_entry list \<Rightarrow> unify_error + 't unify_args" where
  "parse_entries acc [] = Inr acc"
| "parse_entries acc (No_Key # es) = Inl Unify_Syntax"
| "parse_entries acc (Entry key val # es) =
     (if key = ''unified_name'' then
        (if arg_name acc \<noteq> None then Inl (Duplicate_Key key)
         else (case val of Name_Value vis name \<Rightarrow> parse_entries (acc\<lparr>arg_name := Some (vis, name)\<rparr>) es
               | _ \<Rightarrow> Inl Unify_Syntax))
      else if key = ''root_types'' then
        (if arg_roots acc \<noteq> None then Inl (Duplicate_Key key)
         else (case val of Types_Value ts \<Rightarrow> parse_entries (acc\<lparr>arg_roots := Some ts\<rparr>) es | _ \<Rightarrow> Inl Unify_Syntax))
      else if key = ''interfaces'' then
        (if arg_interfaces acc \<noteq> None then Inl (Duplicate_Key key)
         else (case val of Types_Value ts \<Rightarrow> parse_entries (acc\<lparr>arg_interfaces := Some ts\<rparr>) es | _ \<Rightarrow> Inl Unify_Syntax))
      else Inl (Unrecognized_Key key))"

record 't unification =
  unified_vis :: string
  unified_name :: string
  root_types :: "'t list"
  unify_interfaces :: "'t list"

definition unify_parse :: "'t unify_entry list \<Rightarrow> unify_error + 't unification" where
  "unify_parse es =
     (case parse_entries \<lparr>arg_name = None, arg_roots = None, arg_interfaces = None\<rparr> es of
        Inl e \<Rightarrow> Inl e
      | Inr acc \<Rightarrow>
          (case arg_name acc of
             None \<Rightarrow> Inl Missing_Name
           | Some (vis, name) \<Rightarrow>
               Inr \<lparr>unified_vis = vis, unified_name = name, root_types = unwrap_or (arg_roots acc) [],
                 unify_interfaces = unwrap_or (arg_interfaces acc) []\<rparr>))"

subsection \<open>Generation\<close>

definition library_roots :: "string list" where
  "library_roots = [''core::RegistryMsg'', ''cluster::ClusterMsg'', ''cluster::HeartbeatReceiverMsg'',
     ''cluster::devices::DeviceServerMsg'', ''cluster::devices::DeviceClientMsg'', ''cluster::devices::HBReqSenderMsg'',
     ''cluster::crdt::CausalMsg'', ''testkit::LoggerMsg'']"

definition library_interfaces :: "string list" where
  "library_interfaces = [''cluster::IntraClusterMsg'', ''cluster::devices::DeviceServerRemoteMsg'',
     ''cluster::devices::DeviceClientRemoteMsg'', ''cluster::crdt::CausalIntraMsg'',
     ''cluster::devices::HBReqSenderRemoteMsg'']"

text \<open>\<open>multi_cartesian_product\<close> of \<open>k\<close> copies of the letters: all words, in lexicographic order.\<close>

fun letter_words :: "nat \<Rightarrow> string list" where
  "letter_words 0 = [[]]"
| "letter_words (Suc k) = concat (map (\<lambda>c. map (Cons c) (letter_words k)) ''AB'')"

record 't unified_code =
  enum_name :: string
  enum_variants :: "string list"
  root_cases :: "(string \<times> 't) list"
  variant_impls :: "('t \<times> string) list"

definition unify_impl :: "(nat \<Rightarrow> real) \<Rightarrow> (string \<Rightarrow> 't) \<Rightarrow> 't unify_entry list \<Rightarrow> unify_error + 't unified_code" where
  "unify_impl flog lib es =
     (case unify_parse es of
        Inl e \<Rightarrow> Inl e
      | Inr u \<Rightarrow>
          (let specifics = map lib library_roots @ root_types u;
               interfaces = map lib library_interfaces @ unify_interfaces u;
               types = specifics @ interfaces;
               all_variants = take (length types) (letter_words (nat \<lceil>flog (length types)\<rceil>));
               specific_variants = take (length specifics) all_variants in
           Inr \<lparr>enum_name = unified_name u, enum_variants = all_variants,
             root_cases = zip specific_variants specifics, variant_impls = zip types all_variants\<rparr>))"

text \<open>\<open>Case<t>::VARIANT\<close>, where the type is listed.\<close>

definition variant_of :: "'t unified_code \<Rightarrow> 't \<Rightarrow> string option" where
  "variant_of code t = map_of (variant_impls code) t"

text \<open>The generated \<open>UnifiedType::has_interface\<close>; \<open>impl t\<close> is what \<open>AurumInterface\<close> has generated for \<open>t\<close>.\<close>

definition unified_has_interface ::
    "('t \<Rightarrow> 't interface_code) \<Rightarrow> 't unified_code \<Rightarrow> string \<Rightarrow> string \<Rightarrow> bool" where
  "unified_has_interface impl code self interface =
     (case map_of (root_cases code) self of
        Some t \<Rightarrow> generated_has_interface (\<lambda>t. the (variant_of code t)) (impl t) interface
      | None \<Rightarrow> False)"

subsection \<open>Every type has a variant of its own\<close>

lemma length_letter_words: "length (letter_words k) = 2 ^ k"
  by (induction k) auto

lemma distinct_letter_words: "distinct (letter_words k)"
  by (induction k) (auto simp: distinct_map)

lemma words_suffice:
  assumes "\<bar>flog n - log (19 / 10) (real n)\<bar> \<le> 1 / 100" and "2 \<le> n"
  shows "n \<le> 2 ^ nat \<lceil>flog n\<rceil>"
proof -
  define k where "k = nat \<lceil>flog n\<rceil>"
  have n: "real n > 0" using assms(2) by simp
  have "log (19 / 10) (19 / 10) \<le> log (19 / 10) (real n)" using assms(2) by (intro log_mono) auto
  then have "1 \<le> log (19 / 10) (real n)" by simp
  then have "flog n \<ge> 99 / 100" using assms(1) by linarith
  then have k1: "1 \<le> k" and kf: "flog n \<le> real k" unfolding k_def by linarith+
  have "log (19 / 10) (real n) \<le> real k + 1 / 100" using assms(1) kf by linarith
  then have "(19 / 10) powr log (19 / 10) (real n) \<le> (19 / 10) powr (real k + 1 / 100)"
    by (intro powr_mono) auto
  then have "real n \<le> (19 / 10) powr (real k + 1 / 100)" using n by simp
  also have "\<dots> = (19 / 10) ^ k * (19 / 10) powr (1 / 100)" by (simp add: powr_add powr_realpow)
  also have "(19 / 10 :: real) powr (1 / 100) \<le> 20 / 19"
  proof -
    have "(19 / 10 :: real) \<le> 1 + real 100 * (1 / 19)" by simp
    also have "\<dots> \<le> (1 + 1 / 19) ^ 100" by (rule Bernoulli_inequality) simp
    finally have "(19 / 10 :: real) powr (1 / 100) \<le> ((20 / 19) ^ 100) powr (1 / 100)"
      by (intro powr_mono2) simp_all
    also have "\<dots> = ((20 / 19) powr real 100) powr (1 / 100)" by (subst powr_realpow) simp_all
    also have "\<dots> = (20 / 19 :: real)" by (simp only: powr_powr) simp
    finally show ?thesis .
  qed
  also have "(19 / 10 :: real) ^ k * (20 / 19) \<le> (19 / 10) ^ k * (20 / 19) ^ k"
  proof -
    have "(20 / 19 :: real) ^ 1 \<le> (20 / 19) ^ k" using k1 by (intro power_increasing) auto
    then show ?thesis by simp
  qed
  also have "(19 / 10 :: real) ^ k * (20 / 19) ^ k = 2 ^ k" by (simp add: power_mult_distrib[symmetric])
  finally have "real n \<le> real (2 ^ k)" by simp
  then show ?thesis unfolding k_def by (simp only: of_nat_le_iff)
qed

text \<open>What \<open>f64\<close> is relied on for: the computed logarithm is close to the exact one.\<close>

definition flog_close :: "(nat \<Rightarrow> real) \<Rightarrow> bool" where
  "flog_close flog \<longleftrightarrow> (\<forall>n\<ge>2. \<bar>flog n - log (19 / 10) (real n)\<bar> \<le> 1 / 100)"

text \<open>All types of a parsed argument, in the order of their variants.\<close>

definition all_types :: "(string \<Rightarrow> 't) \<Rightarrow> 't unification \<Rightarrow> 't list" where
  "all_types lib u =
     (map lib library_roots @ root_types u) @ map lib library_interfaces @ unify_interfaces u"

lemma unify_impl_ok:
  assumes "unify_impl flog lib es = Inr code" and "flog_close flog"
  obtains u where "unify_parse es = Inr u" "length (enum_variants code) = length (all_types lib u)"
    "distinct (enum_variants code)" "variant_impls code = zip (all_types lib u) (enum_variants code)"
    "root_cases code = zip (take (8 + length (root_types u)) (enum_variants code)) (map lib library_roots @ root_types u)"
proof -
  from assms(1) obtain u where u: "unify_parse es = Inr u" by (auto simp: unify_impl_def split: sum.splits)
  have eight: "8 + length (root_types u) = length (map lib library_roots @ root_types u)"
    by (simp add: library_roots_def)
  let ?n = "length (all_types lib u)"
  have "2 \<le> ?n" by (simp add: all_types_def library_roots_def)
  then have "?n \<le> 2 ^ nat \<lceil>flog ?n\<rceil>" using assms(2) by (intro words_suffice) (simp_all add: flog_close_def)
  moreover from assms(1) u have code: "enum_variants code = take ?n (letter_words (nat \<lceil>flog ?n\<rceil>))"
    "variant_impls code = zip (all_types lib u) (enum_variants code)"
    "root_cases code = zip (take (8 + length (root_types u)) (enum_variants code)) (map lib library_roots @ root_types u)"
    unfolding eight by (auto simp: unify_impl_def Let_def all_types_def add.assoc)
  ultimately have "length (enum_variants code) = ?n" "distinct (enum_variants code)"
    by (simp_all add: length_letter_words distinct_letter_words)
  with u code that show thesis by blast
qed

text \<open>Distinct types have distinct variants, and a root is found by its variant.\<close>

lemma variant_of_nth:
  assumes "length (enum_variants code) = length ts" "distinct ts" "variant_impls code = zip ts (enum_variants code)" "i < length ts"
  shows "variant_of code (ts ! i) = Some (enum_variants code ! i)"
  using assms by (simp add: variant_of_def map_of_zip_nth)

lemma variant_inj:
  assumes "length (enum_variants code) = length ts" "distinct ts" "variant_impls code = zip ts (enum_variants code)"
    "distinct (enum_variants code)"
  shows "inj_on (\<lambda>t. the (variant_of code t)) (set ts)"
proof (rule inj_onI)
  fix s t
  assume st: "s \<in> set ts" "t \<in> set ts" and eq: "the (variant_of code s) = the (variant_of code t)"
  from st obtain i j where ij: "i < length ts" "s = ts ! i" "j < length ts" "t = ts ! j" by (auto simp: in_set_conv_nth)
  with eq variant_of_nth[OF assms(1-3)] have "enum_variants code ! i = enum_variants code ! j" by simp
  with ij assms(1,4) show "s = t" by (simp add: nth_eq_iff_index_eq)
qed

lemma root_case:
  assumes "length vs = length ts" "distinct vs" "ts = roots @ rest" "i < length roots"
  shows "map_of (zip (take (length roots) vs) roots) (vs ! i) = Some (roots ! i)"
proof -
  have "length (take (length roots) vs) = length roots" "distinct (take (length roots) vs)" using assms by simp_all
  from map_of_zip_nth[OF this assms(4)] show ?thesis using assms(4) by simp
qed

subsection \<open>Properties\<close>

text \<open>
  Property C20.  The macro \<open>unify\<close> generates enough variants.  Provided \<open>f64\<close> computes the logarithm to within a
  hundredth, the unified type has exactly one variant for every type of the library and of the argument, no
  two of them equal, so that every listed type has a \<open>VARIANT\<close> and different types have different ones.
\<close>

theorem unify_variants:
  assumes "unify_impl flog lib es = Inr code" and "flog_close flog"
  shows "\<exists>u. unify_parse es = Inr u \<and> distinct (enum_variants code) \<and>
     length (enum_variants code) = 13 + length (root_types u) + length (unify_interfaces u) \<and>
     (\<forall>t. t \<in> set (all_types lib u) \<longleftrightarrow> variant_of code t \<noteq> None) \<and>
     (distinct (all_types lib u) \<longrightarrow> inj_on (\<lambda>t. the (variant_of code t)) (set (all_types lib u)))"
proof -
  from assms obtain u where u: "unify_parse es = Inr u" "length (enum_variants code) = length (all_types lib u)"
    "distinct (enum_variants code)" "variant_impls code = zip (all_types lib u) (enum_variants code)"
    by (rule unify_impl_ok)
  have "length (all_types lib u) = 13 + length (root_types u) + length (unify_interfaces u)"
    by (simp add: all_types_def library_roots_def library_interfaces_def)
  moreover have "t \<in> set (all_types lib u) \<longleftrightarrow> variant_of code t \<noteq> None" for t
    unfolding variant_of_def u(4) by (metis map_of_zip_is_None u(2))
  ultimately show ?thesis using u variant_inj[OF u(2) _ u(4,3)] by (intro exI[of _ u]) simp
qed

lemma has_interface_iff:
  assumes "unify_impl flog lib es = Inr code" "flog_close flog" "unify_parse es = Inr u" "distinct (all_types lib u)"
    and "S \<in> set (map lib library_roots @ root_types u)" and "t \<in> set (all_types lib u)"
    and "set (interfaces (impl S)) \<subseteq> set (all_types lib u)"
  shows "unified_has_interface impl code (the (variant_of code S)) (the (variant_of code t)) \<longleftrightarrow> t \<in> set (interfaces (impl S))"
    and "inj_on (\<lambda>t. the (variant_of code t)) (insert t (set (interfaces (impl S))))"
proof -
  from assms(1,2) obtain u' where "unify_parse es = Inr u'" "length (enum_variants code) = length (all_types lib u')"
    "distinct (enum_variants code)" "variant_impls code = zip (all_types lib u') (enum_variants code)"
    "root_cases code = zip (take (8 + length (root_types u')) (enum_variants code)) (map lib library_roots @ root_types u')"
    by (rule unify_impl_ok)
  with assms(3) have u: "length (enum_variants code) = length (all_types lib u)"
    "distinct (enum_variants code)" "variant_impls code = zip (all_types lib u) (enum_variants code)"
    "root_cases code = zip (take (8 + length (root_types u)) (enum_variants code)) (map lib library_roots @ root_types u)"
    by simp_all
  show inj: "inj_on (\<lambda>t. the (variant_of code t)) (insert t (set (interfaces (impl S))))"
    using variant_inj[OF u(1) assms(4) u(3,2)] by (rule inj_on_subset) (use assms(6,7) in auto)
  let ?roots = "map lib library_roots @ root_types u"
  from assms(5) obtain i where i: "i < length ?roots" "S = ?roots ! i" by (metis in_set_conv_nth)
  have split: "all_types lib u = ?roots @ (map lib library_interfaces @ unify_interfaces u)" by (simp add: all_types_def)
  have S: "S = all_types lib u ! i" "i < length (all_types lib u)"
    unfolding split i(2) nth_append using i(1) by simp_all
  have len: "8 + length (root_types u) = length ?roots" by (simp add: library_roots_def)
  have "map_of (root_cases code) (enum_variants code ! i) = Some S"
    unfolding u(4) len using root_case[OF u(1,2) split i(1)] i(2) by simp
  then have "map_of (root_cases code) (the (variant_of code S)) = Some S"
    using variant_of_nth[OF u(1) assms(4) u(3) S(2)] S(1) by simp
  then show "unified_has_interface impl code (the (variant_of code S)) (the (variant_of code t)) \<longleftrightarrow> t \<in> set (interfaces (impl S))"
    using generated_has_interface_iff[OF inj] by (simp add: unified_has_interface_def)
qed

text \<open>
  Property C21.  Valid destinations are the deliverable ones.  In an application whose types are listed once, a
  destination to an actor with root type \<open>S\<close> under the interface \<open>t\<close> is \<open>valid\<close> exactly if the generated
  \<open>deserialize_as\<close> of \<open>S\<close> decodes messages of that destination as values of \<open>t\<close>; every message of an invalid
  destination is refused as an incompatible interface, whatever it contains.
\<close>

theorem valid_destinations_decodable:
  assumes "unify_impl flog lib es = Inr code" and "flog_close flog" and "unify_parse es = Inr u"
    and "distinct (all_types lib u)" and "S \<in> set (map lib library_roots @ root_types u)" and "t \<in> set (all_types lib u)"
    and "set (interfaces (impl S)) \<subseteq> set (all_types lib u)"
  shows "generated_deserialize_as deser (\<lambda>t. the (variant_of code t)) S (impl S) (the (variant_of code t)) i bytes =
     (if destination_valid (unified_has_interface impl code) (the (variant_of code t))
           (destination_new (the (variant_of code S)) (the (variant_of code t)) name)
      then deser t (the (variant_of code t)) i bytes
      else Inl (Incompatible_Interface (the (variant_of code t)) (the (variant_of code S))))"
  using has_interface_iff[where S = S and impl = impl, OF assms] generated_deserialize_as_eq[of "\<lambda>t. the (variant_of code t)" t "impl S" deser S i bytes]
  by (simp add: destination_valid_def destination_new_def)

subsection \<open>Instances\<close>

text \<open>An application with the root type and the interface of the documentation.\<close>

definition sample_entries_app :: "string unify_entry list" where
  "sample_entries_app = [Entry ''unified_name'' (Name_Value ''pub'' ''App''), Entry ''root_types'' (Types_Value [''M'']),
     Entry ''interfaces'' (Types_Value [''String''])]"

definition sample_unification :: "string unification" where
  "sample_unification = \<lparr>unified_vis = ''pub'', unified_name = ''App'', root_types = [''M''], unify_interfaces = [''String'']\<rparr>"

definition exact_log :: "nat \<Rightarrow> real" where
  "exact_log n = log (19 / 10) (real n)"

lemma exact_log_close: "flog_close exact_log"
  by (simp add: flog_close_def exact_log_def)

lemma sample_app_parse: "unify_parse sample_entries_app = Inr sample_unification"
  by (simp add: unify_parse_def sample_entries_app_def sample_unification_def)

lemma sample_app_code: "\<exists>code. unify_impl exact_log id sample_entries_app = Inr code"
  by (simp add: unify_impl_def sample_app_parse Let_def)

lemma sample_app_distinct: "distinct (all_types id sample_unification)"
  by (simp add: all_types_def sample_unification_def library_roots_def library_interfaces_def)

lemma sample_app_types: "''M'' \<in> set (map id library_roots @ root_types sample_unification)"
  "''M'' \<in> set (all_types id sample_unification)" "''String'' \<in> set (all_types id sample_unification)"
  "set (interfaces sample_code) \<subseteq> set (all_types id sample_unification)"
  by (simp_all add: all_types_def sample_unification_def sample_code_def)

theorem unify_variants_witness:
  "\<exists>code. unify_impl exact_log id sample_entries_app = Inr code \<and> length (enum_variants code) = 15 \<and>
     distinct (enum_variants code)"
proof -
  obtain code where code: "unify_impl exact_log id sample_entries_app = Inr code" using sample_app_code by blast
  from unify_variants[OF this exact_log_close] show ?thesis
    using code by (simp add: sample_app_parse sample_unification_def)
qed

theorem valid_destinations_decodable_witness:
  "\<exists>code. unify_impl exact_log id sample_entries_app = Inr code \<and>
     generated_deserialize_as (\<lambda>_. deserialize_msg (\<lambda>_. Some (3::nat)) (\<lambda>_. None) id) (\<lambda>t. the (variant_of code t)) ''M''
       sample_code (the (variant_of code ''String'')) Message [] = Inr (Local_Msg 3)"
proof -
  obtain code where code: "unify_impl exact_log id sample_entries_app = Inr code" using sample_app_code by blast
  note args = code exact_log_close sample_app_parse sample_app_distinct sample_app_types(1,3)
  have "destination_valid (unified_has_interface (\<lambda>_. sample_code) code) (the (variant_of code ''String''))
      (destination_new (the (variant_of code ''M'')) (the (variant_of code ''String'')) ''actor'')"
    using has_interface_iff(1)[where impl = "\<lambda>_. sample_code", OF args sample_app_types(4)]
    by (simp add: destination_valid_def destination_new_def sample_code_def)
  then show ?thesis
    using code valid_destinations_decodable[where impl = "\<lambda>_. sample_code" and name = "''actor''"
        and deser = "\<lambda>_. deserialize_msg (\<lambda>_. Some (3::nat)) (\<lambda>_. None) id" and i = Message and bytes = "[]",
        OF args sample_app_types(4)]
    by (intro exI[of _ code]) (simp add: deserialize_msg_def)
qed

end
