(* ===== verification/Remote_Delivery.thy ===== *)
theory Remote_Delivery
  imports Udp_Receiver Actor_Tasks Unify_Macro
begin

text \<open>
  A remote message from end to end: the sender serializes it for a destination (core/udp_serial.rs), its
  datagrams reach the receiver of the other node among those of other messages (core/udp_receiver.rs), the
  registry finds the mailbox of the actor (core/registry.rs), and the task of the actor decodes the message
  with the code that the macros have generated (core/packets.rs) and calls the actor
  (core/actor_tasks_unit.rs).  The codec is a parameter: \<open>enc t\<close> and \<open>dec t\<close> for values of the type \<open>t\<close>, and a
  pair for destinations.
\<close>

text \<open>The decoder of an interface, with the generated conversion into the root type.\<close>

definition interface_decoder ::
    "('t \<Rightarrow> u8 list \<Rightarrow> 'v option) \<Rightarrow> (u8 list \<Rightarrow> actor_signal option) \<Rightarrow> (string \<Rightarrow> string option \<Rightarrow> 'v \<Rightarrow> 'v) \<Rightarrow>
     't \<Rightarrow> 't interface_code \<Rightarrow> 't \<Rightarrow> 'u \<Rightarrow> interpretations \<Rightarrow> u8 list \<Rightarrow> 'u deserialize_error + 'v local_actor_msg" where
  "interface_decoder dec dec_sig build S code t =
     deserialize_msg (dec t) dec_sig (\<lambda>item. the (generated_from build S code t item))"

text \<open>\<open>S::deserialize_as\<close> in an application.\<close>

definition app_deserializer ::
    "('t \<Rightarrow> u8 list \<Rightarrow> 'v option) \<Rightarrow> (u8 list \<Rightarrow> actor_signal option) \<Rightarrow> (string \<Rightarrow> string option \<Rightarrow> 'v \<Rightarrow> 'v) \<Rightarrow>
     't unified_code \<Rightarrow> 't interface_code \<Rightarrow> 't \<Rightarrow> (string, 'v) deserializer" where
  "app_deserializer dec dec_sig build code icode S =
     generated_deserialize_as (interface_decoder dec dec_sig build S icode) (\<lambda>t. the (variant_of code t)) S icode"

text \<open>The datagrams of some messages, each once and in any order, are what a fresh receiver gets.\<close>

definition arrive :: "wire_message list \<Rightarrow> receiver \<Rightarrow> u8 list list \<Rightarrow> bool" where
  "arrive ms st ds \<longleftrightarrow>
     (\<forall>m\<in>set ms. wm_fits m) \<and> distinct (map wm_id ms) \<and> length (header_buf st) = header_size \<and>
     (\<forall>m\<in>set ms. recvd st (wm_id m) = None) \<and>
     (\<forall>m\<in>set ms. mset (filter (\<lambda>d. datagram_id d = Some (wm_id m)) ds) = mset (wm_send m)) \<and>
     (\<forall>d\<in>set ds. \<exists>m\<in>set ms. datagram_id d = Some (wm_id m))"

lemma arrive_delivers:
  assumes "arrive ms st ds" and "m \<in> set ms"
  obtains st' outs mb where "receiver_run st ds = Some (st', [], outs)" "forwards_of (wm_id m) ds outs = [mb]"
    "mb_msg mb = wm_item m" "mb_dest mb = wm_dest m" "mb_intp mb = wm_intp m"
proof -
  from assms(1) have a: "\<forall>m\<in>set ms. wm_fits m" "distinct (map wm_id ms)" "length (header_buf st) = header_size"
    "\<forall>m\<in>set ms. recvd st (wm_id m) = None"
    "\<forall>m\<in>set ms. mset (filter (\<lambda>d. datagram_id d = Some (wm_id m)) ds) = mset (wm_send m)"
    "\<forall>d\<in>set ds. \<exists>m\<in>set ms. datagram_id d = Some (wm_id m)"
    unfolding arrive_def by blast+
  from receiver_delivers_raw[OF a] assms(2) that show thesis by blast
qed

lemma generated_from_interface:
  assumes "aurum_interface ty ast = Some (Inr icode)" and "di_generics ast = map Type_Param ids"
    and "t \<in> set (interfaces icode)"
  shows "generated_from build (ty (di_ident ast) ids) icode t item \<noteq> None"
proof -
  from derived_parts[OF assms(1)] obtain vs ids' where p: "map Type_Param ids' = di_generics ast"
    "set (interfaces icode) = declared_remote vs \<union> (if annotated_local (di_attrs ast) then {} else {ty (di_ident ast) ids'})"
    "(\<lambda>f. snd (snd f)) ` set (from_impls icode) = declared vs" by blast
  have "inj Type_Param" by (rule injI) simp
  with p(1) assms(2) have "ids' = ids" by simp
  moreover have "declared_remote vs \<subseteq> declared vs" by (auto simp: declared_remote_def declared_def)
  ultimately have "t = ty (di_ident ast) ids \<or> t \<in> (\<lambda>f. snd (snd f)) ` set (from_impls icode)"
    using p(2,3) assms(3) by (auto split: if_splits)
  moreover have "filter (\<lambda>(_, _, t'). t' = t) (from_impls icode) \<noteq> []" if "t \<in> (\<lambda>f. snd (snd f)) ` set (from_impls icode)"
    using that by (force simp: filter_empty_conv)
  ultimately show ?thesis by (auto simp: generated_from_def split: list.splits prod.splits)
qed
text \<open>What the task of an actor does with a message from its mailbox.\<close>

lemma task_decodes:
  assumes "st_phase task = Running" and "st_rx task = Serial interface mb # rest"
    and "deser interface (mb_intp mb) (mb_msg mb) = Inr (Local_Msg x)"
  shows "unit_single_step deser task = Some (task\<lparr>st_rx := rest, st_calls := st_calls task @ [Recv x]\<rparr>)"
  using assms by (simp add: unit_single_step_def)

lemma task_refuses:
  assumes "st_phase task = Running" and "st_rx task = Serial interface mb # rest"
    and "deser interface (mb_intp mb) (mb_msg mb) = Inl e"
  shows "unit_single_step deser task = Some (task\<lparr>st_rx := rest, st_phase := Panicked\<rparr>)"
  using assms by (simp add: unit_single_step_def)

text \<open>
  Property C8.  A remote message arrives.  A value of type \<open>t\<close> that is sent to a destination for an actor with
  root type \<open>S\<close> is split into datagrams; if each of them arrives once, in any order and among the datagrams of
  other messages, the receiver of the other node forwards it once, the registry puts it into the mailbox of
  the actor of that name, and the task of the actor calls \<open>recv\<close> with the converted value if the destination
  is valid.  If it is not, the task panics: neither node checks the destination before.
\<close>

theorem remote_message_fate:
  assumes "unify_impl flog lib es = Inr code" and "flog_close flog" and "unify_parse es = Inr u"
    and "distinct (all_types lib u)" and "S \<in> set (map lib library_roots @ root_types u)" and "t \<in> set (all_types lib u)"
    and "aurum_interface ty ast = Some (Inr (impl S))" and "di_generics ast = map Type_Param ids" and "S = ty (di_ident ast) ids"
    and "set (interfaces (impl S)) \<subseteq> set (all_types lib u)"
    and "dec t (enc t item) = Some item" and "dest = destination_new (the (variant_of code S)) (the (variant_of code t)) name"
    and "dec_dest (enc_dest dest) = Some dest"
    and "m = \<lparr>wm_id = rid, wm_item = enc t item, wm_intp = Message, wm_dest = enc_dest dest\<rparr>"
    and "arrive ms st ds" and "m \<in> set ms"
    and "register reg (dest_name dest) = Some c" and "mbox_open (w c)"
  shows "map_option ser_send (ser_msg (enc t) enc_dest rid dest item) = Some (wm_send m) \<and>
    (\<exists>st' outs mb x. receiver_run st ds = Some (st', [], outs) \<and> forwards_of rid ds outs = [mb] \<and>
       registry_recv dec_dest reg w (Reg_Forward mb) =
         Some (reg, w(c := (w c)\<lparr>mbox_queue := mbox_queue (w c) @ [Serial (dest_interface dest) mb]\<rparr>)) \<and>
       (\<forall>task rest. st_phase task = Running \<and> st_rx task = Serial (dest_interface dest) mb # rest \<longrightarrow>
         unit_single_step (app_deserializer dec dec_sig build code (impl S) S) task =
           Some (if destination_valid (unified_has_interface impl code) (the (variant_of code t)) dest
                 then task\<lparr>st_rx := rest, st_calls := st_calls task @ [Recv x]\<rparr>
                 else task\<lparr>st_rx := rest, st_phase := Panicked\<rparr>)) \<and>
       (destination_valid (unified_has_interface impl code) (the (variant_of code t)) dest \<longrightarrow>
         generated_from build S (impl S) t item = Some x))"
proof -
  note hi = has_interface_iff[where impl = impl, OF assms(1-6,10)]
  note de = generated_deserialize_as_eq[OF hi(2)]
  have valid: "destination_valid (unified_has_interface impl code) (the (variant_of code t)) dest \<longleftrightarrow> t \<in> set (interfaces (impl S))"
    using hi(1) by (simp add: assms(12) destination_valid_def destination_new_def)
  have send: "map_option ser_send (ser_msg (enc t) enc_dest rid dest item) = Some (wm_send m)"
  proof -
    have "wm_fits m" using assms(15,16) by (simp add: arrive_def)
    then have "ser_new (wm_id m) (wm_item m) (wm_intp m) (wm_dest m) \<noteq> None"
      using ser_send_raw[OF fits_headerD(4), of "wm_item m" "wm_dest m" "wm_id m" "wm_intp m"] by (auto simp: wm_fits_def)
    then show ?thesis by (auto simp: ser_msg_def wm_send_def assms(14))
  qed
  obtain st' outs mb where run: "receiver_run st ds = Some (st', [], outs)" "forwards_of (wm_id m) ds outs = [mb]"
    "mb_msg mb = wm_item m" "mb_dest mb = wm_dest m" "mb_intp mb = wm_intp m"
    using arrive_delivers[OF assms(15,16)] by blast
  have mb: "mb_msg mb = enc t item" "mb_dest mb = enc_dest dest" "mb_intp mb = Message" "wm_id m = rid"
    using run(3-5) by (simp_all add: assms(14))
  have reg: "registry_recv dec_dest reg w (Reg_Forward mb) =
      Some (reg, w(c := (w c)\<lparr>mbox_queue := mbox_queue (w c) @ [Serial (dest_interface dest) mb]\<rparr>))"
    using assms(13,17,18) by (cases dest) (simp add: registry_recv_def mb ser_recvr_def mailbox_send_def Let_def)
  have if_: "dest_interface dest = the (variant_of code t)" by (simp add: assms(12) destination_new_def)
  define x where "x = the (generated_from build S (impl S) t item)"
  have decode: "app_deserializer dec dec_sig build code (impl S) S (dest_interface dest) (mb_intp mb) (mb_msg mb) =
      (if t \<in> set (interfaces (impl S)) then Inr (Local_Msg x)
       else Inl (Incompatible_Interface (the (variant_of code t)) (the (variant_of code S))))"
    unfolding app_deserializer_def if_ de by (simp add: mb interface_decoder_def deserialize_msg_def assms(11) x_def)
  have "generated_from build S (impl S) t item = Some x" if "t \<in> set (interfaces (impl S))"
    using generated_from_interface[OF assms(7,8) that, of build item] by (auto simp: assms(9) x_def)
  moreover have "unit_single_step (app_deserializer dec dec_sig build code (impl S) S) task =
      Some (if t \<in> set (interfaces (impl S)) then task\<lparr>st_rx := rest, st_calls := st_calls task @ [Recv x]\<rparr>
            else task\<lparr>st_rx := rest, st_phase := Panicked\<rparr>)"
    if "st_phase task = Running" "st_rx task = Serial (dest_interface dest) mb # rest" for task rest
    using task_decodes[OF that] task_refuses[OF that] decode by simp
  ultimately show ?thesis
    using send run(1,2) reg mb(4) valid by (intro conjI exI[of _ st'] exI[of _ outs] exI[of _ mb] exI[of _ x]) auto
qed

subsection \<open>Instance\<close>

lemma arrive_single:
  assumes "wm_fits m"
  shows "arrive [m] receiver_start (wm_send m)"
proof -
  have "datagram_id d = Some (wm_id m)" if "d \<in> set (wm_send m)" for d
  proof -
    from that have "d \<in> wm_packet m ` {0..<Suc (wm_last m)}" unfolding wm_send_eq[OF assms] by (simp only: set_map set_upt)
    then obtain k where "k \<le> wm_last m" "d = wm_packet m k" by (auto simp: less_Suc_eq_le)
    then show ?thesis
      using datagram_id_packet(1)[OF assms[unfolded wm_fits_def], of k "wm_id m" "wm_intp m"] by (simp add: wm_last_def wm_packet_def)
  qed
  moreover from this have "filter (\<lambda>d. datagram_id d = Some (wm_id m)) (wm_send m) = wm_send m" by (simp add: filter_id_conv)
  ultimately show ?thesis using assms by (simp add: arrive_def receiver_start_def)
qed

text \<open>The value 7 for the interface \<open>String\<close> of the root type \<open>M\<close>, whose variant \<open>S\<close> adds one.\<close>

theorem remote_message_fate_witness:
  "\<exists>code mb. unify_impl exact_log id sample_entries_app = Inr code \<and>
     unit_single_step (app_deserializer (\<lambda>_ _. Some (7::nat)) (\<lambda>_. None) (\<lambda>_ _ v. v + 1) code sample_code ''M'')
       \<lparr>st_phase = Running, st_rx = [Serial (the (variant_of code ''String'')) mb], st_calls = []\<rparr> =
     Some \<lparr>st_phase = Running, st_rx = [], st_calls = [Recv 8]\<rparr>"
proof -
  obtain code where code: "unify_impl exact_log id sample_entries_app = Inr code" using sample_app_code by blast
  define dest where "dest = destination_new (the (variant_of code ''M'')) (the (variant_of code ''String'')) ''actor''"
  define m where "m = \<lparr>wm_id = 5, wm_item = [1, 2, 3], wm_intp = Message, wm_dest = [9]\<rparr>"
  have fits: "wm_fits m" by (simp add: m_def wm_fits_def fits_header_def)
  note args = code exact_log_close sample_app_parse sample_app_distinct sample_app_types(1,3)
  have valid: "destination_valid (unified_has_interface (\<lambda>_. sample_code) code) (the (variant_of code ''String'')) dest"
    using has_interface_iff(1)[where impl = "\<lambda>_. sample_code", OF args sample_app_types(4)]
    by (simp add: destination_valid_def destination_new_def sample_code_def dest_def)
  let ?task = "\<lambda>mb. \<lparr>st_phase = Running, st_rx = [Serial (the (variant_of code ''String'')) mb], st_calls = []\<rparr> :: (string, nat) single_task"
  have "\<exists>mb. unit_single_step (app_deserializer (\<lambda>_ _. Some (7::nat)) (\<lambda>_. None) (\<lambda>_ _ v. v + 1) code sample_code ''M'') (?task mb) =
     Some \<lparr>st_phase = Running, st_rx = [], st_calls = [Recv 8]\<rparr>"
  proof -
    have rec: "register \<lparr>register = (\<lambda>_. Some (0::nat))\<rparr> (dest_name dest) = Some 0" by simp
    have box: "mbox_open ((\<lambda>_. \<lparr>mbox_open = True, mbox_queue = []\<rparr> :: (string, nat) mailbox) 0)" by simp
    have m1: "m = \<lparr>wm_id = 5, wm_item = (\<lambda>_ _. [1, 2, 3]) ''String'' (7::nat), wm_intp = Message, wm_dest = (\<lambda>_. [9]) dest\<rparr>"
      by (simp add: m_def)
    have exp: "aurum_interface (\<lambda>n _. n) sample_enum = Some (Inr ((\<lambda>_. sample_code) ''M''))" by (simp add: sample_expansion)
    have gen: "di_generics sample_enum = map Type_Param []" and self: "''M'' = (\<lambda>n _. n) (di_ident sample_enum) []"
      by (simp_all add: sample_enum_def)
    have mem: "m \<in> set [m]" by simp
    note fate = remote_message_fate[where impl = "\<lambda>_. sample_code" and ids = "[]" and dec = "\<lambda>_ _. Some (7::nat)"
        and enc = "\<lambda>_ _. [1, 2, 3]" and enc_dest = "\<lambda>_. [9]" and dec_dest = "\<lambda>_. Some dest" and name = "''actor''"
        and dec_sig = "\<lambda>_. None" and build = "\<lambda>_ _ v. v + 1",
        OF args exp gen self sample_app_types(4) refl dest_def refl m1 arrive_single[OF fits] mem rec box]
    obtain mb x where mb: "\<forall>task rest. st_phase task = Running \<and> st_rx task = Serial (dest_interface dest) mb # rest \<longrightarrow>
         unit_single_step (app_deserializer (\<lambda>_ _. Some (7::nat)) (\<lambda>_. None) (\<lambda>_ _ v. v + 1) code sample_code ''M'') task =
           Some (if destination_valid (unified_has_interface (\<lambda>_. sample_code) code) (the (variant_of code ''String'')) dest
             then task\<lparr>st_rx := rest, st_calls := st_calls task @ [Recv x]\<rparr> else task\<lparr>st_rx := rest, st_phase := Panicked\<rparr>)"
      and x: "destination_valid (unified_has_interface (\<lambda>_. sample_code) code) (the (variant_of code ''String'')) dest \<longrightarrow>
        generated_from (\<lambda>_ _ v. v + 1) ''M'' sample_code ''String'' 7 = Some x"
      using fate by (elim conjE exE)
    from x valid have "x = 8" by (simp add: generated_from_def sample_code_def)
    with mb valid show ?thesis by (intro exI[of _ mb]) (simp add: dest_def destination_new_def)
  qed
  then show ?thesis using code by blast
qed

end
