(* ===== verification/Node_Spawn.thy ===== *)
theory Node_Spawn
  imports Actor_Tasks
begin

text \<open>
  Spawning of actors on a node (core/node.rs) and the registration of their tasks with the registry, with
  which the task functions begin and end (core/actor_tasks_unit.rs, core/actor_tasks_timeout.rs).  A task is
  known by the address of its mailbox.  Its calls to the actor are modelled in \<open>Actor_Tasks\<close>; here a task is
  alive from its first call to its last.  The registry handles the commands in its own mailbox one by one;
  tasks start, end and panic at any time in between.
\<close>

subsection \<open>Nodes\<close>

record node_config =
  nc_socket :: socket
  actor_threads :: nat
  actor_thread_stack_size :: nat
  compute_threads :: nat

definition default_node_config :: "nat \<Rightarrow> node_config" where
  "default_node_config cpus =
     \<lparr>nc_socket = socket_default, actor_threads = cpus, actor_thread_stack_size = 3 * 1024 * 1024, compute_threads = cpus\<rparr>"

text \<open>\<open>unit_single\<close>, \<open>unit_secondary\<close> with \<open>unit_primary\<close>, or \<open>run_single_timeout\<close> with its timeout.\<close>

datatype task_kind = Single_Task | Double_Task | Timeout_Task duration

datatype life = Spawned | Registering | Alive | Finishing | Ended | Crashed

record 'u task_info =
  ti_name :: "'u actor_id"
  ti_kind :: task_kind
  ti_register :: bool
  ti_life :: life

record ('u, 'c, 's) node_sys =
  sys_socket :: socket
  sys_registry_up :: bool
  sys_registry :: "('u, 'c) registry"
  sys_commands :: "('u, 'c) registry_msg list"
  sys_tasks :: "'c \<Rightarrow> 'u task_info option"
  sys_boxes :: "('c, 'u, 's) mailboxes"

text \<open>A new node: the registry has its own task and mailbox, and is not registered itself.\<close>

definition node_new :: "node_config \<Rightarrow> ('u, 'c, 's) node_sys" where
  "node_new config =
     \<lparr>sys_socket = nc_socket config, sys_registry_up = True, sys_registry = registry_new, sys_commands = [], sys_tasks = (\<lambda>_. None),
       sys_boxes = (\<lambda>_. \<lparr>mbox_open = False, mbox_queue = []\<rparr>)\<rparr>"

text \<open>
  \<open>new_sync\<close> and \<open>new\<close>: building the runtime and binding the socket may fail, as parameters; the builder of
  the runtime panics on zero threads.
\<close>

datatype io_error = Build_Failed | Bind_Failed

definition node_new_sync ::
    "(nat \<Rightarrow> nat \<Rightarrow> bool) \<Rightarrow> (u16 \<Rightarrow> bool) \<Rightarrow> node_config \<Rightarrow> (io_error + ('u, 'c, 's) node_sys) option" where
  "node_new_sync rt_ok bind_ok config =
     (if actor_threads config = 0 then None
      else if \<not> rt_ok (actor_threads config) (actor_thread_stack_size config) then Some (Inl Build_Failed)
      else if \<not> bind_ok (sock_udp (nc_socket config)) then Some (Inl Bind_Failed)
      else Some (Inr (node_new config)))"

definition spawn_task ::
    "task_kind \<Rightarrow> 'u \<Rightarrow> string \<Rightarrow> bool \<Rightarrow> 'c \<Rightarrow> ('u, 'c, 's) node_sys \<Rightarrow> ('u, 'c, 's) node_sys" where
  "spawn_task kind variant_S name reg c sys =
     sys\<lparr>sys_tasks := (sys_tasks sys)(c \<mapsto> \<lparr>ti_name = Actor_Id variant_S name, ti_kind = kind, ti_register = reg, ti_life = Spawned\<rparr>),
       sys_boxes := (sys_boxes sys)(c := \<lparr>mbox_open = True, mbox_queue = []\<rparr>)\<rparr>"

definition node_spawn ::
    "bool \<Rightarrow> 'u \<Rightarrow> string \<Rightarrow> bool \<Rightarrow> 'c \<Rightarrow> ('u, 'c, 's) node_sys \<Rightarrow>
     ('u, 'c, 's) node_sys \<times> ('u, 's, ('u, 's) mailbox) aref" where
  "node_spawn double variant_S name reg c sys =
     (spawn_task (if double then Double_Task else Single_Task) variant_S name reg c sys,
      ctx_interface variant_S variant_S id (sys_socket sys) (Actor_Id variant_S name))"

definition node_spawn_timeout ::
    "'u \<Rightarrow> string \<Rightarrow> bool \<Rightarrow> duration \<Rightarrow> 'c \<Rightarrow> ('u, 'c, 's) node_sys \<Rightarrow>
     ('u, 'c, 's) node_sys \<times> ('u, 's, ('u, 's) mailbox) aref" where
  "node_spawn_timeout variant_S name reg timeout c sys =
     (spawn_task (Timeout_Task timeout) variant_S name reg c sys,
      ctx_interface variant_S variant_S id (sys_socket sys) (Actor_Id variant_S name))"

subsection \<open>The life of a task\<close>

definition set_life :: "'c \<Rightarrow> life \<Rightarrow> ('u, 'c, 's) node_sys \<Rightarrow> ('u, 'c, 's) node_sys" where
  "set_life c l sys = sys\<lparr>sys_tasks := (sys_tasks sys)(c := map_option (ti_life_update (\<lambda>_. l)) (sys_tasks sys c))\<rparr>"

text \<open>The receiving half of the mailbox is dropped.\<close>

definition close_box :: "'c \<Rightarrow> ('u, 'c, 's) node_sys \<Rightarrow> ('u, 'c, 's) node_sys" where
  "close_box c sys = sys\<lparr>sys_boxes := (sys_boxes sys)(c := (sys_boxes sys c)\<lparr>mbox_open := False\<rparr>)\<rparr>"

text \<open>\<open>Node::registry\<close>: nobody looks at its result, so a command to a registry that is gone is lost.\<close>

definition send_command :: "('u, 'c) registry_msg \<Rightarrow> ('u, 'c, 's) node_sys \<Rightarrow> ('u, 'c, 's) node_sys" where
  "send_command m sys = (if sys_registry_up sys then sys\<lparr>sys_commands := sys_commands sys @ [m]\<rparr> else sys)"

text \<open>The first lines of a task: a registered task asks the registry and waits for the answer.\<close>

definition task_start :: "'c \<Rightarrow> ('u, 'c, 's) node_sys \<Rightarrow> ('u, 'c, 's) node_sys option" where
  "task_start c sys =
     (case sys_tasks sys c of
        Some ti \<Rightarrow>
          (if ti_life ti \<noteq> Spawned then None
           else if ti_register ti then Some (send_command (Reg_Register (ti_name ti) c True) (set_life c Registering sys))
           else Some (set_life c Alive sys))
      | None \<Rightarrow> None)"

text \<open>
  After the last call: the name is given back, and then the mailbox is dropped.  A panic is one of the task
  that owns the mailbox; one of the primary of two tasks changes nothing here (\<open>Actor_Panics\<close> follows it).
\<close>

definition task_finish :: "'c \<Rightarrow> ('u, 'c, 's) node_sys \<Rightarrow> ('u, 'c, 's) node_sys option" where
  "task_finish c sys =
     (case sys_tasks sys c of
        Some ti \<Rightarrow>
          (if ti_life ti \<noteq> Alive then None
           else if ti_register ti then Some (send_command (Reg_Deregister (ti_name ti)) (set_life c Finishing sys))
           else Some (set_life c Finishing sys))
      | None \<Rightarrow> None)"

definition task_drop :: "'c \<Rightarrow> ('u, 'c, 's) node_sys \<Rightarrow> ('u, 'c, 's) node_sys option" where
  "task_drop c sys =
     (if map_option ti_life (sys_tasks sys c) = Some Finishing then Some (close_box c (set_life c Ended sys)) else None)"

definition task_panic :: "'c \<Rightarrow> ('u, 'c, 's) node_sys \<Rightarrow> ('u, 'c, 's) node_sys option" where
  "task_panic c sys =
     (if map_option ti_life (sys_tasks sys c) = Some Alive then Some (close_box c (set_life c Crashed sys)) else None)"

text \<open>
  The answer to a registration.  The confirmation channel is there as long as the task waits.  A task that
  gets no confirmation panics in its \<open>expect\<close>.
\<close>

definition waits :: "'c \<Rightarrow> ('u, 'c, 's) node_sys \<Rightarrow> bool" where
  "waits c sys \<longleftrightarrow> map_option ti_life (sys_tasks sys c) = Some Registering"

definition answer :: "('u, 'c) registry_msg \<Rightarrow> bool \<Rightarrow> ('u, 'c, 's) node_sys \<Rightarrow> ('u, 'c, 's) node_sys" where
  "answer m accepted sys =
     (case m of
        Reg_Register name c _ \<Rightarrow>
          (if \<not> waits c sys then sys
           else if accepted then set_life c Alive sys
           else close_box c (set_life c Crashed sys))
      | _ \<Rightarrow> sys)"

text \<open>One command of the registry.  \<open>None\<close>: no command, or a panic of the registry (below).\<close>

definition registry_step ::
    "(u8 list \<Rightarrow> 'u destination option) \<Rightarrow> ('u, 'c, 's) node_sys \<Rightarrow> ('u, 'c, 's) node_sys option" where
  "registry_step decode_dest sys =
     (case sys_commands sys of
        [] \<Rightarrow> None
      | m # rest \<Rightarrow>
          (let m' = (case m of Reg_Register name c _ \<Rightarrow> Reg_Register name c (waits c sys) | _ \<Rightarrow> m);
               free = (case m of Reg_Register name c _ \<Rightarrow> register (sys_registry sys) name = None | _ \<Rightarrow> False) in
           case registry_recv decode_dest (sys_registry sys) (sys_boxes sys) m' of
             None \<Rightarrow> None
           | Some (reg, boxes) \<Rightarrow>
               Some (answer m free (sys\<lparr>sys_registry := reg, sys_boxes := boxes, sys_commands := rest\<rparr>))))"

text \<open>
  The registry panics where \<open>registry_recv\<close> is \<open>None\<close>: its task is gone, and with it the register, the
  mailbox and the commands in it, and the channels on which tasks wait for their confirmation.  Such a task
  panics in its \<open>expect\<close> when it is polled next.
\<close>

definition registry_panic ::
    "(u8 list \<Rightarrow> 'u destination option) \<Rightarrow> ('u, 'c, 's) node_sys \<Rightarrow> ('u, 'c, 's) node_sys option" where
  "registry_panic decode_dest sys =
     (if sys_commands sys \<noteq> [] \<and> registry_step decode_dest sys = None
      then Some (sys\<lparr>sys_registry_up := False, sys_registry := registry_new, sys_commands := []\<rparr>) else None)"

definition task_unconfirmed :: "'c \<Rightarrow> ('u, 'c, 's) node_sys \<Rightarrow> ('u, 'c, 's) node_sys option" where
  "task_unconfirmed c sys =
     (if \<not> sys_registry_up sys \<and> waits c sys then Some (close_box c (set_life c Crashed sys)) else None)"

inductive node_run ::
    "(u8 list \<Rightarrow> 'u destination option) \<Rightarrow> ('u, 'c, 's) node_sys \<Rightarrow> bool" for decode_dest where
  new: "node_run decode_dest (node_new config)"
| spawn: "node_run decode_dest sys \<Longrightarrow> sys_tasks sys c = None \<Longrightarrow>
    node_run decode_dest (spawn_task kind variant_S name reg c sys)"
| start: "node_run decode_dest sys \<Longrightarrow> task_start c sys = Some sys' \<Longrightarrow> node_run decode_dest sys'"
| finish: "node_run decode_dest sys \<Longrightarrow> task_finish c sys = Some sys' \<Longrightarrow> node_run decode_dest sys'"
| drop: "node_run decode_dest sys \<Longrightarrow> task_drop c sys = Some sys' \<Longrightarrow> node_run decode_dest sys'"
| panic: "node_run decode_dest sys \<Longrightarrow> task_panic c sys = Some sys' \<Longrightarrow> node_run decode_dest sys'"
| send: "node_run decode_dest sys \<Longrightarrow>
    node_run decode_dest (sys\<lparr>sys_boxes := (sys_boxes sys)(c := snd (mailbox_send m (sys_boxes sys c)))\<rparr>)"
| forward: "node_run decode_dest sys \<Longrightarrow> node_run decode_dest (send_command (Reg_Forward mb) sys)"
| registry: "node_run decode_dest sys \<Longrightarrow> registry_step decode_dest sys = Some sys' \<Longrightarrow> node_run decode_dest sys'"
| registry_panics: "node_run decode_dest sys \<Longrightarrow> registry_panic decode_dest sys = Some sys' \<Longrightarrow> node_run decode_dest sys'"
| unconfirmed: "node_run decode_dest sys \<Longrightarrow> task_unconfirmed c sys = Some sys' \<Longrightarrow> node_run decode_dest sys'"

text \<open>Every node that is created is at the start of a run.\<close>

lemma node_new_sync_run: "node_new_sync rt_ok bind_ok config = Some (Inr sys) \<Longrightarrow> node_run decode_dest sys"
  by (auto simp: node_new_sync_def intro: node_run.new split: if_splits)

subsection \<open>Invariants\<close>

definition has_life :: "'c \<Rightarrow> life set \<Rightarrow> ('u, 'c, 's) node_sys \<Rightarrow> bool" where
  "has_life c ls sys \<longleftrightarrow> (\<exists>ti. sys_tasks sys c = Some ti \<and> ti_life ti \<in> ls)"

lemma waits_life: "waits c sys \<longleftrightarrow> has_life c {Registering} sys"
  by (auto simp: waits_def has_life_def)

text \<open>A registered task of a name.\<close>

definition owner :: "'u actor_id \<Rightarrow> 'c \<Rightarrow> ('u, 'c, 's) node_sys \<Rightarrow> bool" where
  "owner name c sys \<longleftrightarrow> (\<exists>ti. sys_tasks sys c = Some ti \<and> ti_register ti \<and> ti_name ti = name)"

lemma set_life_simps [simp]:
  "owner name c' (set_life c l sys) = owner name c' sys"
  "has_life c' ls (set_life c l sys) = (if c' = c then sys_tasks sys c \<noteq> None \<and> l \<in> ls else has_life c' ls sys)"
  "sys_registry (set_life c l sys) = sys_registry sys" "sys_commands (set_life c l sys) = sys_commands sys"
  "sys_boxes (set_life c l sys) = sys_boxes sys" "sys_registry_up (set_life c l sys) = sys_registry_up sys"
  by (auto simp: set_life_def owner_def has_life_def)

lemma set_life_tasks: "sys_tasks (set_life c l sys) = (sys_tasks sys)(c := map_option (ti_life_update (\<lambda>_. l)) (sys_tasks sys c))"
  by (simp add: set_life_def)

lemma close_box_simps [simp]:
  "owner name c' (close_box c sys) = owner name c' sys" "has_life c' ls (close_box c sys) = has_life c' ls sys"
  "sys_registry (close_box c sys) = sys_registry sys" "sys_commands (close_box c sys) = sys_commands sys"
  "sys_tasks (close_box c sys) = sys_tasks sys" "sys_registry_up (close_box c sys) = sys_registry_up sys"
  "mbox_open (sys_boxes (close_box c sys) c') = (c' \<noteq> c \<and> mbox_open (sys_boxes sys c'))"
  by (auto simp: close_box_def owner_def has_life_def)

lemma send_command_simps [simp]:
  "owner name c' (send_command m sys) = owner name c' sys" "has_life c' ls (send_command m sys) = has_life c' ls sys"
  "sys_registry (send_command m sys) = sys_registry sys" "sys_registry_up (send_command m sys) = sys_registry_up sys"
  "sys_commands (send_command m sys) = sys_commands sys @ (if sys_registry_up sys then [m] else [])"
  "sys_tasks (send_command m sys) = sys_tasks sys" "sys_boxes (send_command m sys) = sys_boxes sys"
  by (auto simp: send_command_def owner_def has_life_def)

text \<open>What is bound was accepted.\<close>

definition bindings_ok :: "('u, 'c, 's) node_sys \<Rightarrow> bool" where
  "bindings_ok sys \<longleftrightarrow>
     (\<forall>name c. register (sys_registry sys) name = Some c \<longrightarrow>
        owner name c sys \<and> has_life c {Alive, Finishing, Ended, Crashed} sys)"

text \<open>The commands come from tasks of the name they carry; a name is given back by a task that is over.\<close>

definition commands_ok :: "('u, 'c, 's) node_sys \<Rightarrow> bool" where
  "commands_ok sys \<longleftrightarrow>
     (\<forall>m\<in>set (sys_commands sys). case m of
        Reg_Register name c _ \<Rightarrow> owner name c sys
      | Reg_Deregister name \<Rightarrow> (\<exists>c. owner name c sys \<and> has_life c {Finishing, Ended} sys)
      | Reg_Forward _ \<Rightarrow> True)"

text \<open>
  A task that waits for an answer of a registry that is there has asked, and mailboxes are open until the
  end.  A registry that is gone has left nothing.
\<close>

definition waiting_ok :: "('u, 'c, 's) node_sys \<Rightarrow> bool" where
  "waiting_ok sys \<longleftrightarrow>
     (sys_registry_up sys \<longrightarrow>
        (\<forall>c. has_life c {Registering} sys \<longrightarrow> (\<exists>m\<in>set (sys_commands sys). \<exists>name f. m = Reg_Register name c f)))"

definition gone_ok :: "('u, 'c, 's) node_sys \<Rightarrow> bool" where
  "gone_ok sys \<longleftrightarrow> (\<not> sys_registry_up sys \<longrightarrow> register (sys_registry sys) = (\<lambda>_. None) \<and> sys_commands sys = [])"

definition boxes_ok :: "('u, 'c, 's) node_sys \<Rightarrow> bool" where
  "boxes_ok sys \<longleftrightarrow>
     (\<forall>c. sys_tasks sys c \<noteq> None \<longrightarrow>
        (mbox_open (sys_boxes sys c) \<longleftrightarrow> has_life c {Spawned, Registering, Alive, Finishing} sys))"

text \<open>No two registered tasks share a name, and then those that are alive are bound while the registry is there.\<close>

definition names_distinct :: "('u, 'c, 's) node_sys \<Rightarrow> bool" where
  "names_distinct sys \<longleftrightarrow> (\<forall>name c c'. owner name c sys \<longrightarrow> owner name c' sys \<longrightarrow> c = c')"

definition alive_bound :: "('u, 'c, 's) node_sys \<Rightarrow> bool" where
  "alive_bound sys \<longleftrightarrow>
     (sys_registry_up sys \<longrightarrow>
        (\<forall>name c. owner name c sys \<longrightarrow> has_life c {Alive} sys \<longrightarrow> register (sys_registry sys) name = Some c))"

definition node_inv :: "('u, 'c, 's) node_sys \<Rightarrow> bool" where
  "node_inv sys \<longleftrightarrow> bindings_ok sys \<and> commands_ok sys \<and> waiting_ok sys \<and> gone_ok sys \<and> boxes_ok sys \<and>
     (names_distinct sys \<longrightarrow> alive_bound sys)"

lemmas node_inv_defs = node_inv_def bindings_ok_def commands_ok_def waiting_ok_def gone_ok_def boxes_ok_def alive_bound_def

lemma has_life_unique: "has_life c {l} sys \<Longrightarrow> has_life c ls sys \<longleftrightarrow> l \<in> ls"
  by (auto simp: has_life_def)

lemma inv_up: "node_inv sys \<Longrightarrow> sys_commands sys \<noteq> [] \<Longrightarrow> sys_registry_up sys"
  by (auto simp: node_inv_def gone_ok_def)

lemma inv_frame:
  assumes "node_inv sys" and "sys_registry_up sys' = sys_registry_up sys" and "sys_tasks sys' = sys_tasks sys" and "sys_registry sys' = sys_registry sys"
    and "sys_commands sys' = sys_commands sys" and "\<forall>c. mbox_open (sys_boxes sys' c) = mbox_open (sys_boxes sys c)"
  shows "node_inv sys'"
proof -
  have "node_inv sys' = node_inv sys"
    unfolding node_inv_defs names_distinct_def owner_def has_life_def by (simp only: assms(2-5) assms(6)[rule_format])
  with assms(1) show ?thesis by simp
qed

text \<open>A step that changes the life of one task and closes its mailbox at the right time.\<close>

lemma inv_set_life:
  assumes inv: "node_inv sys" and c: "has_life c {old} sys" and old: "old \<in> {Spawned, Registering, Alive, Finishing}"
    and new: "old \<noteq> Spawned \<Longrightarrow> l \<in> {Finishing, Ended, Crashed}" "old = Spawned \<Longrightarrow> l = Alive \<Longrightarrow> \<forall>name. \<not> owner name c sys"
      "old = Finishing \<Longrightarrow> l = Ended" "old = Spawned \<Longrightarrow> l \<in> {Alive, Registering}"
    and asks: "l = Registering \<Longrightarrow> sys_registry_up sys \<Longrightarrow> \<exists>name f. Reg_Register name c f \<in> set ms"
    and ms: "\<forall>m\<in>set ms. case m of Reg_Register name d _ \<Rightarrow> owner name d sys
      | Reg_Deregister name \<Rightarrow> owner name c sys \<and> l \<in> {Finishing, Ended} | Reg_Forward _ \<Rightarrow> True"
    and tasks: "sys_tasks sys' = sys_tasks (set_life c l sys)" and reg: "sys_registry sys' = sys_registry sys"
    and cmds: "sys_commands sys' = sys_commands sys @ ms" and up: "sys_registry_up sys' = sys_registry_up sys"
    and lost: "\<not> sys_registry_up sys \<Longrightarrow> ms = []"
    and boxes: "\<forall>d. mbox_open (sys_boxes sys' d) = (if d = c then l \<in> {Registering, Alive, Finishing} else mbox_open (sys_boxes sys d))"
  shows "node_inv sys'"
proof -
  have ow: "owner name d sys' = owner name d sys" for name d
  proof -
    have "owner name d sys' = owner name d (set_life c l sys)" using tasks by (simp add: owner_def)
    then show ?thesis by simp
  qed
  have hl: "has_life d ls sys' = (if d = c then l \<in> ls else has_life d ls sys)" for d ls
  proof -
    have "has_life d ls sys' = has_life d ls (set_life c l sys)" using tasks by (simp add: has_life_def)
    moreover have "sys_tasks sys c \<noteq> None" using c by (auto simp: has_life_def)
    ultimately show ?thesis by simp
  qed
  have was: "has_life c ls sys \<longleftrightarrow> old \<in> ls" for ls using c by (rule has_life_unique)
  have dom: "sys_tasks sys' d \<noteq> None \<longleftrightarrow> sys_tasks sys d \<noteq> None" for d using tasks by (simp add: set_life_tasks)
  show ?thesis
    unfolding node_inv_def
  proof (intro conjI impI)
    show "bindings_ok sys'"
      unfolding bindings_ok_def reg ow hl
    proof (intro allI impI)
      fix name d
      assume "register (sys_registry sys) name = Some d"
      with inv have b: "owner name d sys" "has_life d {Alive, Finishing, Ended, Crashed} sys"
        by (auto simp: node_inv_def bindings_ok_def)
      show "owner name d sys \<and> (if d = c then l \<in> {Alive, Finishing, Ended, Crashed} else has_life d {Alive, Finishing, Ended, Crashed} sys)"
        using b new(1) was by (cases "d = c"; cases "old = Spawned") auto
    qed
    show "commands_ok sys'"
      unfolding commands_ok_def cmds ow hl set_append ball_Un
    proof (intro conjI ballI)
      fix m
      assume "m \<in> set (sys_commands sys)"
      with inv have m: "case m of Reg_Register name d _ \<Rightarrow> owner name d sys
        | Reg_Deregister name \<Rightarrow> (\<exists>d. owner name d sys \<and> has_life d {Finishing, Ended} sys) | Reg_Forward _ \<Rightarrow> True"
        by (auto simp: node_inv_def commands_ok_def)
      have "l \<in> {Finishing, Ended}" if "has_life c {Finishing, Ended} sys"
      proof -
        from that was[of "{Finishing, Ended}"] old have "old = Finishing" by auto
        with new(3) show ?thesis by simp
      qed
      then have fin: "has_life d {Finishing, Ended} sys \<Longrightarrow> (if d = c then l \<in> {Finishing, Ended} else has_life d {Finishing, Ended} sys)" for d
        by (cases "d = c") simp_all
      show "case m of Reg_Register name d _ \<Rightarrow> owner name d sys
        | Reg_Deregister name \<Rightarrow> (\<exists>d. owner name d sys \<and> (if d = c then l \<in> {Finishing, Ended} else has_life d {Finishing, Ended} sys))
        | Reg_Forward _ \<Rightarrow> True"
      proof (cases m)
        case (Reg_Deregister name)
        with m obtain d where "owner name d sys" "has_life d {Finishing, Ended} sys" by auto
        with fin[OF this(2)] show ?thesis unfolding Reg_Deregister registry_msg.case by blast
      qed (use m in simp_all)
    next
      fix m
      assume "m \<in> set ms"
      with ms show "case m of Reg_Register name d _ \<Rightarrow> owner name d sys
        | Reg_Deregister name \<Rightarrow> (\<exists>d. owner name d sys \<and> (if d = c then l \<in> {Finishing, Ended} else has_life d {Finishing, Ended} sys))
        | Reg_Forward _ \<Rightarrow> True"
      proof (cases m)
        case (Reg_Deregister name)
        with ms \<open>m \<in> set ms\<close> have "owner name c sys" "l \<in> {Finishing, Ended}" by (auto split: registry_msg.splits)
        then show ?thesis unfolding Reg_Deregister registry_msg.case by (intro exI[of _ c]) simp
      next
        case (Reg_Register name d f)
        with ms \<open>m \<in> set ms\<close> show ?thesis by (auto split: registry_msg.splits)
      qed simp
    qed
    show "gone_ok sys'" using inv lost by (simp add: node_inv_def gone_ok_def up reg cmds)
    show "waiting_ok sys'"
      unfolding waiting_ok_def cmds hl set_append up
    proof (intro allI impI)
      fix d
      assume sup: "sys_registry_up sys" and d: "if d = c then l \<in> {Registering} else has_life d {Registering} sys"
      show "\<exists>m\<in>set (sys_commands sys) \<union> set ms. \<exists>name f. m = Reg_Register name d f"
      proof (cases "d = c")
        case True
        with d asks sup show ?thesis by auto
      next
        case False
        with d inv sup have "\<exists>m\<in>set (sys_commands sys). \<exists>name f. m = Reg_Register name d f"
          by (simp add: node_inv_def waiting_ok_def)
        then show ?thesis by blast
      qed
    qed
    show "boxes_ok sys'"
      unfolding boxes_ok_def hl dom
    proof (intro allI impI)
      fix d
      assume "sys_tasks sys d \<noteq> None"
      with inv have b: "mbox_open (sys_boxes sys d) \<longleftrightarrow> has_life d {Spawned, Registering, Alive, Finishing} sys"
        by (simp add: node_inv_def boxes_ok_def)
      have "l \<noteq> Spawned" using new(1,4) by (cases "old = Spawned") auto
      then show "mbox_open (sys_boxes sys' d) \<longleftrightarrow>
          (if d = c then l \<in> {Spawned, Registering, Alive, Finishing} else has_life d {Spawned, Registering, Alive, Finishing} sys)"
        using b boxes[rule_format, of d] by simp
    qed
  next
    assume "names_distinct sys'"
    then have "names_distinct sys" by (simp add: names_distinct_def ow)
    with inv have "alive_bound sys" by (simp add: node_inv_def)
    then show "alive_bound sys'"
      using new(1,2) unfolding alive_bound_def ow hl reg up by (cases "old = Spawned") auto
  qed
qed

text \<open>The registry changes bindings and lives only in these ways.\<close>

lemma inv_registry_plain:
  assumes inv: "node_inv sys" and cmds: "sys_commands sys = m # rest" and m: "\<not> (\<exists>name c f. m = Reg_Register name c f)"
    and run: "registry_recv decode_dest (sys_registry sys) (sys_boxes sys) m = Some (reg', boxes')"
  shows "node_inv (sys\<lparr>sys_registry := reg', sys_boxes := boxes', sys_commands := rest\<rparr>)" (is "node_inv ?sys'")
proof -
  have ow: "owner name c ?sys' = owner name c sys" and hl: "has_life c ls ?sys' = has_life c ls sys" for name c ls
    by (simp_all add: owner_def has_life_def)
  have sub: "register reg' name = Some c \<Longrightarrow> register (sys_registry sys) name = Some c" for name c
    using run m by (cases m) (auto simp: registry_recv_def Let_def split: option.splits destination.splits if_splits)
  have open_same: "mbox_open (boxes' c) = mbox_open (sys_boxes sys c)" for c
    using run m by (cases m) (auto simp: registry_recv_def ser_recvr_def mailbox_send_def Let_def
        split: option.splits destination.splits if_splits)
  have gone: "(\<exists>c. register (sys_registry sys) name = Some c \<and> \<not> mbox_open (sys_boxes sys c)) \<or> m = Reg_Deregister name"
    if "register reg' name \<noteq> register (sys_registry sys) name" for name
    using run m that by (cases m) (auto simp: registry_recv_def ser_recvr_def mailbox_send_def Let_def
        split: option.splits destination.splits if_splits)
  show ?thesis
    unfolding node_inv_def
  proof (intro conjI impI)
    show "bindings_ok ?sys'" using inv sub by (auto simp: node_inv_def bindings_ok_def ow hl)
    show "commands_ok ?sys'" using inv unfolding node_inv_def commands_ok_def ow hl cmds by simp
    show "waiting_ok ?sys'" using inv m unfolding node_inv_def waiting_ok_def ow hl cmds by auto
    show "gone_ok ?sys'" using inv_up[OF inv] cmds by (simp add: gone_ok_def)
    show "boxes_ok ?sys'" using inv by (simp add: node_inv_def boxes_ok_def hl open_same)
  next
    assume d: "names_distinct ?sys'"
    then have d: "names_distinct sys" by (simp add: names_distinct_def ow)
    show "alive_bound ?sys'"
      unfolding alive_bound_def ow hl
    proof (intro allI impI)
      fix name c
      assume o: "owner name c sys" and a: "has_life c {Alive} sys"
      have up: "sys_registry_up sys" using inv_up[OF inv] cmds by simp
      from inv d o a up have b: "register (sys_registry sys) name = Some c" by (auto simp: node_inv_def alive_bound_def)
      have "register reg' name = register (sys_registry sys) name"
      proof (rule ccontr)
        assume "register reg' name \<noteq> register (sys_registry sys) name"
        from gone[OF this] show False
        proof
          assume "\<exists>c. register (sys_registry sys) name = Some c \<and> \<not> mbox_open (sys_boxes sys c)"
          with b have "\<not> mbox_open (sys_boxes sys c)" by simp
          moreover have "sys_tasks sys c \<noteq> None" using a by (auto simp: has_life_def)
          ultimately have "\<not> has_life c {Spawned, Registering, Alive, Finishing} sys"
            using inv by (simp add: node_inv_def boxes_ok_def)
          with a show False by (auto simp: has_life_def)
        next
          assume "m = Reg_Deregister name"
          with inv cmds obtain c' where "owner name c' sys" "has_life c' {Finishing, Ended} sys"
            by (auto simp: node_inv_def commands_ok_def)
          moreover from this(1) o d have "c' = c" by (auto simp: names_distinct_def)
          ultimately show False using a by (auto simp: has_life_def)
        qed
      qed
      with b show "register (sys_registry ?sys') name = Some c" by simp
    qed
  qed
qed

lemma owner_name: "owner name c sys \<Longrightarrow> owner name' c sys \<Longrightarrow> name = name'"
  by (auto simp: owner_def)

lemma waits_update [simp]:
  "waits c (sys\<lparr>sys_registry := reg\<rparr>) = waits c sys" "waits c (sys\<lparr>sys_boxes := boxes\<rparr>) = waits c sys"
  "waits c (sys\<lparr>sys_commands := cmds\<rparr>) = waits c sys"
  by (simp_all add: waits_def)

text \<open>A registration whose task no longer waits is ignored.\<close>

lemma inv_registry_late:
  assumes inv: "node_inv sys" and cmds: "sys_commands sys = Reg_Register n c f # rest" and w: "\<not> waits c sys"
  shows "node_inv (sys\<lparr>sys_commands := rest\<rparr>)" (is "node_inv ?sys'")
proof -
  have ow: "owner name c ?sys' = owner name c sys" and hl: "has_life c ls ?sys' = has_life c ls sys" for name c ls
    by (simp_all add: owner_def has_life_def)
  have "waiting_ok ?sys'"
    unfolding waiting_ok_def hl
  proof (intro allI impI)
    fix d
    assume d: "has_life d {Registering} sys"
    with w have "d \<noteq> c" by (auto simp: waits_life)
    moreover have "sys_registry_up sys" using inv_up[OF inv] cmds by simp
    moreover from this d inv have "\<exists>m\<in>set (sys_commands sys). \<exists>name f. m = Reg_Register name d f"
      by (simp add: node_inv_def waiting_ok_def)
    ultimately show "\<exists>m\<in>set (sys_commands ?sys'). \<exists>name f. m = Reg_Register name d f" unfolding cmds by auto
  qed
  moreover have "commands_ok ?sys'" using inv unfolding node_inv_def commands_ok_def ow hl cmds by simp
  moreover have "bindings_ok ?sys' = bindings_ok sys" "boxes_ok ?sys' = boxes_ok sys"
    "names_distinct ?sys' = names_distinct sys" "alive_bound ?sys' = alive_bound sys"
    by (simp_all add: bindings_ok_def boxes_ok_def names_distinct_def alive_bound_def ow hl)
  moreover have "gone_ok ?sys'" using inv_up[OF inv] cmds by (simp add: gone_ok_def)
  ultimately show ?thesis using inv by (simp add: node_inv_def)
qed

text \<open>A registration that is answered: the task becomes alive under a free name, or crashes.\<close>

lemma inv_registry_answer:
  assumes inv: "node_inv sys" and cmds: "sys_commands sys = Reg_Register n c f # rest" and w: "waits c sys"
    and free: "free \<longleftrightarrow> register (sys_registry sys) n = None"
    and tasks: "sys_tasks sys' = sys_tasks (set_life c (if free then Alive else Crashed) sys)"
    and reg: "register (sys_registry sys') = (if free then (register (sys_registry sys))(n \<mapsto> c) else register (sys_registry sys))"
    and rest: "sys_commands sys' = rest" and up': "sys_registry_up sys' = sys_registry_up sys"
    and boxes: "\<forall>d. mbox_open (sys_boxes sys' d) = (if d = c then free else mbox_open (sys_boxes sys d))"
  shows "node_inv sys'"
proof -
  let ?l = "if free then Alive else Crashed"
  have up: "sys_registry_up sys" using inv_up[OF inv] cmds by simp
  have wc: "has_life c {Registering} sys" using w by (simp add: waits_life)
  have own: "owner n c sys" using inv cmds by (simp add: node_inv_def commands_ok_def)
  have ow: "owner name d sys' = owner name d sys" for name d
  proof -
    have "owner name d sys' = owner name d (set_life c ?l sys)" using tasks by (simp add: owner_def)
    then show ?thesis by simp
  qed
  have hl: "has_life d ls sys' = (if d = c then ?l \<in> ls else has_life d ls sys)" for d ls
  proof -
    have "has_life d ls sys' = has_life d ls (set_life c ?l sys)" using tasks by (simp add: has_life_def)
    moreover have "sys_tasks sys c \<noteq> None" using wc by (auto simp: has_life_def)
    ultimately show ?thesis by simp
  qed
  note was = has_life_unique[OF wc]
  have dom: "sys_tasks sys' d \<noteq> None \<longleftrightarrow> sys_tasks sys d \<noteq> None" for d using tasks by (simp add: set_life_tasks)
  have old: "owner name d sys \<and> has_life d {Alive, Finishing, Ended, Crashed} sys \<and> d \<noteq> c"
    if "register (sys_registry sys) name = Some d" for name d
  proof -
    from that inv have b: "owner name d sys" "has_life d {Alive, Finishing, Ended, Crashed} sys"
      by (simp_all add: node_inv_def bindings_ok_def)
    moreover from b(2) was[of "{Alive, Finishing, Ended, Crashed}"] have "d \<noteq> c" by auto
    ultimately show ?thesis by simp
  qed
  show ?thesis
    unfolding node_inv_def
  proof (intro conjI impI)
    show "bindings_ok sys'"
      unfolding bindings_ok_def reg ow hl
    proof (intro allI impI)
      fix name d
      assume b: "(if free then (register (sys_registry sys))(n \<mapsto> c) else register (sys_registry sys)) name = Some d"
      show "owner name d sys \<and> (if d = c then ?l \<in> {Alive, Finishing, Ended, Crashed}
          else has_life d {Alive, Finishing, Ended, Crashed} sys)"
      proof (cases "free \<and> name = n")
        case True
        with b own show ?thesis by simp
      next
        case False
        with b have "register (sys_registry sys) name = Some d" by (simp split: if_splits)
        from old[OF this] show ?thesis by simp
      qed
    qed
    show "commands_ok sys'"
      unfolding commands_ok_def rest ow hl
    proof
      fix m
      assume "m \<in> set rest"
      with inv cmds have m: "case m of Reg_Register name d _ \<Rightarrow> owner name d sys
        | Reg_Deregister name \<Rightarrow> (\<exists>d. owner name d sys \<and> has_life d {Finishing, Ended} sys) | Reg_Forward _ \<Rightarrow> True"
        by (simp add: node_inv_def commands_ok_def)
      show "case m of Reg_Register name d _ \<Rightarrow> owner name d sys
        | Reg_Deregister name \<Rightarrow> (\<exists>d. owner name d sys \<and> (if d = c then ?l \<in> {Finishing, Ended} else has_life d {Finishing, Ended} sys))
        | Reg_Forward _ \<Rightarrow> True"
      proof (cases m)
        case (Reg_Deregister name)
        with m obtain d where d: "owner name d sys" "has_life d {Finishing, Ended} sys" by auto
        with was[of "{Finishing, Ended}"] have "d \<noteq> c" by auto
        with d show ?thesis unfolding Reg_Deregister registry_msg.case by (intro exI[of _ d]) simp
      qed (use m in simp_all)
    qed
    show "gone_ok sys'" using up up' by (simp add: gone_ok_def)
    show "waiting_ok sys'"
      unfolding waiting_ok_def rest hl
    proof (intro allI impI)
      fix d
      assume d: "if d = c then ?l \<in> {Registering} else has_life d {Registering} sys"
      then have dc: "d \<noteq> c" "has_life d {Registering} sys" by (auto split: if_splits)
      with inv up have "\<exists>m\<in>set (sys_commands sys). \<exists>name f. m = Reg_Register name d f"
        by (simp add: node_inv_def waiting_ok_def)
      with dc(1) show "\<exists>m\<in>set rest. \<exists>name f. m = Reg_Register name d f" unfolding cmds by auto
    qed
    show "boxes_ok sys'"
      unfolding boxes_ok_def hl dom
    proof (intro allI impI)
      fix d
      assume "sys_tasks sys d \<noteq> None"
      with inv have b: "mbox_open (sys_boxes sys d) \<longleftrightarrow> has_life d {Spawned, Registering, Alive, Finishing} sys"
        by (simp add: node_inv_def boxes_ok_def)
      then show "mbox_open (sys_boxes sys' d) \<longleftrightarrow>
          (if d = c then ?l \<in> {Spawned, Registering, Alive, Finishing} else has_life d {Spawned, Registering, Alive, Finishing} sys)"
        using boxes[rule_format, of d] by simp
    qed
  next
    assume "names_distinct sys'"
    then have "names_distinct sys" by (simp add: names_distinct_def ow)
    with inv have a: "alive_bound sys" by (simp add: node_inv_def)
    show "alive_bound sys'"
      unfolding alive_bound_def ow hl reg
    proof (intro allI impI)
      fix name d
      assume o: "owner name d sys" and l: "if d = c then ?l \<in> {Alive} else has_life d {Alive} sys"
      show "(if free then (register (sys_registry sys))(n \<mapsto> c) else register (sys_registry sys)) name = Some d"
      proof (cases "d = c")
        case True
        with l have "free" by (simp split: if_splits)
        with True owner_name[OF o[unfolded True] own] show ?thesis by simp
      next
        case False
        with a o l up have b: "register (sys_registry sys) name = Some d" by (simp add: alive_bound_def)
        with free have "free \<longrightarrow> name \<noteq> n" by auto
        with b show ?thesis by simp
      qed
    qed
  qed
qed

lemma inv_registry_step:
  fixes sys :: "('b, 'c, 'd) node_sys"
  assumes inv: "node_inv sys" and step: "registry_step decode_dest sys = Some sys'"
  shows "node_inv sys'"
proof -
  from step obtain m rest where cmds: "sys_commands sys = m # rest" by (auto simp: registry_step_def split: list.splits)
  show ?thesis
  proof (cases "\<exists>name c f. m = Reg_Register name c f")
    case False
    then have m: "(case m of Reg_Register name c _ \<Rightarrow> Reg_Register name c (waits c sys) | _ \<Rightarrow> m) = m"
      and ans: "answer m b s = s" for b and s :: "('b, 'c, 'd) node_sys"
      by (cases m; simp add: answer_def)+
    from step obtain reg boxes where run: "registry_recv decode_dest (sys_registry sys) (sys_boxes sys) m = Some (reg, boxes)"
      and sys': "sys' = sys\<lparr>sys_registry := reg, sys_boxes := boxes, sys_commands := rest\<rparr>"
      by (auto simp: registry_step_def cmds m ans split: option.splits)
    show ?thesis unfolding sys' by (rule inv_registry_plain[OF inv cmds False run])
  next
    case True
    then obtain n c f where m: "m = Reg_Register n c f" by blast
    note cmds = cmds[unfolded m]
    let ?free = "register (sys_registry sys) n = None"
    show ?thesis
    proof (cases "waits c sys")
      case False
      with step have "sys' = sys\<lparr>sys_commands := rest\<rparr>"
        by (auto simp: registry_step_def cmds registry_recv_def answer_def waits_def split: option.splits)
      then show ?thesis using inv_registry_late[OF inv cmds False] by simp
    next
      case True
      have "register (sys_registry sys') = (if ?free then (register (sys_registry sys))(n \<mapsto> c) else register (sys_registry sys)) \<and>
        sys_tasks sys' = sys_tasks (set_life c (if ?free then Alive else Crashed) sys) \<and> sys_commands sys' = rest \<and>
        sys_registry_up sys' = sys_registry_up sys \<and>
        (\<forall>d. mbox_open (sys_boxes sys' d) = (if d = c then ?free \<and> mbox_open (sys_boxes sys c) else mbox_open (sys_boxes sys d)))"
        using step True
        by (cases ?free) (auto simp: registry_step_def cmds registry_recv_def answer_def waits_def set_life_def close_box_def split: option.splits)
      moreover have "mbox_open (sys_boxes sys c)"
      proof -
        from True have "has_life c {Registering} sys" by (simp add: waits_life)
        then have "sys_tasks sys c \<noteq> None" "has_life c {Spawned, Registering, Alive, Finishing} sys" by (auto simp: has_life_def)
        with inv show ?thesis by (simp add: node_inv_def boxes_ok_def)
      qed
      ultimately show ?thesis using inv_registry_answer[OF inv cmds True refl, of sys'] by auto
    qed
  qed
qed

lemma inv_spawn:
  assumes inv: "node_inv sys" and c: "sys_tasks sys c = None"
  shows "node_inv (spawn_task kind v name reg c sys)" (is "node_inv ?sys'")
proof -
  have own_c: "\<not> owner n c sys" and life_c: "\<not> has_life c ls sys" for n ls using c by (simp_all add: owner_def has_life_def)
  have ow: "owner n d ?sys' = (if d = c then reg \<and> n = Actor_Id v name else owner n d sys)" for n d
    by (auto simp: owner_def spawn_task_def)
  have hl: "has_life d ls ?sys' = (if d = c then Spawned \<in> ls else has_life d ls sys)" for d ls
    by (simp add: has_life_def spawn_task_def)
  have same: "sys_registry ?sys' = sys_registry sys" "sys_commands ?sys' = sys_commands sys"
    "sys_registry_up ?sys' = sys_registry_up sys"
    by (simp_all add: spawn_task_def)
  show ?thesis
    unfolding node_inv_def
  proof (intro conjI impI)
    show "bindings_ok ?sys'"
      unfolding bindings_ok_def ow hl same
    proof (intro allI impI)
      fix n d
      assume "register (sys_registry sys) n = Some d"
      with inv have "owner n d sys" "has_life d {Alive, Finishing, Ended, Crashed} sys" by (simp_all add: node_inv_def bindings_ok_def)
      with own_c show "(if d = c then reg \<and> n = Actor_Id v name else owner n d sys) \<and>
        (if d = c then Spawned \<in> {Alive, Finishing, Ended, Crashed} else has_life d {Alive, Finishing, Ended, Crashed} sys)" by auto
    qed
    show "commands_ok ?sys'"
      unfolding commands_ok_def ow hl same
    proof
      fix m
      assume "m \<in> set (sys_commands sys)"
      with inv have m: "case m of Reg_Register n d _ \<Rightarrow> owner n d sys
        | Reg_Deregister n \<Rightarrow> (\<exists>d. owner n d sys \<and> has_life d {Finishing, Ended} sys) | Reg_Forward _ \<Rightarrow> True"
        by (simp add: node_inv_def commands_ok_def)
      show "case m of Reg_Register n d _ \<Rightarrow> (if d = c then reg \<and> n = Actor_Id v name else owner n d sys)
        | Reg_Deregister n \<Rightarrow> (\<exists>d. (if d = c then reg \<and> n = Actor_Id v name else owner n d sys) \<and>
            (if d = c then Spawned \<in> {Finishing, Ended} else has_life d {Finishing, Ended} sys))
        | Reg_Forward _ \<Rightarrow> True"
      proof (cases m)
        case (Reg_Register n d f)
        with m own_c show ?thesis by auto
      next
        case (Reg_Deregister n)
        with m obtain d where d: "owner n d sys" "has_life d {Finishing, Ended} sys" by auto
        with own_c have "d \<noteq> c" by auto
        with d show ?thesis unfolding Reg_Deregister registry_msg.case by (intro exI[of _ d]) simp
      qed simp
    qed
    show "waiting_ok ?sys'" using inv unfolding node_inv_def waiting_ok_def hl same by simp
    show "gone_ok ?sys'" using inv unfolding node_inv_def gone_ok_def same by simp
    show "boxes_ok ?sys'"
      unfolding boxes_ok_def hl using inv by (auto simp: node_inv_def boxes_ok_def spawn_task_def)
  next
    assume d: "names_distinct ?sys'"
    have "names_distinct sys"
      unfolding names_distinct_def
    proof (intro allI impI)
      fix n d d'
      assume o: "owner n d sys" "owner n d' sys"
      with own_c have "d \<noteq> c" "d' \<noteq> c" by auto
      with o have "owner n d ?sys'" "owner n d' ?sys'" by (simp_all add: ow)
      with d show "d = d'" unfolding names_distinct_def by blast
    qed
    with inv have "alive_bound sys" by (simp add: node_inv_def)
    then show "alive_bound ?sys'" unfolding alive_bound_def ow hl same by simp
  qed
qed

lemma node_run_inv: "node_run decode_dest sys \<Longrightarrow> node_inv sys"
proof (induction rule: node_run.induct)
  case (new config)
  show ?case by (simp add: node_inv_defs names_distinct_def node_new_def registry_new_def owner_def has_life_def)
next
  case (spawn sys c kind v name reg)
  show ?case by (rule inv_spawn[OF spawn.IH spawn.hyps(2)])
next
  case (start sys c sys')
  from start.hyps(2) obtain ti where ti: "sys_tasks sys c = Some ti" "ti_life ti = Spawned" by (auto simp: task_start_def split: option.splits if_splits)
  then have l: "has_life c {Spawned} sys" and ow: "owner name c sys \<longleftrightarrow> ti_register ti \<and> name = ti_name ti" for name
    by (auto simp: has_life_def owner_def)
  from start.IH ti have box: "mbox_open (sys_boxes sys c)" by (auto simp: node_inv_def boxes_ok_def has_life_def)
  show ?case
  proof (cases "ti_register ti")
    case True
    with start.hyps(2) ti have s: "sys' = send_command (Reg_Register (ti_name ti) c True) (set_life c Registering sys)"
      by (simp add: task_start_def)
    show ?thesis
      by (rule inv_set_life[OF start.IH l, where l = Registering and
            ms = "if sys_registry_up sys then [Reg_Register (ti_name ti) c True] else []"])
        (use s ow True box in auto)
  next
    case False
    with start.hyps(2) ti have s: "sys' = set_life c Alive sys" by (simp add: task_start_def)
    show ?thesis
      by (rule inv_set_life[OF start.IH l, where l = Alive and ms = "[]"]) (use s ow False box in simp_all)
  qed
next
  case (finish sys c sys')
  from finish.hyps(2) obtain ti where ti: "sys_tasks sys c = Some ti" "ti_life ti = Alive" by (auto simp: task_finish_def split: option.splits if_splits)
  then have l: "has_life c {Alive} sys" and ow: "owner name c sys \<longleftrightarrow> ti_register ti \<and> name = ti_name ti" for name
    by (auto simp: has_life_def owner_def)
  from finish.IH ti have box: "mbox_open (sys_boxes sys c)" by (auto simp: node_inv_def boxes_ok_def has_life_def)
  let ?ms = "if ti_register ti \<and> sys_registry_up sys then [Reg_Deregister (ti_name ti)] else []"
  from finish.hyps(2) ti have s: "sys_tasks sys' = sys_tasks (set_life c Finishing sys)" "sys_registry sys' = sys_registry sys"
    "sys_commands sys' = sys_commands sys @ ?ms" "sys_boxes sys' = sys_boxes sys" "sys_registry_up sys' = sys_registry_up sys"
    by (cases "ti_register ti"; auto simp: task_finish_def)+
  show ?case
    by (rule inv_set_life[OF finish.IH l, where l = Finishing and ms = ?ms]) (use s ow box in auto)
next
  case (drop sys c sys')
  then have l: "has_life c {Finishing} sys" and s: "sys' = close_box c (set_life c Ended sys)"
    by (auto simp: task_drop_def has_life_def split: if_splits)
  show ?case by (rule inv_set_life[OF drop.IH l, where l = Ended and ms = "[]"]) (use s in simp_all)
next
  case (panic sys c sys')
  then have l: "has_life c {Alive} sys" and s: "sys' = close_box c (set_life c Crashed sys)"
    by (auto simp: task_panic_def has_life_def split: if_splits)
  show ?case by (rule inv_set_life[OF panic.IH l, where l = Crashed and ms = "[]"]) (use s in simp_all)
next
  case (send sys c m)
  show ?case by (rule inv_frame[OF send.IH]) (auto simp: mailbox_send_def)
next
  case (forward sys mb)
  let ?s = "send_command (Reg_Forward mb) sys"
  have "commands_ok ?s = commands_ok sys"
    unfolding commands_ok_def send_command_simps by (cases "sys_registry_up sys") simp_all
  moreover have "bindings_ok ?s = bindings_ok sys" "boxes_ok ?s = boxes_ok sys"
    "names_distinct ?s = names_distinct sys" "alive_bound ?s = alive_bound sys" "waiting_ok sys \<Longrightarrow> waiting_ok ?s"
    by (simp_all add: bindings_ok_def boxes_ok_def names_distinct_def alive_bound_def waiting_ok_def)
  moreover have "gone_ok ?s = gone_ok sys" by (simp add: gone_ok_def)
  ultimately show ?case using forward.IH by (simp add: node_inv_def)
next
  case (registry sys sys')
  show ?case by (rule inv_registry_step[OF registry.IH registry.hyps(2)])
next
  case (registry_panics sys sys')
  then have "sys' = sys\<lparr>sys_registry_up := False, sys_registry := registry_new, sys_commands := []\<rparr>"
    by (simp add: registry_panic_def split: if_splits)
  moreover have "boxes_ok (sys\<lparr>sys_registry_up := False, sys_registry := registry_new, sys_commands := []\<rparr>) = boxes_ok sys"
    by (simp add: boxes_ok_def has_life_def)
  ultimately show ?case
    using registry_panics.IH
    by (simp add: node_inv_def bindings_ok_def commands_ok_def waiting_ok_def gone_ok_def alive_bound_def registry_new_def)
next
  case (unconfirmed sys c sys')
  then have l: "has_life c {Registering} sys" and s: "sys' = close_box c (set_life c Crashed sys)"
    by (auto simp: task_unconfirmed_def waits_life split: if_splits)
  show ?case by (rule inv_set_life[OF unconfirmed.IH l, where l = Crashed and ms = "[]"]) (use s in simp_all)
qed

subsection \<open>Draining the commands\<close>

fun registry_drain ::
    "(u8 list \<Rightarrow> 'u destination option) \<Rightarrow> nat \<Rightarrow> ('u, 'c, 's) node_sys \<Rightarrow> ('u, 'c, 's) node_sys option" where
  "registry_drain decode_dest 0 sys = Some sys"
| "registry_drain decode_dest (Suc n) sys =
     (case registry_step decode_dest sys of None \<Rightarrow> None | Some sys' \<Rightarrow> registry_drain decode_dest n sys')"

lemma registry_step_returns:
  assumes "sys_commands sys = m # rest" and "\<forall>mb. m = Reg_Forward mb \<longrightarrow> decode_dest (mb_dest mb) \<noteq> None"
  shows "\<exists>sys'. registry_step decode_dest sys = Some sys' \<and> sys_commands sys' = rest \<and> sys_registry_up sys' = sys_registry_up sys"
proof -
  have "registry_recv decode_dest (sys_registry sys) (sys_boxes sys)
      (case m of Reg_Register name c _ \<Rightarrow> Reg_Register name c (waits c sys) | _ \<Rightarrow> m) \<noteq> None"
    using assms(2) by (cases m) (auto simp: registry_recv_def Let_def split: option.splits destination.splits)
  then obtain reg boxes where "registry_recv decode_dest (sys_registry sys) (sys_boxes sys)
      (case m of Reg_Register name c _ \<Rightarrow> Reg_Register name c (waits c sys) | _ \<Rightarrow> m) = Some (reg, boxes)" by auto
  moreover have "sys_commands (answer m b s) = sys_commands s" "sys_registry_up (answer m b s) = sys_registry_up s" for b and s :: "('a, 'b, 'c) node_sys"
    by (cases m; simp add: answer_def)+
  ultimately show ?thesis by (simp add: registry_step_def assms(1))
qed

lemma registry_drain_returns:
  assumes "node_run decode_dest sys" and "\<forall>mb. Reg_Forward mb \<in> set (sys_commands sys) \<longrightarrow> decode_dest (mb_dest mb) \<noteq> None"
    and "n = length (sys_commands sys)"
  shows "\<exists>sys'. registry_drain decode_dest n sys = Some sys' \<and> node_run decode_dest sys' \<and> sys_commands sys' = [] \<and>
    sys_registry_up sys' = sys_registry_up sys"
  using assms
proof (induction n arbitrary: sys)
  case 0
  then show ?case by simp
next
  case (Suc n)
  then obtain m rest where cmds: "sys_commands sys = m # rest" by (cases "sys_commands sys") auto
  obtain sys1 where s1: "registry_step decode_dest sys = Some sys1" "sys_commands sys1 = rest"
    "sys_registry_up sys1 = sys_registry_up sys"
    using registry_step_returns[OF cmds, of decode_dest] Suc.prems(2) cmds by auto
  have "node_run decode_dest sys1" using node_run.registry[OF Suc.prems(1) s1(1)] .
  moreover have "\<forall>mb. Reg_Forward mb \<in> set (sys_commands sys1) \<longrightarrow> decode_dest (mb_dest mb) \<noteq> None" "n = length (sys_commands sys1)"
    using Suc.prems(2,3) cmds s1(2) by simp_all
  ultimately show ?case using Suc.IH[of sys1] s1(1,3) by simp
qed

subsection \<open>Properties\<close>

text \<open>
  Property C10.  Registered actors are reachable while the registry lives.  As long as no two registered
  actors of a node are spawned under one name and the registry has not panicked, every one of them is bound in
  the registry from its first call to its last, whatever other actors, messages and panics of actors there
  are: a message for its name is put into its mailbox.  The registry panics on a message whose destination
  cannot be decoded; from then on no name is bound, and no command, no registration included, is taken any more.
\<close>

theorem registered_actors_reachable:
  assumes "node_run decode_dest sys" and "names_distinct sys"
    and "owner name c sys" and "has_life c {Alive} sys"
    and "decode_dest (mb_dest mb) = Some (Destination name interface)"
  shows "if sys_registry_up sys then
      register (sys_registry sys) name = Some c \<and>
      registry_recv decode_dest (sys_registry sys) (sys_boxes sys) (Reg_Forward mb) =
        Some (sys_registry sys, (sys_boxes sys)(c := (sys_boxes sys c)\<lparr>mbox_queue := mbox_queue (sys_boxes sys c) @ [Serial interface mb]\<rparr>)) \<and>
      (\<forall>bad rest. sys_commands sys = Reg_Forward bad # rest \<and> decode_dest (mb_dest bad) = None \<longrightarrow>
         (\<exists>sys'. registry_panic decode_dest sys = Some sys' \<and> \<not> sys_registry_up sys'))
    else register (sys_registry sys) name = None \<and> sys_commands sys = [] \<and> (\<forall>m. send_command m sys = sys)"
proof -
  from node_run_inv[OF assms(1)] have inv: "node_inv sys" .
  show ?thesis
  proof (cases "sys_registry_up sys")
    case True
    with inv assms(2-4) have reg: "register (sys_registry sys) name = Some c" by (simp add: node_inv_def alive_bound_def)
    from assms(4) have "sys_tasks sys c \<noteq> None" "has_life c {Spawned, Registering, Alive, Finishing} sys" by (auto simp: has_life_def)
    with inv have "mbox_open (sys_boxes sys c)" by (simp add: node_inv_def boxes_ok_def)
    moreover have "\<exists>sys'. registry_panic decode_dest sys = Some sys' \<and> \<not> sys_registry_up sys'"
      if "sys_commands sys = Reg_Forward bad # rest" "decode_dest (mb_dest bad) = None" for bad rest
      using that by (simp add: registry_panic_def registry_step_def registry_recv_def)
    ultimately show ?thesis using reg assms(5) True by (simp add: registry_recv_def ser_recvr_def mailbox_send_def Let_def)
  next
    case False
    with inv show ?thesis by (simp add: node_inv_def gone_ok_def send_command_def)
  qed
qed

text \<open>
  Fact.  Every registration is answered.  A registry that has not panicked works off its commands, provided
  that the destinations of the forwarded messages can be decoded; then no task waits for its answer any more.
\<close>

theorem registrations_answered:
  assumes "node_run decode_dest sys" and "\<forall>mb. Reg_Forward mb \<in> set (sys_commands sys) \<longrightarrow> decode_dest (mb_dest mb) \<noteq> None"
    and "sys_registry_up sys"
  shows "\<exists>sys'. registry_drain decode_dest (length (sys_commands sys)) sys = Some sys' \<and> sys_commands sys' = [] \<and>
    (\<forall>c. \<not> has_life c {Registering} sys')"
proof -
  from registry_drain_returns[OF assms(1,2) refl] obtain sys' where
    s: "registry_drain decode_dest (length (sys_commands sys)) sys = Some sys'" "node_run decode_dest sys'" "sys_commands sys' = []"
    "sys_registry_up sys'" using assms(3) by blast
  from node_run_inv[OF s(2)] have "waiting_ok sys'" by (simp add: node_inv_def)
  with s(3,4) have "\<forall>c. \<not> has_life c {Registering} sys'" by (simp add: waiting_ok_def)
  with s show ?thesis by blast
qed

text \<open>
  Fact.  A name is given to one task.  When the registry answers a waiting task, the task starts if the
  name is free, and is then the one bound to it; if the name is taken, the task panics without a call to its
  actor, its mailbox closes, and the other task keeps the name.
\<close>

theorem registration_answer:
  assumes "node_run decode_dest sys" and "sys_commands sys = Reg_Register name c f # rest" and "has_life c {Registering} sys"
  shows "\<exists>sys'. registry_step decode_dest sys = Some sys' \<and>
    (case register (sys_registry sys) name of
       None \<Rightarrow> has_life c {Alive} sys' \<and> mbox_open (sys_boxes sys' c) \<and>
         register (sys_registry sys') = (register (sys_registry sys))(name \<mapsto> c)
     | Some d \<Rightarrow> d \<noteq> c \<and> has_life c {Crashed} sys' \<and> \<not> mbox_open (sys_boxes sys' c) \<and> sys_registry sys' = sys_registry sys)"
proof -
  have w: "waits c sys" using assms(3) by (simp add: waits_life)
  have inv: "node_inv sys" by (rule node_run_inv[OF assms(1)])
  have t: "sys_tasks sys c \<noteq> None" "has_life c {Spawned, Registering, Alive, Finishing} sys" using assms(3) by (auto simp: has_life_def)
  with inv have box: "mbox_open (sys_boxes sys c)" by (simp add: node_inv_def boxes_ok_def)
  show ?thesis
  proof (cases "register (sys_registry sys) name")
    case None
    let ?sys' = "set_life c Alive (sys\<lparr>sys_registry := (sys_registry sys)\<lparr>register := (register (sys_registry sys))(name \<mapsto> c)\<rparr>, sys_commands := rest\<rparr>)"
    have "registry_step decode_dest sys = Some ?sys'"
      using w by (simp add: registry_step_def assms(2) registry_recv_def answer_def None)
    moreover have "has_life c {Alive} ?sys' \<and> mbox_open (sys_boxes ?sys' c) \<and>
        register (sys_registry ?sys') = (register (sys_registry sys))(name \<mapsto> c)"
      using t(1) box by simp
    ultimately show ?thesis using None by auto
  next
    case (Some d)
    let ?sys' = "close_box c (set_life c Crashed (sys\<lparr>sys_commands := rest\<rparr>))"
    have "registry_step decode_dest sys = Some ?sys'"
      using w by (simp add: registry_step_def assms(2) registry_recv_def answer_def Some)
    moreover have "has_life c {Crashed} ?sys' \<and> \<not> mbox_open (sys_boxes ?sys' c) \<and> sys_registry ?sys' = sys_registry sys"
      using t(1) by simp
    moreover have "d \<noteq> c"
    proof
      assume "d = c"
      with Some inv have "has_life c {Alive, Finishing, Ended, Crashed} sys" by (simp add: node_inv_def bindings_ok_def)
      with has_life_unique[OF assms(3), of "{Alive, Finishing, Ended, Crashed}"] show False by simp
    qed
    ultimately show ?thesis using Some by auto
  qed
qed

subsection \<open>Instances\<close>

text \<open>A node on which an actor of the name \<open>a\<close> asks for its registration, and has got it.\<close>

definition sample_actor :: "nat actor_id" where
  "sample_actor = Actor_Id 0 ''a''"

definition sample_task :: "life \<Rightarrow> nat task_info" where
  "sample_task l = \<lparr>ti_name = sample_actor, ti_kind = Single_Task, ti_register = True, ti_life = l\<rparr>"

definition sample_decode :: "u8 list \<Rightarrow> nat destination option" where
  "sample_decode = (\<lambda>_. Some (Destination sample_actor 0))"

definition sample_asking :: "(nat, nat, nat) node_sys" where
  "sample_asking = \<lparr>sys_socket = socket_default, sys_registry_up = True, sys_registry = \<lparr>register = (\<lambda>_. None)\<rparr>,
     sys_commands = [Reg_Register sample_actor 0 True], sys_tasks = [0 \<mapsto> sample_task Registering],
     sys_boxes = (\<lambda>_. \<lparr>mbox_open = False, mbox_queue = []\<rparr>)(0 := \<lparr>mbox_open = True, mbox_queue = []\<rparr>)\<rparr>"

definition sample_bound :: "(nat, nat, nat) node_sys" where
  "sample_bound = \<lparr>sys_socket = socket_default, sys_registry_up = True, sys_registry = \<lparr>register = [sample_actor \<mapsto> 0]\<rparr>,
     sys_commands = [], sys_tasks = [0 \<mapsto> sample_task Alive],
     sys_boxes = (\<lambda>_. \<lparr>mbox_open = False, mbox_queue = []\<rparr>)(0 := \<lparr>mbox_open = True, mbox_queue = []\<rparr>)\<rparr>"

lemma sample_asking_run: "node_run sample_decode sample_asking"
proof -
  have "node_run sample_decode (spawn_task Single_Task 0 ''a'' True 0 (node_new (default_node_config 1)) :: (nat, nat, nat) node_sys)"
    by (rule node_run.spawn[OF node_run.new]) (simp add: node_new_def)
  moreover have "task_start 0 (spawn_task Single_Task 0 ''a'' True 0 (node_new (default_node_config 1))) = Some sample_asking"
    by (simp add: sample_asking_def spawn_task_def node_new_def task_start_def set_life_def send_command_def registry_new_def
        sample_task_def sample_actor_def default_node_config_def)
  ultimately show ?thesis by (rule node_run.start)
qed

lemma sample_bound_run: "node_run sample_decode sample_bound"
proof (rule node_run.registry[OF sample_asking_run])
  show "registry_step sample_decode sample_asking = Some sample_bound"
    by (simp add: sample_asking_def sample_bound_def registry_step_def registry_recv_def answer_def waits_def set_life_def sample_task_def)
qed

theorem registered_actors_reachable_witness:
  "\<exists>w. registry_recv sample_decode (sys_registry sample_bound) (sys_boxes sample_bound) (Reg_Forward (mb_new sample_header)) =
     Some (sys_registry sample_bound, w) \<and> mbox_queue (w 0) = [Serial 0 (mb_new sample_header)]"
proof -
  have "names_distinct sample_bound" "owner sample_actor 0 sample_bound" "has_life 0 {Alive} sample_bound"
    by (auto simp: names_distinct_def owner_def has_life_def sample_bound_def sample_task_def split: if_splits)
  from registered_actors_reachable[OF sample_bound_run this, of "mb_new sample_header" 0] show ?thesis
    by (simp add: sample_decode_def sample_bound_def split: if_splits)
qed

theorem registrations_answered_witness:
  "\<exists>sys'. registry_drain sample_decode 1 sample_asking = Some sys' \<and> \<not> has_life 0 {Registering} sys'"
  using registrations_answered[OF sample_asking_run] by (simp add: sample_asking_def) blast

theorem registration_answer_witness:
  "\<exists>sys'. registry_step sample_decode sample_asking = Some sys' \<and> has_life 0 {Alive} sys'"
proof -
  have "sys_commands sample_asking = [Reg_Register sample_actor 0 True]" "has_life 0 {Registering} sample_asking"
    "register (sys_registry sample_asking) sample_actor = None"
    by (simp_all add: sample_asking_def has_life_def sample_task_def)
  with registration_answer[OF sample_asking_run this(1,2)] show ?thesis by auto
qed

text \<open>
  Fact.  A late deregistration takes the name from its next owner.  An actor that ends gives its name
  back by name only; if a message for it and the registration of its successor are ahead of that in the
  queue of the registry, the failed delivery frees the name, the successor gets it, and the deregistration
  then removes the successor: it runs, with an open mailbox, but no remote message reaches it.
\<close>

theorem late_deregistration:
  "\<exists>sys :: (nat, nat, nat) node_sys. node_run sample_decode sys \<and> sys_commands sys = [] \<and>
     owner sample_actor 1 sys \<and> has_life 1 {Alive} sys \<and> mbox_open (sys_boxes sys 1) \<and>
     register (sys_registry sys) sample_actor = None"
proof -
  define s2 where "s2 = spawn_task Single_Task 0 ''a'' True 1 (send_command (Reg_Forward (mb_new sample_header)) sample_bound)"
  define s3 where "s3 = the (task_drop 0 (the (task_finish 0 (the (task_start 1 s2)))))"
  define s4 where "s4 = the (registry_drain sample_decode 3 s3)"
  have r2: "node_run sample_decode s2"
    unfolding s2_def by (intro node_run.spawn node_run.forward sample_bound_run) (simp add: sample_bound_def)
  have e3: "task_start 1 s2 = Some (the (task_start 1 s2))" "task_finish 0 (the (task_start 1 s2)) = Some (the (task_finish 0 (the (task_start 1 s2))))"
    "task_drop 0 (the (task_finish 0 (the (task_start 1 s2)))) = Some s3"
    by (simp_all add: s3_def s2_def sample_bound_def spawn_task_def send_command_def task_start_def task_finish_def task_drop_def
        set_life_def sample_task_def)
  have r3: "node_run sample_decode s3" by (rule node_run.drop[OF node_run.finish[OF node_run.start[OF r2 e3(1)] e3(2)] e3(3)])
  have s3: "s3 = \<lparr>sys_socket = socket_default, sys_registry_up = True, sys_registry = \<lparr>register = [sample_actor \<mapsto> 0]\<rparr>,
      sys_commands = [Reg_Forward (mb_new sample_header), Reg_Register sample_actor 1 True, Reg_Deregister sample_actor],
      sys_tasks = [0 \<mapsto> sample_task Ended, 1 \<mapsto> sample_task Registering],
      sys_boxes = (\<lambda>_. \<lparr>mbox_open = False, mbox_queue = []\<rparr>)(0 := \<lparr>mbox_open = False, mbox_queue = []\<rparr>, 1 := \<lparr>mbox_open = True, mbox_queue = []\<rparr>)\<rparr>"
    by (simp add: s3_def s2_def sample_bound_def spawn_task_def send_command_def task_start_def task_finish_def task_drop_def
        set_life_def close_box_def fun_upd_twist sample_task_def sample_actor_def)
  have dec: "\<forall>mb. Reg_Forward mb \<in> set (sys_commands s3) \<longrightarrow> sample_decode (mb_dest mb) \<noteq> None" by (simp add: sample_decode_def)
  from registry_drain_returns[OF r3 dec, of 3] have r4: "node_run sample_decode s4" and c4: "sys_commands s4 = []"
    by (auto simp: s3 s4_def)
  have "owner sample_actor 1 s4 \<and> has_life 1 {Alive} s4 \<and> mbox_open (sys_boxes s4 1) \<and> register (sys_registry s4) sample_actor = None"
    unfolding s4_def s3
    by (simp add: numeral_3_eq_3 registry_step_def registry_recv_def ser_recvr_def mailbox_send_def Let_def answer_def waits_def
        set_life_def owner_def has_life_def sample_decode_def sample_task_def)
  with r4 c4 show ?thesis by blast
qed

end
