(* ===== verification/Actor_Panics.thy ===== *)
theory Actor_Panics
  imports Actor_Tasks
begin

text \<open>
  A panic in a handler of an actor that runs on two tasks (core/actor_tasks_unit.rs).  The panic ends the
  primary task only: its receiver and its context are dropped, and nothing tells the secondary, which owns the
  mailbox.  From then on messages come from the registry, as long as the actor is bound there
  (core/registry.rs), and from whoever holds a reference.
\<close>

text \<open>\<open>actor.recv\<close> panics: the call is made, and the primary is gone.\<close>

definition handler_panic :: "('u, 's) double_task \<Rightarrow> ('u, 's) double_task option" where
  "handler_panic t =
     (case (pri_phase t, pri_rx t) of
        (Running, P_Msg m # rest) \<Rightarrow> Some (t\<lparr>pri_rx := rest, dt_calls := dt_calls t @ [Recv m], pri_phase := Panicked\<rparr>)
      | _ \<Rightarrow> None)"

text \<open>
  The actor as the registry sees it: its name is bound to its only mailbox, which is open as long as the
  secondary runs.  A message is forwarded by \<open>Registry::recv\<close> itself.
\<close>

definition own_registry :: "'u actor_id \<Rightarrow> ('u, 's) double_task \<Rightarrow> ('u, unit) registry" where
  "own_registry name t = \<lparr>register = (\<lambda>n. if registry_tx t \<and> n = name then Some () else None)\<rparr>"

definition own_box :: "('u, 's) double_task \<Rightarrow> (unit, 'u, 's) mailboxes" where
  "own_box t = (\<lambda>_. \<lparr>mbox_open = (sec_phase t = Running), mbox_queue = sec_rx t\<rparr>)"

definition forward_own ::
    "(u8 list \<Rightarrow> 'u destination option) \<Rightarrow> 'u actor_id \<Rightarrow> message_builder \<Rightarrow> ('u, 's) double_task \<Rightarrow>
     ('u, 's) double_task option" where
  "forward_own decode_dest name mb t =
     map_option (\<lambda>(reg, boxes). t\<lparr>registry_tx := register reg name \<noteq> None, sec_rx := mbox_queue (boxes ())\<rparr>)
       (registry_recv decode_dest (own_registry name t) (own_box t) (Reg_Forward mb))"

text \<open>
  Runs after the panic: \<open>calls\<close> are the calls up to it, \<open>late\<close> the messages that reach the mailbox, or find
  it closed, after it.  \<open>unbound\<close> is set when the actor was not registered in the first place, or when its
  binding is removed from outside, by a deregistration of the same name or the end of the registry.
\<close>

inductive orphan_run ::
    "(u8 list \<Rightarrow> 'u destination option) \<Rightarrow> 'u actor_id \<Rightarrow> ('u, 's) deserializer \<Rightarrow> 's actor_call list \<Rightarrow>
     ('u, 's) actor_msg list \<Rightarrow> bool \<Rightarrow> ('u, 's) double_task \<Rightarrow> bool"
  for decode_dest name deser calls where
  panic: "double_run deser sent t \<Longrightarrow> handler_panic t = Some t' \<Longrightarrow> calls = dt_calls t' \<Longrightarrow>
    orphan_run decode_dest name deser calls [] (\<not> registry_tx t') t'"
| forward: "orphan_run decode_dest name deser calls late u t \<Longrightarrow> registry_tx t \<Longrightarrow>
    decode_dest (mb_dest mb) = Some (Destination name i) \<Longrightarrow> forward_own decode_dest name mb t = Some t' \<Longrightarrow>
    orphan_run decode_dest name deser calls (late @ [Serial i mb]) u t'"
| send: "orphan_run decode_dest name deser calls late u t \<Longrightarrow> ref_tx t \<Longrightarrow>
    orphan_run decode_dest name deser calls (late @ [Msg x]) u (if sec_phase t = Running then t\<lparr>sec_rx := sec_rx t @ [Msg x]\<rparr> else t)"
| forget: "orphan_run decode_dest name deser calls late u t \<Longrightarrow>
    orphan_run decode_dest name deser calls late u (t\<lparr>ref_tx := False\<rparr>)"
| unbind: "orphan_run decode_dest name deser calls late u t \<Longrightarrow>
    orphan_run decode_dest name deser calls late True (t\<lparr>registry_tx := False\<rparr>)"
| secondary: "orphan_run decode_dest name deser calls late u t \<Longrightarrow> secondary_step deser t = Some t' \<Longrightarrow>
    orphan_run decode_dest name deser calls late u t'"
| primary: "orphan_run decode_dest name deser calls late u t \<Longrightarrow> primary_step t = Some t' \<Longrightarrow>
    orphan_run decode_dest name deser calls late u t'"

subsection \<open>The invariant\<close>

text \<open>
  No call is made any more, and the secondary waits for a request that never comes.  As long as the late
  messages can be decoded it keeps every message, and it runs while somebody can send to it.
\<close>

definition decodable :: "('u, 's) deserializer \<Rightarrow> ('u, 's) actor_msg list \<Rightarrow> bool" where
  "decodable deser ms \<longleftrightarrow> (\<forall>m\<in>set ms. actor_msg_of deser m \<noteq> None)"

definition keeps :: "('u, 's) deserializer \<Rightarrow> ('u, 's) actor_msg list \<Rightarrow> ('u, 's) double_task \<Rightarrow> bool" where
  "keeps deser late t \<longleftrightarrow> (\<exists>before. map of_primary (queue t) @ decoded deser (sec_rx t) = before @ decoded deser late)"

definition orphaned ::
    "('u, 's) deserializer \<Rightarrow> 's actor_call list \<Rightarrow> ('u, 's) actor_msg list \<Rightarrow> bool \<Rightarrow> ('u, 's) double_task \<Rightarrow> bool" where
  "orphaned deser calls late u t \<longleftrightarrow>
     pri_phase t = Panicked \<and> \<not> primary_waiting t \<and> dt_calls t = calls \<and> Post_Stop \<notin> set calls \<and>
     sec_phase t \<in> {Running, Panicked} \<and> (\<forall>m\<in>set (sec_rx t). \<not> internal m) \<and>
     (decodable deser late \<longrightarrow>
        (if sec_phase t = Running then decodable deser (sec_rx t) \<and> keeps deser late t \<and> (\<not> u \<longrightarrow> registry_tx t)
         else u \<and> \<not> ref_tx t))"

lemma orphaned_panic:
  assumes "double_run deser sent t" and "handler_panic t = Some t'"
  shows "orphaned deser (dt_calls t') [] (\<not> registry_tx t') t'"
proof -
  from assms(2) obtain m rest where m: "pri_phase t = Running" "pri_rx t = P_Msg m # rest"
    "t' = t\<lparr>pri_rx := rest, dt_calls := dt_calls t @ [Recv m], pri_phase := Panicked\<rparr>"
    by (auto simp: handler_panic_def split: phase.splits list.splits primary_msg.splits)
  with double_run_inv[OF assms(1)] have inv: "sec_phase t = Running" "deaths t = 0" "one_token t"
    "\<forall>m\<in>set (sec_rx t). internal m \<or> actor_msg_of deser m \<noteq> None" "Post_Stop \<notin> set (dt_calls t)"
    by (auto simp: double_inv_def)
  with m have "\<not> primary_waiting t" "requests t = 0" by (auto simp: one_token_def)
  moreover from this inv(2) have "\<forall>m\<in>set (sec_rx t). \<not> internal m"
    by (auto simp: requests_def deaths_def internal_def filter_empty_conv)
  ultimately show ?thesis using inv m(3) by (auto simp: orphaned_def decodable_def keeps_def)
qed

text \<open>One more message: into the mailbox if the secondary runs, else nowhere.\<close>

lemma orphaned_arrival:
  assumes inv: "orphaned deser calls late u t" and ext: "\<not> internal m"
    and lost: "lost \<in> {t, t\<lparr>registry_tx := False\<rparr>}"
    and t': "t' = (if sec_phase t = Running then t\<lparr>sec_rx := sec_rx t @ [m]\<rparr> else lost)"
  shows "orphaned deser calls (late @ [m]) u t'"
proof (cases "sec_phase t = Running")
  case True
  have "keeps deser (late @ [m]) (t\<lparr>sec_rx := sec_rx t @ [m]\<rparr>)" if "keeps deser late t"
    using that by (auto simp: keeps_def)
  with inv ext True show ?thesis by (auto simp: orphaned_def t' decodable_def)
next
  case False
  with inv lost show ?thesis by (auto simp: orphaned_def t' decodable_def)
qed

lemma orphaned_forward:
  assumes inv: "orphaned deser calls late u t" and dest: "decode_dest (mb_dest mb) = Some (Destination name i)"
    and tx: "registry_tx t" and fwd: "forward_own decode_dest name mb t = Some t'"
  shows "orphaned deser calls (late @ [Serial i mb]) u t'"
proof -
  from dest tx fwd have "t' = (if sec_phase t = Running then t\<lparr>sec_rx := sec_rx t @ [Serial i mb]\<rparr> else t\<lparr>registry_tx := False\<rparr>)"
    by (auto simp: forward_own_def registry_recv_def own_registry_def own_box_def ser_recvr_def mailbox_send_def Let_def)
  with orphaned_arrival[OF inv, of "Serial i mb" "t\<lparr>registry_tx := False\<rparr>"] show ?thesis by (simp add: internal_def)
qed

lemma orphaned_secondary:
  assumes inv: "orphaned deser calls late u t" and step: "secondary_step deser t = Some t'"
  shows "orphaned deser calls late u t'"
proof (cases "sec_rx t")
  case Nil
  with step have "sec_phase t = Running" "\<not> registry_tx t" "\<not> ref_tx t" "t' = t\<lparr>sec_phase := Panicked\<rparr>"
    by (auto simp: secondary_step_def split: phase.splits if_splits)
  with inv show ?thesis by (auto simp: orphaned_def)
next
  case (Cons m rest)
  with step have run: "sec_phase t = Running" and t': "t' = secondary_handle deser m (t\<lparr>sec_rx := rest\<rparr>)"
    by (auto simp: secondary_step_def split: phase.splits)
  from inv Cons have ext: "\<not> internal m" by (simp add: orphaned_def)
  show ?thesis
  proof (cases "actor_msg_of deser m")
    case None
    with ext t' have "t' = t\<lparr>sec_rx := rest, sec_phase := Panicked\<rparr>"
      by (cases m) (simp_all add: secondary_handle_def internal_def)
    moreover have "\<not> decodable deser late" using inv None Cons run by (auto simp: orphaned_def decodable_def)
    ultimately show ?thesis using inv Cons by (auto simp: orphaned_def)
  next
    case (Some x)
    let ?pri = "case x of Local_Msg lam \<Rightarrow> P_Msg lam | Local_Signal Term \<Rightarrow> P_Die"
    have "of_primary ?pri = x" by (auto split: local_actor_msg.splits actor_signal.splits)
    moreover have "t' = t\<lparr>sec_rx := rest, queue := queue t @ [?pri]\<rparr>"
      using Some t' inv ext by (cases m) (auto simp: secondary_handle_def orphaned_def internal_def)
    ultimately show ?thesis using inv Cons Some run by (auto simp: orphaned_def decodable_def keeps_def)
  qed
qed

lemma orphan_run_inv: "orphan_run decode_dest name deser calls late u t \<Longrightarrow> orphaned deser calls late u t"
proof (induction rule: orphan_run.induct)
  case (panic sent t t')
  then show ?case using orphaned_panic by blast
next
  case (forward late u t mb i t')
  show ?case by (rule orphaned_forward[OF forward.IH forward.hyps(3,2,4)])
next
  case (send late u t x)
  show ?case by (rule orphaned_arrival[OF send.IH]) (simp_all add: internal_def)
next
  case (secondary late u t t')
  then show ?case using orphaned_secondary by blast
next
  case (primary late u t t')
  then show ?case by (simp add: orphaned_def primary_step_def)
qed (auto simp: orphaned_def keeps_def)

text \<open>
  Property C31.  A panic of a handler orphans an actor on two tasks.  After it no call of the actor is made
  any more, not even \<open>post_stop\<close>, and the secondary never ends regularly, so that it never gives the name back.
  As long as every message that is sent can be decoded, a registered actor stays bound in the registry
  unless its binding is removed from outside, and its secondary, or one to which somebody still holds a
  reference, neither ends nor panics: every later message, \<open>Term\<close> included, is accepted and kept in order for
  ever.  The secondary panics on a message that cannot be decoded, and as soon as its mailbox is empty and
  neither the registry nor anybody else can send to it.
\<close>

theorem panicked_double_orphaned:
  assumes "orphan_run decode_dest name deser calls late unbound t"
  shows "pri_phase t = Panicked \<and> dt_calls t = calls \<and> Post_Stop \<notin> set calls \<and> sec_phase t \<noteq> Finished \<and>
    ((\<forall>m\<in>set late. actor_msg_of deser m \<noteq> None) \<and> (ref_tx t \<or> \<not> unbound) \<longrightarrow>
       sec_phase t = Running \<and> (\<not> unbound \<longrightarrow> register (own_registry name t) name = Some ()) \<and>
       length late \<le> length (queue t) + length (sec_rx t) \<and>
       (\<exists>before. map of_primary (queue t) @ decoded deser (sec_rx t) = before @ decoded deser late)) \<and>
    (\<forall>m rest. sec_phase t = Running \<and> sec_rx t = m # rest \<and> actor_msg_of deser m = None \<longrightarrow>
       secondary_step deser t = Some (t\<lparr>sec_rx := rest, sec_phase := Panicked\<rparr>)) \<and>
    (sec_phase t = Running \<and> sec_rx t = [] \<and> \<not> registry_tx t \<and> \<not> ref_tx t \<longrightarrow>
       secondary_step deser t = Some (t\<lparr>sec_phase := Panicked\<rparr>))"
proof -
  from orphan_run_inv[OF assms] have inv: "orphaned deser calls late unbound t" .
  have "length late \<le> length (queue t) + length (sec_rx t)" if "keeps deser late t"
  proof -
    from that obtain before where "map of_primary (queue t) @ decoded deser (sec_rx t) = before @ decoded deser late"
      by (auto simp: keeps_def)
    from arg_cong[OF this, of length] show ?thesis by (simp add: decoded_def)
  qed
  moreover have "secondary_step deser t = Some (t\<lparr>sec_rx := rest, sec_phase := Panicked\<rparr>)"
    if "sec_phase t = Running" "sec_rx t = m # rest" "actor_msg_of deser m = None" for m rest
  proof -
    from inv that(2) have "\<not> internal m" by (simp add: orphaned_def)
    with that show ?thesis by (cases m) (simp_all add: secondary_step_def secondary_handle_def internal_def)
  qed
  moreover have "secondary_step deser t = Some (t\<lparr>sec_phase := Panicked\<rparr>)"
    if "sec_phase t = Running" "sec_rx t = []" "\<not> registry_tx t" "\<not> ref_tx t"
    using that inv by (simp add: secondary_step_def orphaned_def)
  moreover have "sec_phase t = Running \<and> (\<not> unbound \<longrightarrow> register (own_registry name t) name = Some ()) \<and> keeps deser late t"
    if "decodable deser late" "ref_tx t \<or> \<not> unbound"
    using that inv by (auto simp: orphaned_def own_registry_def split: if_splits)
  moreover have "pri_phase t = Panicked" "dt_calls t = calls" "Post_Stop \<notin> set calls" "sec_phase t \<noteq> Finished"
    using inv by (auto simp: orphaned_def)
  ultimately show ?thesis unfolding decodable_def[symmetric] keeps_def[symmetric] by blast
qed

subsection \<open>Instance\<close>

text \<open>The handler of the only message panics; \<open>Term\<close> is sent after it.\<close>

definition sample_orphan :: "(nat, nat) double_task" where
  "sample_orphan = \<lparr>sec_phase = Running, sec_rx = [], queue = [P_Die], primary_waiting = False, pri_phase = Panicked,
     pri_rx = [], dt_calls = [Pre_Start, Recv 7], registry_tx = True, ref_tx = True\<rparr>"

lemma sample_orphan_run:
  "orphan_run (\<lambda>_. None) (Actor_Id 0 ''a'') sample_deser [Pre_Start, Recv 7] [Msg (Local_Signal Term)] False sample_orphan"
proof -
  let ?t = "\<lambda>rx q pri prx calls. \<lparr>sec_phase = Running, sec_rx = rx, queue = q, primary_waiting = False, pri_phase = pri,
     pri_rx = prx, dt_calls = calls, registry_tx = True, ref_tx = True\<rparr> :: (nat, nat) double_task"
  have "double_run sample_deser ([] @ [Msg (Local_Msg 7)]) (if sec_phase (double_start :: (nat, nat) double_task) = Running
      then double_start\<lparr>sec_rx := sec_rx double_start @ [Msg (Local_Msg 7)]\<rparr> else double_start)"
    by (rule double_run.environment[OF double_run.start]) simp
  then have 1: "double_run sample_deser [Msg (Local_Msg 7)] (?t [Msg (Local_Msg 7)] [] Starting [] [])"
    by (simp add: double_start_def)
  have 2: "double_run sample_deser [Msg (Local_Msg 7)] (?t [Msg (Local_Msg 7), Primary_Request] [] Running [] [Pre_Start])"
    by (rule double_run.primary[OF 1]) (simp add: primary_step_def send_to_secondary_def)
  have 3: "double_run sample_deser [Msg (Local_Msg 7)] (?t [Primary_Request] [P_Msg 7] Running [] [Pre_Start])"
    by (rule double_run.secondary[OF 2]) (simp add: secondary_step_def secondary_handle_def)
  have 4: "double_run sample_deser [Msg (Local_Msg 7)] (?t [] [] Running [P_Msg 7] [Pre_Start])"
    by (rule double_run.secondary[OF 3]) (simp add: secondary_step_def secondary_handle_def send_to_primary_def)
  have 5: "orphan_run (\<lambda>_. None) (Actor_Id 0 ''a'') sample_deser [Pre_Start, Recv 7] [] False (?t [] [] Panicked [] [Pre_Start, Recv 7])"
    using orphan_run.panic[OF 4, of "?t [] [] Panicked [] [Pre_Start, Recv 7]"] by (simp add: handler_panic_def)
  from orphan_run.send[OF 5, of "Local_Signal Term"]
  have 6: "orphan_run (\<lambda>_. None) (Actor_Id 0 ''a'') sample_deser [Pre_Start, Recv 7] [Msg (Local_Signal Term)] False
      (?t [Msg (Local_Signal Term)] [] Panicked [] [Pre_Start, Recv 7])"
    by simp
  show ?thesis
    by (rule orphan_run.secondary[OF 6]) (simp add: secondary_step_def secondary_handle_def sample_orphan_def)
qed

text \<open>Term is kept for ever; and without its registration and the last reference the secondary panics.\<close>

theorem panicked_double_orphaned_witness:
  "sec_phase sample_orphan = Running \<and> dt_calls sample_orphan = [Pre_Start, Recv 7] \<and> 1 \<le> length (queue sample_orphan) + length (sec_rx sample_orphan) \<and>
   sec_phase (the (secondary_step sample_deser (sample_orphan\<lparr>registry_tx := False, ref_tx := False\<rparr>))) = Panicked"
proof -
  have "orphan_run (\<lambda>_. None) (Actor_Id 0 ''a'') sample_deser [Pre_Start, Recv 7] [Msg (Local_Signal Term)] True
      (sample_orphan\<lparr>registry_tx := False, ref_tx := False\<rparr>)"
    using orphan_run.forget[OF orphan_run.unbind[OF sample_orphan_run]] by simp
  from panicked_double_orphaned[OF this] panicked_double_orphaned[OF sample_orphan_run] show ?thesis
    by (auto simp: sample_orphan_def)
qed

end
