(* ===== verification/Device_Service.thy ===== *)
theory Device_Service
  imports Device_Server Causal_Instances
begin

text \<open>
  The device service from end to end: the heartbeat interval of a device goes from the device server
  (cluster/devices/server.rs) into the replicated table that its causal actor keeps
  (cluster/crdt/causal.rs with cluster/devices/devices_state.rs), and back to the server and its
  subscribers.
\<close>

lemma put_delta_empty:
  "devices_empty (device_mutator_apply (Put d i) s) \<longleftrightarrow> om_get s d = Some (put_effect i (om_get s d))"
proof (cases "om_get s d")
  case None
  then show ?thesis by (auto simp: put_effect_def devices_empty_iff devices_minimum_def)
next
  case (Some e)
  have "Some i \<le> entry_interval e \<longleftrightarrow> max (entry_interval e) (Some i) = entry_interval e"
    by (auto simp: max_def)
  with Some show ?thesis
    by (cases e) (auto simp: put_effect_def devices_empty_iff opt_filter_le_None devices_minimum_def)
qed

text \<open>The table has an interval of the device that is at least as new as \<open>i\<close>.\<close>

definition stale_interval :: "devices \<Rightarrow> device \<Rightarrow> device_interval \<Rightarrow> bool" where
  "stale_interval s d i \<longleftrightarrow>
     (case om_get s d of
        None \<Rightarrow> False
      | Some e \<Rightarrow> (case entry_interval e of None \<Rightarrow> False | Some j \<Rightarrow> i \<le> j))"

lemma stale_iff: "stale_interval s d i \<longleftrightarrow> om_get s d = Some (put_effect i (om_get s d))"
proof (cases "om_get s d")
  case (Some e)
  then show ?thesis
    by (cases e; cases "entry_interval e") (auto simp: stale_interval_def put_effect_def max_def)
qed (simp add: stale_interval_def)

lemma fresh_effect:
  assumes "\<not> stale_interval s d i"
  shows "put_effect i (om_get s d) = Device_Entry (case om_get s d of None \<Rightarrow> 0 | Some e \<Rightarrow> removals e) (Some i)"
proof (cases "om_get s d")
  case (Some e)
  with assms show ?thesis
    by (cases "entry_interval e") (auto simp: stale_interval_def put_effect_def max_def)
qed (simp add: put_effect_def)

lemma stale_put_ignored:
  assumes "cstate a = Replica ric" and "stale_interval (cdata ric) d i"
  shows "causal_recv devices_crdt env (Causal_Cmd (Mutate (Put d i))) a = Some (a, [])"
proof -
  have "devices_empty (device_mutator_apply (Put d i) (cdata ric))" using assms(2) put_delta_empty stale_iff by blast
  with assms(1) show ?thesis
    by (cases a) (simp add: causal_recv_def causal_op_def with_replica_def Let_def del: device_mutator_apply.simps)
qed

text \<open>A mutation that changes the table, at a replica of the device service.\<close>

lemma put_mutates_table:
  assumes st: "cstate a = Replica ric" and ok: "acks_ok ric" and pref: "preference (ccommon a) = server_preference"
    and iter: "ce_iter env {} = []" and sub: "r \<in> set (csubscribers (ccommon a))"
    and news: "\<not> stale_interval (cdata ric) d i"
  shows "\<exists>a' outs ric'. causal_recv devices_crdt env (Causal_Cmd (Mutate (Put d i))) a = Some (a', outs) \<and>
     cstate a' = Replica ric' \<and> cclock ric' = cclock ric + 1 \<and> Publish r (cdata ric') \<in> set outs \<and>
     cdata ric' = devices_join (cdata ric) (devices_delta (cdata ric) (Put d i))"
proof -
  let ?delta = "device_mutator_apply (Put d i) (cdata ric)"
  let ?ic1 = "ric\<lparr>cdata := devices_join (cdata ric) ?delta, deltas := deltas ric @ [?delta], cclock := cclock ric + 1\<rparr>"
  have pri: "ce_iter env (priority (preference (ccommon a))) = []"
    using iter by (simp add: pref server_preference_def default_preference_def)
  have all: "look_up_all (acks ?ic1) (map snd (om_keys (ord_acks ?ic1))) \<noteq> None"
  proof -
    have "\<forall>i\<in>set (map snd (om_keys (ord_acks ric))). acks ric i \<noteq> None"
    proof
      fix j
      assume "j \<in> set (map snd (om_keys (ord_acks ric)))"
      then obtain k where "om_get (ord_acks ric) (k, j) \<noteq> None" by (auto simp: set_om_keys)
      then show "acks ric j \<noteq> None" using ok unfolding acks_ok_def by (metis option.distinct(1))
    qed
    then show ?thesis using look_up_all_Some[of "map snd (om_keys (ord_acks ric))" "acks ric"] by simp
  qed
  then obtain out where out: "disperse devices_crdt env (ccommon a) ?ic1 = Some out"
    using pri by (auto simp: disperse_def pref server_preference_def Let_def)
  have ne: "\<not> devices_empty ?delta" using news put_delta_empty stale_iff by blast
  let ?pubs = "map (\<lambda>r. Publish r (devices_join (cdata ric) ?delta)) (csubscribers (ccommon a))"
  let ?a' = "a\<lparr>ccommon := (ccommon a)\<lparr>csubscribers := filter (ce_alive env) (csubscribers (ccommon a))\<rparr>, cstate := Replica ?ic1\<rparr>"
  have "causal_recv devices_crdt env (Causal_Cmd (Mutate (Put d i))) a = Some (?a', out @ ?pubs)"
    using st ne out
    by (simp add: causal_recv_def causal_op_def changed_def publish_def with_replica_def Let_def del: device_mutator_apply.simps)
  then show ?thesis
    using sub by (intro exI[of _ ?a'] exI[of _ "out @ ?pubs"] exI[of _ ?ic1]) (simp add: devices_delta_def del: device_mutator_apply.simps)
qed

text \<open>New data at a server in the cluster is told to all its subscribers.\<close>

lemma device_data_published:
  assumes "sv_state sv = Server_In ic"
  shows "\<exists>sv' out. server_recv hash alive h (Device_Data devs) sv = (out, Done sv') \<and>
     (\<forall>s\<in>set (sv_subscribers (sv_common sv)). Tell_Charges s (Charges (sv_charges ic) devs) \<in> set out)"
  using assms by (simp add: server_recv_def Let_def publish_if_in_def server_publish_def)

lemma server_accepts_subscribed:
  assumes "sv_state sv = Server_In ic" and "managers hash (sv_ring ic) d 1 = [m]"
    and "d \<in> dom (req_senders ic) \<or> m = sv_member ic" and "server_inv sv" and "di_interval i * 2 \<le> duration_max"
    and "\<forall>s\<in>set (sv_subscribers (sv_common sv)). alive s"
  shows "\<exists>sv' out ic'. server_recv hash alive h (Server_Remote (Set_Heartbeat_Interval d i)) sv = (out, Done sv') \<and>
    interval_accepted h d i sv (out, Done sv') \<and> sv_state sv' = Server_In ic' \<and> d \<in> sv_charges ic' \<and>
    sv_subscribers (sv_common sv') = sv_subscribers (sv_common sv)"
proof -
  from server_accepts[OF assms(1-5), of h alive] obtain sv' out ic' where
    r: "server_recv hash alive h (Server_Remote (Set_Heartbeat_Interval d i)) sv = (out, Done sv')"
    "interval_accepted h d i sv (out, Done sv')" "sv_state sv' = Server_In ic'" "d \<in> sv_charges ic'"
    unfolding interval_accepted_def by (elim exE conjE) auto
  have "filter alive (sv_subscribers (sv_common sv)) = sv_subscribers (sv_common sv)"
    using assms(6) by (simp add: filter_id_conv)
  with r(1) assms(1,2) have "sv_subscribers (sv_common sv') = sv_subscribers (sv_common sv)"
    by (auto simp: server_recv_def Let_def set_heartbeat_interval_def server_publish_def
        split: if_splits option.splits prod.splits)
  with r show ?thesis by blast
qed

text \<open>
  Property C26.  A device gets into the table.  A server, in a state that keeps the invariant of its runs, that
  monitors a device or is its manager accepts an interval of it that can be doubled, with the device among its charges, and hands it to the causal actor.
  If the replicated table has no interval of the device that is as new, the causal actor puts the interval
  into the table, every other entry and the removals being as they were, and tells the server, which then
  tells all its subscribers the new table and its charges.  If the table has an interval that is as new, the
  causal actor stays as it is and tells nobody.
\<close>

theorem accepted_interval_published:
  assumes "sv_state sv = Server_In ic" and "managers hash (sv_ring ic) d 1 = [m]"
    and "d \<in> dom (req_senders ic) \<or> m = sv_member ic" and "server_inv sv" and "di_interval i * 2 \<le> duration_max"
    and "\<forall>s\<in>set (sv_subscribers (sv_common sv)). alive s"
    and "cstate a = Replica ric" and "acks_ok ric" and "preference (ccommon a) = server_preference"
    and "ce_iter env {} = []" and "r \<in> set (csubscribers (ccommon a))"
  shows "\<exists>sv1 out1 ic1. server_recv hash alive h1 (Server_Remote (Set_Heartbeat_Interval d i)) sv = (out1, Done sv1) \<and>
    interval_accepted h1 d i sv (out1, Done sv1) \<and> sv_state sv1 = Server_In ic1 \<and> d \<in> sv_charges ic1 \<and>
    (if stale_interval (cdata ric) d i then causal_recv devices_crdt env (Causal_Cmd (Mutate (Put d i))) a = Some (a, [])
     else \<exists>a' outs devs sv2 out2.
       causal_recv devices_crdt env (Causal_Cmd (Mutate (Put d i))) a = Some (a', outs) \<and> Publish r devs \<in> set outs \<and>
       (\<forall>k. om_get devs k =
          (if k = d then Some (Device_Entry (case om_get (cdata ric) d of None \<Rightarrow> 0 | Some e \<Rightarrow> removals e) (Some i))
           else om_get (cdata ric) k)) \<and>
       server_recv hash alive h2 (Device_Data devs) sv1 = (out2, Done sv2) \<and>
       (\<forall>s\<in>set (sv_subscribers (sv_common sv)). Tell_Charges s (Charges (sv_charges ic1) devs) \<in> set out2))"
proof -
  from server_accepts_subscribed[OF assms(1-6), of h1] obtain sv1 out1 ic1 where
    s1: "server_recv hash alive h1 (Server_Remote (Set_Heartbeat_Interval d i)) sv = (out1, Done sv1)"
    "interval_accepted h1 d i sv (out1, Done sv1)" "sv_state sv1 = Server_In ic1" "d \<in> sv_charges ic1"
    "sv_subscribers (sv_common sv1) = sv_subscribers (sv_common sv)" by blast
  show ?thesis
  proof (cases "stale_interval (cdata ric) d i")
    case True
    with stale_put_ignored[OF assms(7) True, of env] s1 show ?thesis by auto
  next
    case False
    from put_mutates_table[OF assms(7-11) False] obtain a' outs ric' where
      c: "causal_recv devices_crdt env (Causal_Cmd (Mutate (Put d i))) a = Some (a', outs)" "Publish r (cdata ric') \<in> set outs"
      "cdata ric' = devices_join (cdata ric) (devices_delta (cdata ric) (Put d i))" "cstate a' = Replica ric'" by blast
    from device_data_published[OF s1(3), of hash alive h2 "cdata ric'"] obtain sv2 out2 where
      s2: "server_recv hash alive h2 (Device_Data (cdata ric')) sv1 = (out2, Done sv2)"
      "\<forall>s\<in>set (sv_subscribers (sv_common sv1)). Tell_Charges s (Charges (sv_charges ic1) (cdata ric')) \<in> set out2" by blast
    have "\<forall>k. om_get (cdata ric') k =
        (if k = d then Some (Device_Entry (case om_get (cdata ric) d of None \<Rightarrow> 0 | Some e \<Rightarrow> removals e) (Some i))
         else om_get (cdata ric) k)"
      unfolding c(3) om_get_put fresh_effect[OF False] by blast
    with s1 c(1,2) s2 False show ?thesis by metis
  qed
qed

text \<open>A server with one subscriber and the replica of its causal actor, which the server is subscribed to.\<close>

definition sample_subscribed :: "(nat, nat, nat) device_server" where
  "sample_subscribed = (sample_server (sample_ic 1 (\<lambda>_. None)))\<lparr>sv_common := \<lparr>sv_subscribers = [4], sv_dest = destination_new 0 1 ''devices''\<rparr>\<rparr>"

definition sample_table :: sample_actor where
  "sample_table = \<lparr>ccommon = \<lparr>causal_dest = destination_new 0 1 ''devices-devices'', csubscribers = [9], preference = server_preference\<rparr>,
     cstate = Replica (two_ic om_empty 0 node_a node_b [] 0)\<rparr>"

theorem accepted_interval_published_witness:
  "\<exists>sv1 out1 sv2 out2 chg devs. server_recv (\<lambda>_. 1) (\<lambda>_. True) 7 (Server_Remote (Set_Heartbeat_Interval sample_device (Device_Interval 1 5)))
       sample_subscribed = (out1, Done sv1) \<and>
     server_recv (\<lambda>_. 1) (\<lambda>_. True) 0 (Device_Data devs) sv1 = (out2, Done sv2) \<and>
     Tell_Charges 4 (Charges chg devs) \<in> set out2 \<and> sample_device \<in> chg \<and>
     om_get devs sample_device = Some (Device_Entry 0 (Some (Device_Interval 1 5)))"
proof -
  let ?ric = "two_ic om_empty 0 node_a node_b [] 0"
  have sv: "sv_state sample_subscribed = Server_In (sample_ic 1 (\<lambda>_. None))" "sv_subscribers (sv_common sample_subscribed) = [4]"
    "server_inv sample_subscribed"
    by (simp_all add: sample_subscribed_def server_inv_def)
  have c: "cstate sample_table = Replica ?ric" "preference (ccommon sample_table) = server_preference"
    "9 \<in> set (csubscribers (ccommon sample_table))" by (simp_all add: sample_table_def)
  have ok: "acks_ok ?ric" by (auto simp: acks_ok_def two_ic_def first_ack_def)
  have none: "om_get (cdata ?ric) sample_device = None" by (simp add: two_ic_def)
  have news: "\<not> stale_interval (cdata ?ric) sample_device (Device_Interval 1 5)" by (simp add: stale_interval_def none)
  have m: "managers (\<lambda>_. 1) (sv_ring (sample_ic 1 (\<lambda>_. None))) sample_device 1 = [sample_member 1 1]"
    by (simp add: sample_server_managers[simplified])
  have d: "sample_device \<in> dom (req_senders (sample_ic 1 (\<lambda>_. None))) \<or> sample_member 1 1 = sv_member (sample_ic 1 (\<lambda>_. None))" by simp
  have al: "\<forall>s\<in>set (sv_subscribers (sv_common sample_subscribed)). (\<lambda>_. True) s" by simp
  have fits: "di_interval (Device_Interval 1 5) * 2 \<le> duration_max" by (simp add: duration_max_def)
  note pub = accepted_interval_published[OF sv(1) m d sv(3) fits al c(1) ok c(2) two_env_simps(1) c(3), of 7 0,
      unfolded if_not_P[OF news] none sv(2)]
  from pub obtain sv1 out1 and ic1 :: "nat server_ic" and devs sv2 out2 where p:
    "server_recv (\<lambda>_. 1) (\<lambda>_. True) 7 (Server_Remote (Set_Heartbeat_Interval sample_device (Device_Interval 1 5))) sample_subscribed = (out1, Done sv1)"
    "sample_device \<in> sv_charges ic1"
    "\<forall>k. om_get devs k = (if k = sample_device then Some (Device_Entry (case None of None \<Rightarrow> 0 | Some e \<Rightarrow> removals e) (Some (Device_Interval 1 5))) else om_get (cdata ?ric) k)"
    "server_recv (\<lambda>_. 1) (\<lambda>_. True) 0 (Device_Data devs) sv1 = (out2, Done sv2)"
    "\<forall>s\<in>set [4]. Tell_Charges s (Charges (sv_charges ic1) devs) \<in> set out2"
    by (elim exE conjE) (rule that; assumption)
  from p(3) have "om_get devs sample_device = Some (Device_Entry 0 (Some (Device_Interval 1 5)))" by simp
  moreover from p(5) have "Tell_Charges 4 (Charges (sv_charges ic1) devs) \<in> set out2" by simp
  ultimately show ?thesis using p(1,2,4) by blast
qed

end
