(* ===== verification/Cluster_Network.thy ===== *)
theory Cluster_Network
  imports Cluster_Instances
begin

text \<open>
  Cluster actors of several nodes over a network that loses, repeats and reorders messages
  (cluster/cluster.rs).  A message that was sent stays on the wire and may arrive at its socket any number
  of times, or never.  Nodes start, crash and start again under new identities at any time.  Next to the
  states the network records the identities that nodes have taken and the members that a heartbeat receiver
  has reported down.
\<close>

subsection \<open>The network\<close>

type_synonym ('u, 's, 'f) clr_node = "('u, 's, 'f) cluster \<times> runtime \<times> member set"

record ('n, 'u, 's, 'f) clr_net =
  cn_nodes :: "'n \<Rightarrow> ('u, 's, 'f) clr_node option"
  cn_wire :: "(socket \<times> 'u intra_msg) set"
  cn_taken :: "member set"
  cn_reported :: "member set"

text \<open>The messages to other cluster actors among the effects of a handler.\<close>

fun sent_by :: "('u, 's) cluster_effect \<Rightarrow> (socket \<times> 'u intra_msg) set" where
  "sent_by (To_Members ms msg) = (\<lambda>m. (m_socket m, msg)) ` ms"
| "sent_by (To_Socket s msg) = {(s, msg)}"
| "sent_by (To_Sockets ss msg) = (\<lambda>s. (s, msg)) ` ss"
| "sent_by _ = {}"

definition sent :: "('u, 's) cluster_effect list \<Rightarrow> (socket \<times> 'u intra_msg) set" where
  "sent out = \<Union> (set (map sent_by out))"

definition clr_net_start :: "('n, 'u, 's, 'f) clr_net" where
  "clr_net_start = \<lparr>cn_nodes = (\<lambda>_. None), cn_wire = {}, cn_taken = {}, cn_reported = {}\<rparr>"

text \<open>A node after a handler: its new state, its messages on the wire, its identity taken.\<close>

definition advance ::
    "'n \<Rightarrow> ('u, 's, 'f) clr_node \<Rightarrow> ('u, 's) cluster_effect list \<Rightarrow> ('n, 'u, 's, 'f) clr_net \<Rightarrow> ('n, 'u, 's, 'f) clr_net" where
  "advance n st out net = net\<lparr>cn_nodes := (cn_nodes net)(n \<mapsto> st), cn_wire := cn_wire net \<union> sent out,
     cn_taken := insert (ns_member (common (fst st))) (cn_taken net)\<rparr>"

text \<open>
  What may arrive at a node: a message on the wire to its socket, a request of a heartbeat receiver, a
  message of the node itself, or the report of a heartbeat receiver that it has spawned.
\<close>

definition arrives :: "('n, 'u, 's, 'f) clr_net \<Rightarrow> ('u, 's, 'f) clr_node \<Rightarrow> ('u, 's, 'f) cluster_msg \<Rightarrow> bool" where
  "arrives net st msg \<longleftrightarrow>
     (case msg of
        Intra_Msg m \<Rightarrow>
          (m_socket (ns_member (common (fst st))), m) \<in> cn_wire net \<or>
          (case m of Req_Heartbeat _ _ \<Rightarrow> True | Foo _ \<Rightarrow> True | _ \<Rightarrow> False)
      | Downed m \<Rightarrow> m \<in> snd (snd st)
      | _ \<Rightarrow> True)"

definition reports :: "('u, 's, 'f) cluster_msg \<Rightarrow> member set" where
  "reports msg = (case msg of Downed m \<Rightarrow> {m} | _ \<Rightarrow> {})"

text \<open>The identifiers drawn are such that the identity is in the universe and was never taken.\<close>

definition draws :: "member set \<Rightarrow> ('n, 'u, 's, 'f) clr_net \<Rightarrow> u64 \<Rightarrow> ('u, 's, 'f) cluster \<Rightarrow> bool" where
  "draws U net rid cl \<longleftrightarrow> fresh_self rid (common cl) \<in> U - cn_taken net"

inductive clr_net_reach ::
    "('n \<Rightarrow> ('u, 's) cluster_env) \<Rightarrow> member set \<Rightarrow> ('n, 'u, 's, 'f) clr_net \<Rightarrow> bool" for env U where
  start: "clr_net_reach env U clr_net_start"
| boot: "clr_net_reach env U net \<Longrightarrow> cn_nodes net n = None \<Longrightarrow>
    cl = cluster_new (env n) sock name subrs fm cfg hcfg rid \<Longrightarrow> ns_member (common cl) \<in> U - cn_taken net \<Longrightarrow>
    cluster_pre_start (env n) cl rt = (cl', rt', out) \<Longrightarrow>
    clr_net_reach env U (advance n (cl', rt', spawned out) out net)"
| crash: "clr_net_reach env U net \<Longrightarrow> clr_net_reach env U (net\<lparr>cn_nodes := (cn_nodes net)(n := None)\<rparr>)"
| recv: "clr_net_reach env U net \<Longrightarrow> cn_nodes net n = Some (cl, rt, S) \<Longrightarrow> arrives net (cl, rt, S) msg \<Longrightarrow>
    draws U net rid cl \<Longrightarrow> cluster_recv (env n) rid msg cl rt = Some (cl', rt', out) \<Longrightarrow>
    clr_net_reach env U
      (advance n (cl', rt', S \<union> spawned out) out (net\<lparr>cn_reported := cn_reported net \<union> reports msg\<rparr>))"
| timer: "clr_net_reach env U net \<Longrightarrow> cn_nodes net n = Some (cl, rt, S) \<Longrightarrow>
    clr_net_reach env U (net\<lparr>cn_nodes := (cn_nodes net)(n \<mapsto> (cl, fire h rt, S))\<rparr>)"

subsection \<open>Sound gossip\<close>

text \<open>Gossip of identities in \<open>T\<close>, of which those in \<open>R\<close> may be down.\<close>

definition downs :: "gossip \<Rightarrow> member set" where
  "downs g = {m. om_get (states g) m = Some Down}"

definition sound :: "member set \<Rightarrow> member set \<Rightarrow> gossip \<Rightarrow> bool" where
  "sound T R g \<longleftrightarrow> gossip_known g \<subseteq> T \<and> downs g \<subseteq> R"

definition sound_msg :: "member set \<Rightarrow> member set \<Rightarrow> 'u intra_msg \<Rightarrow> bool" where
  "sound_msg T R msg \<longleftrightarrow> (case msg of State_Msg g \<Rightarrow> sound T R g | Ping m \<Rightarrow> m \<in> T | _ \<Rightarrow> True)"

definition sound_sent :: "member set \<Rightarrow> member set \<Rightarrow> ('u, 's) cluster_effect list \<Rightarrow> bool" where
  "sound_sent T R out \<longleftrightarrow> (\<forall>p\<in>sent out. sound_msg T R (snd p))"

definition sound_node :: "member set \<Rightarrow> member set \<Rightarrow> ('u, 's, 'f) cluster \<Rightarrow> bool" where
  "sound_node T R cl \<longleftrightarrow> ns_member (common cl) \<in> T \<and>
     (case clr_state cl of In_Cluster ic \<Rightarrow> sound T R (ic_gossip ic) | _ \<Rightarrow> True)"

lemma downs_insert [simp]:
  "downs (g\<lparr>states := om_insert m Up (states g)\<rparr>) = downs g - {m}"
  "downs (g\<lparr>states := om_insert m Down (states g)\<rparr>) = insert m (downs g)"
  by (auto simp: downs_def)

lemma downs_merge: "downs (fst (gossip_merge a b)) \<subseteq> downs a \<union> downs b"
  by (auto simp: downs_def om_get_gossip_merge max_def split: if_splits)

lemma sound_merge: "sound T R a \<Longrightarrow> sound T R b \<Longrightarrow> sound T R (fst (gossip_merge a b))"
  using downs_merge[of a b] by (auto simp: sound_def known_merge)

lemma sound_up: "sound T R g \<Longrightarrow> m \<in> T \<Longrightarrow> sound T R (g\<lparr>states := om_insert m Up (states g)\<rparr>)"
  by (auto simp: sound_def)

lemma sound_down: "sound T R g \<Longrightarrow> m \<in> T \<Longrightarrow> m \<in> R \<Longrightarrow> sound T R (g\<lparr>states := om_insert m Down (states g)\<rparr>)"
  by (auto simp: sound_def)

lemma sound_mono: "T \<subseteq> T' \<Longrightarrow> R \<subseteq> R' \<Longrightarrow> sound T R g \<Longrightarrow> sound T' R' g"
  by (auto simp: sound_def)

lemma sound_msg_mono: "T \<subseteq> T' \<Longrightarrow> R \<subseteq> R' \<Longrightarrow> sound_msg T R msg \<Longrightarrow> sound_msg T' R' msg"
  using sound_mono[of T T' R R'] by (auto simp: sound_msg_def split: intra_msg.splits)

lemma sound_sent_mono: "T \<subseteq> T' \<Longrightarrow> R \<subseteq> R' \<Longrightarrow> sound_sent T R out \<Longrightarrow> sound_sent T' R' out"
  unfolding sound_sent_def using sound_msg_mono[of T T' R R'] by blast

lemma sound_node_mono: "T \<subseteq> T' \<Longrightarrow> R \<subseteq> R' \<Longrightarrow> sound_node T R cl \<Longrightarrow> sound_node T' R' cl"
  using sound_mono[of T T' R R'] by (auto simp: sound_node_def split: clr_state.splits)

lemma sent_simps [simp]: "sent [] = {}" "sent (e # out) = sent_by e \<union> sent out" "sent (a @ b) = sent a \<union> sent b"
  by (auto simp: sent_def)

lemma sound_sent_simps [simp]: "sound_sent T R []"
  "sound_sent T R (e # out) \<longleftrightarrow> (\<forall>p\<in>sent_by e. sound_msg T R (snd p)) \<and> sound_sent T R out"
  "sound_sent T R (a @ b) \<longleftrightarrow> sound_sent T R a \<and> sound_sent T R b"
  by (auto simp: sound_sent_def)

subsection \<open>What the handlers send\<close>

lemma take_charges_sent: "take_charges c ms old new out = (old', new', out') \<Longrightarrow> sent out' = sent out"
  by (induction c ms old new out rule: take_charges.induct) (auto simp: Let_def split: option.splits)

lemma update_sent: "update_charges_managers env c ic = Some (ic', out) \<Longrightarrow> sent out = {}"
  by (auto simp: update_charges_managers_def dest!: take_charges_sent split: option.splits prod.splits)

lemma notify_sent: "notify env ic c es = (c', out) \<Longrightarrow> sent out = {}"
  by (auto simp: notify_def Let_def sent_def split: if_splits)

lemma sent_quiet: "sent out = {} \<Longrightarrow> sound_sent T R out"
  by (simp add: sound_sent_def)

lemma round_sound: "sound T R (ic_gossip ic) \<Longrightarrow> p \<in> sent_by (gossip_round env c ic G) \<Longrightarrow> sound_msg T R (snd p)"
  by (auto simp: gossip_round_def Let_def sound_msg_def)

lemma reqs_sound: "p \<in> sent_by (gossip_reqs env c ic) \<Longrightarrow> sound_msg T R (snd p)"
  by (auto simp: gossip_reqs_def sound_msg_def)

lemma heartbeats_sent [simp]: "sent_by (heartbeat c m) = {}" "sent (map (heartbeat c) ms) = {}"
  by (auto simp: heartbeat_def sent_def)


subsection \<open>Handlers keep knowledge sound\<close>

lemma ic_state_sound:
  assumes inv: "ic_inv env U c ic" and g: "gossip_known g \<subseteq> U" and fresh: "fresh_ok rid U c (known ic \<union> gossip_known g)"
    and s: "sound T R (ic_gossip ic)" "sound T R g" and res: "ic_state env rid g c ic rt = Some (c', ic', rt', out)"
  shows "sound (insert (ns_member c') T) R (ic_gossip ic') \<and> sound_sent (insert (ns_member c') T) R out"
proof -
  obtain c1 ic1 ns where ap: "apply_events env rid (snd (gossip_merge (ic_gossip ic) g))
       (c, ic\<lparr>ic_gossip := fst (gossip_merge (ic_gossip ic) g)\<rparr>, None) = Some (c1, ic1, ns)"
    and mw: "merged_with env rid g c ic c1 ic1 ns"
    by (rule apply_merge[OF inv g fresh])
  from res ap obtain ic2 out2 nts h where r: "update_charges_managers env c1 ic1 = Some (ic2, out2)"
    "notify env ic2 c1 (snd (gossip_merge (ic_gossip ic) g) @ (case ns of Some e \<Rightarrow> [e] | None \<Rightarrow> [])) = (c', nts)"
    "ic' = ic2\<lparr>gossip_handle := h\<rparr>"
    "out = (if snd (gossip_merge (ic_gossip ic) g) \<noteq> [] then [gossip_round env c1 ic1 {}] else []) @ out2 @ nts"
    by (auto simp: ic_state_def Let_def split: option.splits prod.splits)
  have me: "ns_member c' = ns_member c1" by (rule notify_state(1)[OF r(2)])
  have "sound (insert (ns_member c') T) R (fst (gossip_merge (ic_gossip ic) g))"
    by (rule sound_mono[OF subset_insertI subset_refl sound_merge[OF s]])
  then have s1: "sound (insert (ns_member c') T) R (ic_gossip ic1)"
    using mw me sound_up[of "insert (ns_member c') T" R _ "ns_member c1"] by (auto simp: merged_with_def Let_def split: if_splits)
  then have "sound_sent (insert (ns_member c') T) R out"
    using update_sent[OF r(1)] notify_sent[OF r(2)] by (auto simp: r(4) sent_quiet round_sound)
  with s1 show ?thesis by (simp add: r(3) update_frame(3)[OF r(1)])
qed

lemma ic_ping_sound:
  assumes "sound T R (ic_gossip ic)" and "m \<in> T" and "ic_ping env m c ic rt = Some (c', ic', rt', out)"
  shows "sound T R (ic_gossip ic') \<and> sound_sent T R out"
proof (cases "om_get (states (ic_gossip ic)) m = None")
  case True
  with assms(3) obtain ic2 out2 nts where r: "ic' = ic2" "out = out2 @ nts @ [gossip_round env c' ic2 {m}]"
    "update_charges_managers env c (ic\<lparr>ic_gossip := (ic_gossip ic)\<lparr>states := om_insert m Up (states (ic_gossip ic))\<rparr>,
       ic_ring := ring_insert (env_hash env) (env_wyrng env) m (ic_ring ic), ic_members := insert m (ic_members ic)\<rparr>) = Some (ic2, out2)"
    "notify env ic2 c [Added m] = (c', nts)"
    by (auto simp: ic_ping_def Let_def split: option.splits prod.splits)
  have "sound T R (ic_gossip ic2)" using update_frame(3)[OF r(3)] sound_up[OF assms(1,2)] by simp
  then show ?thesis using update_sent[OF r(3)] notify_sent[OF r(4)] by (simp add: r(1,2) sent_quiet round_sound)
next
  case False
  with assms(1,3) show ?thesis by (auto simp: ic_ping_def round_sound)
qed

lemma ic_down_sound:
  assumes "sound T R (ic_gossip ic)" and "ic_down env m c ic rt = Some (c', ic', rt', out)"
  shows "sound T (insert m R) (ic_gossip ic') \<and> sound_sent T (insert m R) out"
proof -
  note s = sound_mono[OF subset_refl subset_insertI assms(1), of m]
  consider "om_get (states (ic_gossip ic)) m = Some Down" | "om_get (states (ic_gossip ic)) m = Some Up"
    using assms(2) by (cases "om_get (states (ic_gossip ic)) m" rule: option.exhaust)
      (auto simp: ic_down_def intro: machine_state.exhaust)
  then show ?thesis
  proof cases
    case 1
    with assms(2) s show ?thesis by (auto simp: ic_down_def)
  next
    case 2
    then have m: "m \<in> T" using assms(1) by (auto simp: sound_def gossip_known_def)
    from 2 assms(2) obtain ring' ic2 out2 nts where r: "ic' = ic2" "out = out2 @ [gossip_round env c ic2 {m}] @ nts"
      "update_charges_managers env c (ic\<lparr>ic_gossip := (ic_gossip ic)\<lparr>states := om_insert m Down (states (ic_gossip ic))\<rparr>,
         ic_ring := ring', ic_members := ic_members ic - {m}\<rparr>) = Some (ic2, out2)"
      "notify env ic2 c [Removed m] = (c', nts)"
      by (auto simp: ic_down_def Let_def split: option.splits prod.splits sum.splits if_splits)
    have "sound T (insert m R) (ic_gossip ic2)" using update_frame(3)[OF r(3)] sound_down[OF s m] by simp
    then show ?thesis using update_sent[OF r(3)] notify_sent[OF r(4)] by (simp add: r(1,2) sent_quiet round_sound)
  qed
qed

lemma png_join_sound:
  assumes "sound T R g" and "png_join env g ms c rt = Some (c', st, rt', out)"
  shows "sound_sent T R out \<and> ns_member c' = ns_member c \<and>
    (case st of Some (In_Cluster ic) \<Rightarrow> sound T R (ic_gossip ic) | _ \<Rightarrow> True)"
proof -
  obtain h rt1 where h: "schedule_gossip_timeout c rt = (h, rt1)" by (cases "schedule_gossip_timeout c rt")
  let ?ic = "\<lparr>ic_charges = (\<lambda>_. None), ic_managers = [], ic_gossip = g, ic_members = set ms,
     ic_ring = fold (ring_insert (env_hash env) (env_wyrng env)) ms (ring_new (replication_factor (clr_config c))), gossip_handle = h\<rparr>"
  from assms(2) h obtain ic1 out1 nts where r: "update_charges_managers env c ?ic = Some (ic1, out1)"
    "notify env ic1 c [Joined (ns_member c)] = (c', nts)" "st = Some (In_Cluster ic1)" "out = out1 @ [gossip_round env c ic1 {}] @ nts"
    by (auto simp: png_join_def Let_def split: option.splits prod.splits)
  have "sound T R (ic_gossip ic1)" using update_frame(3)[OF r(1)] assms(1) by simp
  then show ?thesis
    using update_sent[OF r(1)] notify_sent[OF r(2)] notify_state(1)[OF r(2)] by (simp add: r(3,4) sent_quiet round_sound)
qed


lemma sound_of_list: "set ms \<subseteq> T \<Longrightarrow> sound T R \<lparr>states = om_of_list (map (\<lambda>m. (m, Up)) ms)\<rparr>"
  by (auto simp: sound_def gossip_known_def downs_def om_get_of_list dest!: map_of_SomeD)

lemma png_process_sound:
  assumes s: "sound_msg T R msg" "ns_member c \<in> T" and res: "png_process env rid msg c rt = Some (c', st, rt', out)"
  shows "sound_sent (insert (ns_member c') T) R out \<and>
    (case st of Some (In_Cluster ic) \<Rightarrow> sound (insert (ns_member c') T) R (ic_gossip ic) | _ \<Rightarrow> True)"
proof (cases msg)
  case (State_Msg g)
  define c1 where "c1 = (if opt_filter (\<lambda>s. Down \<le> s) (om_get (states g) (ns_member c)) \<noteq> None then new_id env rid c else c)"
  define g' where "g' = (if om_get (states g) (ns_member c) = None \<or> opt_filter (\<lambda>s. Down \<le> s) (om_get (states g) (ns_member c)) \<noteq> None
    then g\<lparr>states := om_insert (ns_member c1) Up (states g)\<rparr> else g)"
  have join: "png_join env g' (map fst (filter (\<lambda>e. snd e < Down) (entries (states g')))) c1 rt = Some (c', st, rt', out)"
    using res unfolding png_process_def State_Msg Let_def intra_msg.case c1_def g'_def .
  have "sound (insert (ns_member c1) T) R g"
    by (rule sound_mono[OF subset_insertI subset_refl]) (use s(1) in \<open>simp add: sound_msg_def State_Msg\<close>)
  then have "sound (insert (ns_member c1) T) R g'" by (simp add: g'_def sound_up)
  note j = png_join_sound[OF this join]
  then have me: "ns_member c' = ns_member c1" by blast
  from j show ?thesis unfolding me by blast
next
  case (Ping m)
  show ?thesis
  proof (cases "m_socket m \<in> seed_nodes (clr_config c)")
    case True
    let ?g = "\<lparr>states = om_of_list [(m, Up), (ns_member c, Up)]\<rparr>"
    have join: "png_join env ?g (om_keys (states ?g)) c rt = Some (c', st, rt', out)"
      using res True by (simp add: png_process_def Ping Let_def)
    have "sound (insert (ns_member c) T) R ?g" 
      using sound_of_list[of "[m, ns_member c]" "insert (ns_member c) T" R] s(1) by (simp add: sound_msg_def Ping)
    note j = png_join_sound[OF this join]
    then have me: "ns_member c' = ns_member c" by blast
    from j show ?thesis unfolding me by blast
  next
    case False
    with res show ?thesis by (auto simp: png_process_def Ping)
  qed
qed (use res in \<open>auto simp: png_process_def sound_msg_def\<close>)

lemma create_cluster_sound:
  assumes "ns_member (common cl) \<in> T" and "create_cluster env cl rt = (cl', rt', out)"
  shows "sound_node T R cl' \<and> sound_sent T R out \<and> ns_member (common cl') = ns_member (common cl)"
proof -
  obtain ic rt1 where al: "alone env (common cl) rt = (ic, rt1)" by (cases "alone env (common cl) rt")
  from assms(2) al obtain c nts where n: "notify env ic (common cl) [Alone (ns_member (common cl))] = (c, nts)"
    "cl' = cl\<lparr>common := c, clr_state := In_Cluster ic\<rparr>" "out = nts"
    by (auto simp: create_cluster_def split: prod.splits)
  have "ic_gossip ic = \<lparr>states = om_of_list (map (\<lambda>m. (m, Up)) [ns_member (common cl)])\<rparr>"
    using al by (auto simp: alone_def split: prod.splits)
  then have "sound T R (ic_gossip ic)" using sound_of_list[of "[ns_member (common cl)]" T R] assms(1) by simp
  then show ?thesis
    using notify_sent[OF n(1)] notify_state(1)[OF n(1)] assms(1) by (simp add: n(2,3) sound_node_def sent_quiet)
qed

lemma png_ping_sound:
  assumes "png_ping c png rt = (png', rt', out)" and "ns_member c \<in> T"
  shows "sound_sent T R out"
  using assms by (auto simp: png_ping_def sound_msg_def split: prod.splits)

lemma pre_start_sound:
  assumes "ns_member (common cl) \<in> T" and "cluster_pre_start env cl rt = (cl', rt', out)"
  shows "sound_node T R cl' \<and> sound_sent T R out \<and> ns_member (common cl') = ns_member (common cl)"
proof (cases "seed_nodes (clr_config (common cl)) = {}")
  case True
  obtain cl1 rt1 out1 where cr: "create_cluster env cl rt = (cl1, rt1, out1)" by (cases "create_cluster env cl rt")
  with assms(2) True have "cl' = cl1" "out = out1" by (auto simp: cluster_pre_start_def)
  with create_cluster_sound[OF assms(1) cr] show ?thesis by simp
next
  case False
  with assms(2) obtain png rt1 png' rt2 where p: "png_ping (common cl) png rt1 = (png', rt2, out)" "cl' = cl\<lparr>clr_state := Pinging png'\<rparr>"
    by (auto simp: cluster_pre_start_def split: prod.splits)
  from png_ping_sound[OF p(1) assms(1)] show ?thesis using assms(1) by (simp add: p(2) sound_node_def)
qed


lemma cluster_recv_sound:
  assumes inv: "cluster_inv env U cl S" and adm: "admissible rid U cl S msg" and s: "sound_node T R cl"
    and m: "\<forall>m. msg = Intra_Msg m \<longrightarrow> sound_msg T R m" and res: "cluster_recv env rid msg cl rt = Some (cl', rt', out)"
  defines "T' \<equiv> insert (ns_member (common cl')) T" and "R' \<equiv> R \<union> reports msg"
  shows "sound_node T' R' cl' \<and> sound_sent T' R' out"
proof -
  have me: "ns_member (common cl) \<in> T" using s by (simp add: sound_node_def)
  have TT: "T \<subseteq> T'" and RR: "R \<subseteq> R'" by (auto simp: T'_def R'_def)
  have keep: "sound_node T' R' cl'"
    if "clr_state cl' = clr_state cl" "ns_member (common cl') = ns_member (common cl)"
    using sound_node_mono[OF TT RR s] that by (simp add: sound_node_def)
  consider (intra) i where "msg = Intra_Msg i" | (down) d where "msg = Downed d"
    | (subscribe) x where "msg = Subscribe x" | (failure) x where "msg = Failure_Map x"
    | (ping) "msg = Ping_Timeout" | (gossip) "msg = Gossip_Timeout" | (tick) "msg = Heartbeat_Tick"
    by (cases msg) auto
  then show ?thesis
  proof cases
    case intra
    then have R': "R' = R" by (simp add: R'_def reports_def)
    from res intra have st: "state_process env rid i cl rt = Some (cl', rt', out)" by (simp add: cluster_recv_def Let_def)
    show ?thesis
    proof (cases "clr_state cl")
      case (In_Cluster ic)
      with st obtain c ic' where p: "ic_process env rid i (common cl) ic rt = Some (c, ic', rt', out)"
        "cl' = cl\<lparr>common := c, clr_state := In_Cluster ic'\<rparr>"
        by (auto simp: state_process_def split: option.splits)
      have g: "sound T R (ic_gossip ic)" using s In_Cluster by (simp add: sound_node_def)
      have "sound T' R (ic_gossip ic') \<and> sound_sent T' R out"
      proof (cases i)
        case (State_Msg x)
        with inv adm In_Cluster intra have a: "ic_inv env U (common cl) ic" "gossip_known x \<subseteq> U"
          "fresh_ok rid U (common cl) (known ic \<union> gossip_known x)"
          by (simp_all add: cluster_inv_def admissible_def state_admissible_def)
        have x: "sound T R x" using m intra State_Msg by (simp add: sound_msg_def)
        from ic_state_sound[OF a g x, of rt c ic' rt' out] p show ?thesis by (simp add: ic_process_def State_Msg T'_def)
      next
        case (Ping x)
        have x: "x \<in> T" using m intra Ping by (simp add: sound_msg_def)
        from ic_ping_sound[OF g x, of env "common cl" rt c ic' rt' out] p sound_mono[OF TT subset_refl] sound_sent_mono[OF TT subset_refl, where out = out]
        show ?thesis by (simp add: ic_process_def Ping)
      qed (use p g sound_mono[OF TT subset_refl g] in \<open>auto simp: ic_process_def sound_msg_def\<close>)
      then show ?thesis by (simp add: p(2) sound_node_def T'_def R')
    next
      case (Pinging png)
      with st obtain c new_state where p: "png_process env rid i (common cl) rt = Some (c, new_state, rt', out)"
        "cl' = cl\<lparr>common := c, clr_state := unwrap_or new_state (Pinging png)\<rparr>"
        by (auto simp: state_process_def split: option.splits)
      have i: "sound_msg T R i" using m intra by simp
      from png_process_sound[OF i me p(1)] show ?thesis
        by (cases new_state) (auto simp: p(2) sound_node_def T'_def R')
    next
      case Left
      with st have "cl' = cl" "out = []" by (simp_all add: state_process_def)
      then show ?thesis using keep by simp
    qed
  next
    case (down d)
    show ?thesis
    proof (cases "clr_state cl")
      case (In_Cluster ic)
      with res down obtain c ic' where p: "ic_down env d (common cl) ic rt = Some (c, ic', rt', out)"
        "cl' = cl\<lparr>common := c, clr_state := In_Cluster ic'\<rparr>"
        by (auto simp: cluster_recv_def Let_def split: option.splits)
      have g: "sound T R (ic_gossip ic)" using s In_Cluster by (simp add: sound_node_def)
      have R': "R' = insert d R" by (auto simp: R'_def reports_def down)
      from ic_down_sound[OF g p(1)] sound_mono[OF TT subset_refl] sound_sent_mono[OF TT subset_refl, where out = out]
      show ?thesis by (simp add: p(2) sound_node_def R' T'_def)
    next
      case (Pinging png)
      with res down show ?thesis using keep by (simp add: cluster_recv_def Let_def)
    next
      case Left
      with res down show ?thesis using keep by (simp add: cluster_recv_def Let_def)
    qed
  next
    case subscribe
    with res have "clr_state cl' = clr_state cl" "ns_member (common cl') = ns_member (common cl)" "sent out = {}"
      by (auto simp: cluster_recv_def Let_def split: clr_state.splits)
    then show ?thesis using keep by (simp add: sent_quiet)
  next
    case failure
    with res have "clr_state cl' = clr_state cl" "ns_member (common cl') = ns_member (common cl)" "sent out = {}"
      by (auto simp: cluster_recv_def Let_def)
    then show ?thesis using keep by (simp add: sent_quiet)
  next
    case ping
    show ?thesis
    proof (cases "clr_state cl")
      case (Pinging png)
      show ?thesis
      proof (cases "png_count png = 0")
        case True
        with res ping Pinging have "create_cluster env cl rt = (cl', rt', out)" by (simp add: cluster_recv_def Let_def)
        from create_cluster_sound[OF _ this, of T' R'] me TT show ?thesis by auto
      next
        case False
        with res ping Pinging obtain png' where p: "png_ping (common cl) png rt = (png', rt', out)" "cl' = cl\<lparr>clr_state := Pinging png'\<rparr>"
          by (auto simp: cluster_recv_def Let_def split: prod.splits)
        have "ns_member (common cl) \<in> T'" using me TT by blast
        from png_ping_sound[OF p(1) this] this show ?thesis by (simp add: p(2) sound_node_def)
      qed
    qed (use res ping keep in \<open>simp_all add: cluster_recv_def Let_def\<close>)
  next
    case gossip
    show ?thesis
    proof (cases "clr_state cl")
      case (In_Cluster ic)
      with res gossip have r: "cl' = cl" "out = [gossip_round env (common cl) ic {}, gossip_reqs env (common cl) ic]"
        by (auto simp: cluster_recv_def Let_def)
      have g: "sound T' R' (ic_gossip ic)" using sound_mono[OF TT RR] s In_Cluster by (simp add: sound_node_def)
      have "sound_sent T' R' out" unfolding r(2) by (simp add: round_sound[OF g] reqs_sound)
      then show ?thesis using keep r(1) by simp
    qed (use res gossip keep in \<open>simp_all add: cluster_recv_def Let_def\<close>)
  next
    case tick
    with res have "clr_state cl' = clr_state cl" "ns_member (common cl') = ns_member (common cl)" "sent out = {}"
      by (auto simp: cluster_recv_def Let_def split: clr_state.splits)
    then show ?thesis using keep by (simp add: sent_quiet)
  qed
qed


subsection \<open>The invariant of the network\<close>

definition clr_net_inv :: "('n \<Rightarrow> ('u, 's) cluster_env) \<Rightarrow> member set \<Rightarrow> ('n, 'u, 's, 'f) clr_net \<Rightarrow> bool" where
  "clr_net_inv env U net \<longleftrightarrow>
     (\<forall>n cl rt S. cn_nodes net n = Some (cl, rt, S) \<longrightarrow>
        cluster_reach (env n) U cl rt S \<and> sound_node (cn_taken net) (cn_reported net) cl) \<and>
     (\<forall>p\<in>cn_wire net. sound_msg (cn_taken net) (cn_reported net) (snd p)) \<and> cn_taken net \<subseteq> U"

lemma clr_net_invD:
  assumes "clr_net_inv env U net" and "cn_nodes net n = Some (cl, rt, S)"
  shows "cluster_reach (env n) U cl rt S" "sound_node (cn_taken net) (cn_reported net) cl"
  using assms unfolding clr_net_inv_def by blast+

text \<open>What arrives meets the conditions of a single node.\<close>

lemma arrives_admissible:
  assumes inv: "clr_net_inv env U net" and n: "cn_nodes net n = Some (cl, rt, S)"
    and a: "arrives net (cl, rt, S) msg" and d: "draws U net rid cl"
  shows "admissible rid U cl S msg" "\<And>m. msg = Intra_Msg m \<Longrightarrow> sound_msg (cn_taken net) (cn_reported net) m"
proof -
  show s: "sound_msg (cn_taken net) (cn_reported net) m" if "msg = Intra_Msg m" for m
  proof (cases "(m_socket (ns_member (common cl)), m) \<in> cn_wire net")
    case True
    with inv show ?thesis unfolding clr_net_inv_def by force
  next
    case False
    with a that show ?thesis by (cases m) (auto simp: arrives_def sound_msg_def)
  qed
  show "admissible rid U cl S msg"
  proof (cases msg)
    case (Intra_Msg m)
    note sm = s[OF this]
    have T: "cn_taken net \<subseteq> U" using inv by (simp add: clr_net_inv_def)
    have "(case clr_state cl of In_Cluster ic \<Rightarrow> known ic | _ \<Rightarrow> {}) \<subseteq> cn_taken net"
      using clr_net_invD(2)[OF inv n] by (auto simp: sound_node_def sound_def known_gossip split: clr_state.splits)
    with sm T d show ?thesis
      unfolding admissible_def Intra_Msg
      by (cases m) (auto simp: state_admissible_def fresh_ok_def draws_def sound_msg_def sound_def)
  next
    case (Downed m)
    with a show ?thesis by (simp add: admissible_def arrives_def)
  qed (simp_all add: admissible_def)
qed

lemma advance_inv:
  assumes inv: "clr_net_inv env U net" and me: "ns_member (common cl) \<in> U"
    and "cluster_reach (env n) U cl rt S" and R: "cn_reported net \<subseteq> R"
    and s: "sound_node (insert (ns_member (common cl)) (cn_taken net)) R cl"
      "sound_sent (insert (ns_member (common cl)) (cn_taken net)) R out"
  shows "clr_net_inv env U (advance n (cl, rt, S) out (net\<lparr>cn_reported := R\<rparr>))"
proof -
  let ?T = "insert (ns_member (common cl)) (cn_taken net)"
  have "sound_msg ?T R (snd p)" if "p \<in> cn_wire net" for p
    using inv that sound_msg_mono[OF subset_insertI R] unfolding clr_net_inv_def by blast
  moreover have "sound_node ?T R cl'" if "cn_nodes net k = Some (cl', rt', S')" for k cl' rt' S'
    using sound_node_mono[OF subset_insertI R clr_net_invD(2)[OF inv that]] .
  ultimately show ?thesis
    using assms unfolding clr_net_inv_def advance_def sound_sent_def by auto
qed

lemma clr_net_reach_inv:
  assumes nc: "\<And>n. no_collisions (env_hash (env n)) (env_wyrng (env n)) U" and "clr_net_reach env U net"
  shows "clr_net_inv env U net"
  using assms(2)
proof (induction rule: clr_net_reach.induct)
  case start
  show ?case by (simp add: clr_net_inv_def clr_net_start_def)
next
  case (boot net n cl sock name subrs fm cfg hcfg rid rt cl' rt' out)
  let ?T = "insert (ns_member (common cl)) (cn_taken net)"
  from pre_start_sound[OF insertI1 boot.hyps(5)] have s: "sound_node ?T (cn_reported net) cl'" "sound_sent ?T (cn_reported net) out"
    "ns_member (common cl') = ns_member (common cl)" by blast+
  have U: "ns_member (common cl) \<in> U" using boot.hyps(4) by blast
  have r: "cluster_reach (env n) U cl' rt' (spawned out)" by (rule cluster_reach.start[OF nc boot.hyps(3) U boot.hyps(5)])
  have "net = net\<lparr>cn_reported := cn_reported net\<rparr>" by simp
  then show ?case using advance_inv[OF boot.IH _ r subset_refl, of out] s U by simp
next
  case (crash net n)
  then show ?case by (auto simp: clr_net_inv_def split: if_splits)
next
  case (recv net n cl rt S msg rid cl' rt' out)
  note adm = arrives_admissible[OF recv.IH recv.hyps(2-4)]
  note reach = clr_net_invD[OF recv.IH recv.hyps(2)]
  have r: "cluster_reach (env n) U cl' rt' (S \<union> spawned out)" by (rule cluster_reach.recv[OF reach(1) adm(1) recv.hyps(5)])
  have U: "ns_member (common cl') \<in> U" using cluster_reach_cluster_inv[OF r] by (simp add: cluster_inv_def)
  have "\<forall>m. msg = Intra_Msg m \<longrightarrow> sound_msg (cn_taken net) (cn_reported net) m" using adm(2) by blast
  from cluster_recv_sound[OF cluster_reach_cluster_inv[OF reach(1)] adm(1) reach(2) this recv.hyps(5)]
  show ?case using advance_inv[OF recv.IH U r Un_upper1] by blast
next
  case (timer net n cl rt S h)
  note reach = clr_net_invD[OF timer.IH timer.hyps(2)]
  from cluster_reach.timer[OF reach(1)] reach(2) timer.IH show ?case
    by (auto simp: clr_net_inv_def split: if_splits)
qed

text \<open>
  Property C1.  No cluster actor of a network panics.  Nodes start and crash at any time, messages are lost,
  repeated and reordered, and only the heartbeat receivers a node has spawned report members down: then
  every message that can arrive at a node is handled, without assumptions on what the other nodes send.
  Identities are drawn from a universe without collisions on the ring, and never twice.
\<close>

theorem cluster_network_never_panics:
  assumes "clr_net_reach env U net" and "\<forall>n. no_collisions (env_hash (env n)) (env_wyrng (env n)) U"
    and "cn_nodes net n = Some (cl, rt, S)" and "arrives net (cl, rt, S) msg" and "draws U net rid cl"
  shows "cluster_recv (env n) rid msg cl rt \<noteq> None"
proof -
  have inv: "clr_net_inv env U net" by (rule clr_net_reach_inv) (use assms(1,2) in auto)
  from cluster_recv_inv[OF cluster_reach_cluster_inv[OF clr_net_invD(1)[OF inv assms(3)]] arrives_admissible(1)[OF inv assms(3-5)], of rt]
  show ?thesis by auto
qed

text \<open>
  Property C5.  No rumours.  Whatever the network does, all that a node in the cluster knows of are
  identities that some node has taken; it holds down only members that a heartbeat receiver has reported,
  itself never; and every member it knows of that was never reported is one of its members.
\<close>

theorem cluster_no_rumours:
  assumes "clr_net_reach env U net" and "\<forall>n. no_collisions (env_hash (env n)) (env_wyrng (env n)) U"
    and "cn_nodes net n = Some (cl, rt, S)" and "clr_state cl = In_Cluster ic"
  shows "known ic \<subseteq> cn_taken net \<and> known ic - ic_members ic \<subseteq> cn_reported net \<and>
    ns_member (common cl) \<in> ic_members ic \<and> ic_members ic \<subseteq> known ic"
proof -
  have inv: "clr_net_inv env U net" by (rule clr_net_reach_inv) (use assms(1,2) in auto)
  note r = clr_net_invD[OF inv assms(3)]
  from r(2) assms(4) have s: "sound (cn_taken net) (cn_reported net) (ic_gossip ic)" by (simp add: sound_node_def)
  from cluster_reach_cluster_inv[OF r(1)] assms(4) have ii: "ic_inv (env n) U (common cl) ic" by (simp add: cluster_inv_def)
  have "m \<in> downs (ic_gossip ic)" if "m \<in> known ic - up_members (ic_gossip ic)" for m
    using that by (auto simp: known_def up_members_def downs_def intro: machine_state.exhaust)
  then show ?thesis
    using s ic_invD(3,6)[OF ii] up_members_known[of ic] by (auto simp: sound_def known_gossip)
qed


subsection \<open>An exchange of gossip\<close>

lemma state_msg_run:
  assumes inv: "cluster_inv env U cl S" and ic: "clr_state cl = In_Cluster ic"
    and adm: "admissible rid U cl S (Intra_Msg (State_Msg g))"
  obtains cl' ic' rt' out where "cluster_recv env rid (Intra_Msg (State_Msg g)) cl rt = Some (cl', rt', out)"
    "clr_state cl' = In_Cluster ic'" "ic_inv env U (common cl') ic'" "same_node (common cl) (common cl')"
    "ic_gossip ic' = (if om_get (states (ic_gossip ic)) (ns_member (common cl)) = Some Up \<and>
         om_get (states g) (ns_member (common cl)) = Some Down
       then (let g' = fst (gossip_merge (ic_gossip ic) g) in
         g'\<lparr>states := om_insert (fresh_self rid (common cl)) Up (states g')\<rparr>)
       else fst (gossip_merge (ic_gossip ic) g))"
    "ns_member (common cl') = (if om_get (states (ic_gossip ic)) (ns_member (common cl)) = Some Up \<and>
         om_get (states g) (ns_member (common cl)) = Some Down then fresh_self rid (common cl) else ns_member (common cl))"
proof -
  from inv adm ic have a: "ic_inv env U (common cl) ic" "gossip_known g \<subseteq> U" "fresh_ok rid U (common cl) (known ic \<union> gossip_known g)"
    by (simp_all add: cluster_inv_def admissible_def state_admissible_def)
  show thesis
  proof (rule ic_state_run[OF a, of rt])
    fix c1 ic1 ns ic2 out c2 nts h rt2 rounds
    assume mw: "merged_with env rid g (common cl) ic c1 ic1 ns" "same_node (common cl) c1"
      and up: "ic_inv env U c1 ic2" "ic_gossip ic2 = ic_gossip ic1"
      and n: "notify env ic2 c1 (snd (gossip_merge (ic_gossip ic) g) @ (case ns of Some e \<Rightarrow> [e] | None \<Rightarrow> [])) = (c2, nts)"
      and run: "ic_state env rid g (common cl) ic rt = Some (c2, ic2\<lparr>gossip_handle := h\<rparr>, rt2, rounds @ out @ nts)"
    note nt = notify_state[OF n]
    have rem: "Removed (ns_member (common cl)) \<in> set (snd (gossip_merge (ic_gossip ic) g)) \<longleftrightarrow>
        om_get (states (ic_gossip ic)) (ns_member (common cl)) = Some Up \<and> om_get (states g) (ns_member (common cl)) = Some Down"
      by (auto simp: set_merge_events)
    let ?cl = "cl\<lparr>common := c2, clr_state := In_Cluster (ic2\<lparr>gossip_handle := h\<rparr>)\<rparr>"
    have r: "cluster_recv env rid (Intra_Msg (State_Msg g)) cl rt = Some (?cl, rt2, rounds @ out @ nts)"
      by (simp add: cluster_recv_def state_process_def ic ic_process_def run)
    have i: "ic_inv env U (common ?cl) (ic2\<lparr>gossip_handle := h\<rparr>)" using up(1) ic_inv_cong[OF nt(1,2)] by simp
    have s: "same_node (common cl) (common ?cl)" using mw(2) nt(2) by (simp add: same_node_def)
    show thesis
      by (rule that[OF r _ i s]) (use mw(1) up(2) nt(1) in \<open>simp_all add: merged_with_def rem Let_def split: if_splits\<close>)
  qed
qed

lemma merge_absorbs:
  assumes "\<And>m. om_get (states a) m \<le> om_get (states b) m"
  shows "fst (gossip_merge a b) = b"
  by (rule gossip_eqI) (simp add: om_get_gossip_merge max_absorb2[OF assms])

text \<open>
  Property C12.  One exchange of gossip settles two nodes.  A node of the network handles the gossip of
  another one and answers with its own: if it does not hold the other one down, both have the same gossip
  state afterwards, hence the same members and, with the same configuration, the same ring.
\<close>

theorem gossip_exchange_agrees:
  assumes "clr_net_reach env U net" and "\<forall>n. no_collisions (env_hash (env n)) (env_wyrng (env n)) U"
    and "cn_nodes net a = Some (cla, rta, Sa)" and "clr_state cla = In_Cluster ica"
    and "cn_nodes net b = Some (clb, rtb, Sb)" and "clr_state clb = In_Cluster icb"
    and "draws U net rid cla" and "draws U net rid' clb" and "fresh_self rid (common cla) \<noteq> fresh_self rid' (common clb)"
    and "om_get (states (ic_gossip icb)) (ns_member (common cla)) \<noteq> Some Down"
  shows "\<exists>clb' icb' rtb' outb cla' ica' rta' outa.
    cluster_recv (env b) rid' (Intra_Msg (State_Msg (ic_gossip ica))) clb rtb = Some (clb', rtb', outb) \<and> clr_state clb' = In_Cluster icb' \<and>
    cluster_recv (env a) rid (Intra_Msg (State_Msg (ic_gossip icb'))) cla rta = Some (cla', rta', outa) \<and> clr_state cla' = In_Cluster ica' \<and>
    ic_gossip ica' = ic_gossip icb' \<and> ic_members ica' = ic_members icb' \<and>
    (env_hash (env a) = env_hash (env b) \<and> env_wyrng (env a) = env_wyrng (env b) \<and>
       replication_factor (clr_config (common cla)) = replication_factor (clr_config (common clb)) \<longrightarrow> ic_ring ica' = ic_ring icb')"
proof -
  have inv: "clr_net_inv env U net" by (rule clr_net_reach_inv) (use assms(1,2) in auto)
  have TU: "cn_taken net \<subseteq> U" using inv by (simp add: clr_net_inv_def)
  note ra = clr_net_invD[OF inv assms(3)] and rb = clr_net_invD[OF inv assms(5)]
  note ia = cluster_reach_cluster_inv[OF ra(1)] and ib = cluster_reach_cluster_inv[OF rb(1)]
  have ka: "known ica \<subseteq> cn_taken net" and kb: "known icb \<subseteq> cn_taken net"
    using ra(2) rb(2) assms(4,6) by (simp_all add: sound_node_def sound_def known_gossip)
  have fa: "fresh_self rid (common cla) \<in> U - cn_taken net" and fb: "fresh_self rid' (common clb) \<in> U - cn_taken net"
    using assms(7,8) by (simp_all add: draws_def)
  have admb: "admissible rid' U clb Sb (Intra_Msg (State_Msg (ic_gossip ica)))"
    using ka kb fb TU assms(6) by (auto simp: admissible_def state_admissible_def fresh_ok_def known_gossip)
  obtain clb' icb' rtb' outb where b: "cluster_recv (env b) rid' (Intra_Msg (State_Msg (ic_gossip ica))) clb rtb = Some (clb', rtb', outb)"
    "clr_state clb' = In_Cluster icb'" "ic_inv (env b) U (common clb') icb'" "same_node (common clb) (common clb')"
    "ic_gossip icb' = (if om_get (states (ic_gossip icb)) (ns_member (common clb)) = Some Up \<and>
         om_get (states (ic_gossip ica)) (ns_member (common clb)) = Some Down
       then (let g' = fst (gossip_merge (ic_gossip icb) (ic_gossip ica)) in
         g'\<lparr>states := om_insert (fresh_self rid' (common clb)) Up (states g')\<rparr>)
       else fst (gossip_merge (ic_gossip icb) (ic_gossip ica)))"
    by (rule state_msg_run[OF ib assms(6) admb, of rtb])
  have kb': "gossip_known (ic_gossip icb') \<subseteq> insert (fresh_self rid' (common clb)) (cn_taken net)"
    using ka kb by (auto simp: b(5) Let_def known_merge known_gossip)
  have adma: "admissible rid U cla Sa (Intra_Msg (State_Msg (ic_gossip icb')))"
    using ka kb' fa fb TU assms(4,9) by (auto simp: admissible_def state_admissible_def fresh_ok_def known_gossip)
  have fb': "om_get (states (ic_gossip ica)) (fresh_self rid' (common clb)) = None"
    using ka fb by (auto simp: known_def)
  have le: "om_get (states (ic_gossip ica)) m \<le> om_get (states (ic_gossip icb')) m" for m
    using fb' by (simp add: b(5) Let_def om_get_gossip_merge)
  have me: "om_get (states (ic_gossip ica)) (ns_member (common cla)) = Some Up"
    using ia assms(4) ic_invD(3,6)[of "env a" U "common cla" ica] by (simp add: cluster_inv_def up_members_def)
  have alive: "om_get (states (ic_gossip icb')) (ns_member (common cla)) \<noteq> Some Down"
    using me assms(10) by (auto simp: b(5) Let_def om_get_gossip_merge max_def)
  obtain cla' ica' rta' outa where a: "cluster_recv (env a) rid (Intra_Msg (State_Msg (ic_gossip icb'))) cla rta = Some (cla', rta', outa)"
    "clr_state cla' = In_Cluster ica'" "ic_inv (env a) U (common cla') ica'" "same_node (common cla) (common cla')"
    "ic_gossip ica' = fst (gossip_merge (ic_gossip ica) (ic_gossip icb'))"
    by (rule state_msg_run[OF ia assms(4) adma, of rta]) (use alive in simp)
  have g: "ic_gossip ica' = ic_gossip icb'" unfolding a(5) by (rule merge_absorbs[OF le])
  note da = ic_invD[OF a(3)] and db = ic_invD[OF b(3)]
  have m: "ic_members ica' = ic_members icb'" using da(6) db(6) g by simp
  have "ic_ring ica' = ic_ring icb'" if "env_hash (env a) = env_hash (env b)" "env_wyrng (env a) = env_wyrng (env b)"
    "replication_factor (clr_config (common cla)) = replication_factor (clr_config (common clb))"
    using ring_of_eqI[OF da(4), of "ic_ring icb'"] db(4,5) da(5) m that a(4) b(4) by (simp add: same_node_def)
  with a(1,2) b(1,2) g m show ?thesis by blast
qed


subsection \<open>Instance\<close>

text \<open>Nodes at two ports; the identifiers 3 and 4 are left to draw.\<close>

definition net_member :: "u64 \<Rightarrow> u16 \<Rightarrow> member" where
  "net_member i p = Member (Socket (DNS ''node'') p 0) i 1"

definition net_universe :: "member set" where
  "net_universe = {net_member 1 1, net_member 2 2, net_member 3 1, net_member 4 2}"

definition net_node :: "u64 \<Rightarrow> u16 \<Rightarrow> socket set \<Rightarrow> (nat, nat, nat) cluster" where
  "net_node i p seeds = cluster_new sample_env (Socket (DNS ''node'') p 0) ''clr'' [] sample_fail_map
     (default_cluster_config\<lparr>seed_nodes := seeds\<rparr>) sample_hbr_config i"

definition net_runtime :: runtime where
  "net_runtime = \<lparr>next_handle = 0, pending = []\<rparr>"

lemma net_universe_safe: "no_collisions (env_hash sample_env) (env_wyrng sample_env) net_universe"
proof -
  have n: "num_vnodes (net_member i p) = 1" "m_id (net_member i p) = i" "m_vnodes (net_member i p) = 1" for i p
    by (simp_all add: net_member_def num_vnodes_def)
  show ?thesis
    unfolding no_collisions_def vnode_key_def net_universe_def ball_simps n all_less_1 by (simp add: n net_member_def)
qed

lemma net_node_member: "ns_member (common (net_node i p seeds)) = net_member i p"
  by (simp add: net_node_def cluster_new_def Let_def net_member_def default_cluster_config_def)

lemma net_node_alone:
  obtains cl rt ic where "cluster_pre_start sample_env (net_node i p {}) net_runtime = (cl, rt, [])"
    "clr_state cl = In_Cluster ic" "ic_gossip ic = \<lparr>states = om_of_list [(net_member i p, Up)]\<rparr>"
    "ns_member (common cl) = net_member i p" "fresh_self rid (common cl) = net_member rid p"
    "clr_config (common cl) = clr_config (common (net_node i p {}))"
proof -
  have seeds: "seed_nodes (clr_config (common (net_node i p {}))) = {}" "subscribers (common (net_node i p {})) = []"
    by (simp_all add: net_node_def cluster_new_def Let_def)
  obtain ic rt1 where al: "alone sample_env (common (net_node i p {})) net_runtime = (ic, rt1)"
    by (cases "alone sample_env (common (net_node i p {})) net_runtime")
  then have g: "ic_gossip ic = \<lparr>states = om_of_list [(net_member i p, Up)]\<rparr>"
    by (auto simp: alone_def net_node_member split: prod.splits)
  let ?cl = "(net_node i p {})\<lparr>common := (common (net_node i p {}))\<lparr>subscribers := []\<rparr>, clr_state := In_Cluster ic\<rparr>"
  have "create_cluster sample_env (net_node i p {}) net_runtime = (?cl, rt1, [])"
    using seeds(2) by (simp add: create_cluster_def al notify_def Let_def)
  then obtain rt where "cluster_pre_start sample_env (net_node i p {}) net_runtime = (?cl, rt, [])"
    using seeds(1) by (simp add: cluster_pre_start_def)
  moreover have "fresh_self rid (common ?cl) = net_member rid p"
    by (simp add: fresh_self_def net_node_member) (simp add: net_member_def)
  ultimately show thesis
    using that[of ?cl rt ic] g by (simp add: net_node_member)
qed

lemma net_boot:
  fixes net :: "(nat, nat, nat, nat) clr_net"
  assumes "clr_net_reach (\<lambda>_. sample_env) net_universe net" "cn_nodes net n = None" "net_member i p \<in> net_universe - cn_taken net"
    and "cluster_pre_start sample_env (net_node i p seeds) rt = (cl, rt', out)"
  shows "clr_net_reach (\<lambda>_. sample_env) net_universe (advance n (cl, rt', spawned out) out net)"
proof (rule clr_net_reach.boot[where env = "\<lambda>_. sample_env"])
  show "net_node i p seeds = cluster_new ((\<lambda>_. sample_env) n) (Socket (DNS ''node'') p 0) ''clr'' [] sample_fail_map
      (default_cluster_config\<lparr>seed_nodes := seeds\<rparr>) sample_hbr_config i"
    by (simp add: net_node_def)
  show "ns_member (common (net_node i p seeds)) \<in> net_universe - cn_taken net" using assms(3) by (simp add: net_node_member)
  show "cluster_pre_start ((\<lambda>_. sample_env) n) (net_node i p seeds) rt = (cl, rt', out)" using assms(4) by simp
qed (use assms(1,2) in auto)

text \<open>Two nodes that have started alone.\<close>

lemma net_two_nodes:
  obtains net :: "(nat, nat, nat, nat) clr_net" and cla rta ica clb rtb icb where
    "clr_net_reach (\<lambda>_. sample_env) net_universe net" "cn_nodes net 0 = Some (cla, rta, {})" "cn_nodes net 1 = Some (clb, rtb, {})"
    "clr_state cla = In_Cluster ica" "clr_state clb = In_Cluster icb"
    "ic_gossip ica = \<lparr>states = om_of_list [(net_member 1 1, Up)]\<rparr>" "ic_gossip icb = \<lparr>states = om_of_list [(net_member 2 2, Up)]\<rparr>"
    "ns_member (common cla) = net_member 1 1" "ns_member (common clb) = net_member 2 2"
    "fresh_self 3 (common cla) = net_member 3 1" "fresh_self 4 (common clb) = net_member 4 2"
    "cn_taken net = {net_member 1 1, net_member 2 2}" "cn_reported net = {}"
proof -
  obtain cla rta ica where a: "cluster_pre_start sample_env (net_node 1 1 {}) net_runtime = (cla, rta, [])"
    "clr_state cla = In_Cluster ica" "ic_gossip ica = \<lparr>states = om_of_list [(net_member 1 1, Up)]\<rparr>"
    "ns_member (common cla) = net_member 1 1" "fresh_self 3 (common cla) = net_member 3 1"
    by (rule net_node_alone[of 1 1 3])
  obtain clb rtb icb where b: "cluster_pre_start sample_env (net_node 2 2 {}) net_runtime = (clb, rtb, [])"
    "clr_state clb = In_Cluster icb" "ic_gossip icb = \<lparr>states = om_of_list [(net_member 2 2, Up)]\<rparr>"
    "ns_member (common clb) = net_member 2 2" "fresh_self 4 (common clb) = net_member 4 2"
    by (rule net_node_alone[of 2 2 4])
  let ?n1 = "advance 0 (cla, rta, spawned ([] :: (nat, nat) cluster_effect list)) ([] :: (nat, nat) cluster_effect list) (clr_net_start :: (nat, nat, nat, nat) clr_net)"
  let ?n2 = "advance 1 (clb, rtb, spawned ([] :: (nat, nat) cluster_effect list)) ([] :: (nat, nat) cluster_effect list) ?n1"
  have r1: "clr_net_reach (\<lambda>_. sample_env) net_universe ?n1"
    by (rule net_boot[OF clr_net_reach.start _ _ a(1)]) (simp_all add: clr_net_start_def net_universe_def)
  have "clr_net_reach (\<lambda>_. sample_env) net_universe ?n2"
    by (rule net_boot[OF r1 _ _ b(1)]) (simp_all add: clr_net_start_def advance_def a(4) net_universe_def net_member_def)
  then show thesis
    by (rule that[OF _ _ _ a(2) b(2) a(3) b(3) a(4) b(4) a(5) b(5)])
      (auto simp: advance_def clr_net_start_def a(4) b(4))
qed

theorem cluster_network_never_panics_witness:
  "\<exists>(net :: (nat, nat, nat, nat) clr_net) cl rt. clr_net_reach (\<lambda>_. sample_env) net_universe net \<and>
     cn_nodes net 0 = Some (cl, rt, {}) \<and> cluster_recv sample_env 3 (Intra_Msg (Req_Heartbeat (net_member 2 2) 1)) cl rt \<noteq> None"
proof -
  obtain net :: "(nat, nat, nat, nat) clr_net" and cla rta where
    n: "clr_net_reach (\<lambda>_. sample_env) net_universe net" "cn_nodes net 0 = Some (cla, rta, {})"
      "fresh_self 3 (common cla) = net_member 3 1" "cn_taken net = {net_member 1 1, net_member 2 2}"
    by (rule net_two_nodes)
  have "draws net_universe net 3 cla" by (simp add: draws_def n(3,4) net_universe_def net_member_def)
  moreover have "arrives net (cla, rta, {}) (Intra_Msg (Req_Heartbeat (net_member 2 2) 1))" by (simp add: arrives_def)
  moreover have "\<forall>n::nat. no_collisions (env_hash sample_env) (env_wyrng sample_env) net_universe" using net_universe_safe by blast
  ultimately show ?thesis
    using cluster_network_never_panics[OF n(1) _ n(2)] n(1,2) by blast
qed

theorem cluster_no_rumours_witness:
  "\<exists>(net :: (nat, nat, nat, nat) clr_net) cl rt ic. clr_net_reach (\<lambda>_. sample_env) net_universe net \<and>
     cn_nodes net 0 = Some (cl, rt, {}) \<and> clr_state cl = In_Cluster ic \<and> ic_members ic = known ic"
proof -
  obtain net :: "(nat, nat, nat, nat) clr_net" and cla rta ica where
    n: "clr_net_reach (\<lambda>_. sample_env) net_universe net" "cn_nodes net 0 = Some (cla, rta, {})"
      "clr_state cla = In_Cluster ica" "cn_reported net = {}"
    by (rule net_two_nodes)
  have "\<forall>n::nat. no_collisions (env_hash sample_env) (env_wyrng sample_env) net_universe" using net_universe_safe by blast
  from cluster_no_rumours[OF n(1) this n(2,3)] n(4) have "ic_members ica = known ica" by blast
  with n show ?thesis by blast
qed

theorem gossip_exchange_agrees_witness:
  "\<exists>(net :: (nat, nat, nat, nat) clr_net) cla rta clb rtb g cla' rta' outa ica'. clr_net_reach (\<lambda>_. sample_env) net_universe net \<and>
     cn_nodes net 0 = Some (cla, rta, {}) \<and> cn_nodes net 1 = Some (clb, rtb, {}) \<and>
     cluster_recv sample_env 3 (Intra_Msg (State_Msg g)) cla rta = Some (cla', rta', outa) \<and>
     clr_state cla' = In_Cluster ica' \<and> ic_gossip ica' = g"
proof -
  obtain net :: "(nat, nat, nat, nat) clr_net" and cla rta ica clb rtb icb where
    n: "clr_net_reach (\<lambda>_. sample_env) net_universe net" "cn_nodes net 0 = Some (cla, rta, {})" "cn_nodes net 1 = Some (clb, rtb, {})"
    "clr_state cla = In_Cluster ica" "clr_state clb = In_Cluster icb"
    "ic_gossip icb = \<lparr>states = om_of_list [(net_member 2 2, Up)]\<rparr>" "ns_member (common cla) = net_member 1 1"
    "fresh_self 3 (common cla) = net_member 3 1" "fresh_self 4 (common clb) = net_member 4 2"
    "cn_taken net = {net_member 1 1, net_member 2 2}"
    by (rule net_two_nodes)
  have u: "\<forall>n::nat. no_collisions (env_hash sample_env) (env_wyrng sample_env) net_universe" using net_universe_safe by blast
  have d: "draws net_universe net 3 cla" "draws net_universe net 4 clb" "fresh_self 3 (common cla) \<noteq> fresh_self 4 (common clb)"
    by (simp_all add: draws_def n(8-10) net_universe_def net_member_def)
  have "om_get (states (ic_gossip icb)) (ns_member (common cla)) \<noteq> Some Down"
    by (simp add: n(6,7) om_get_of_list net_member_def)
  from gossip_exchange_agrees[OF n(1) u n(2,4,3,5) d this] n(1-3) show ?thesis by blast
qed

end
