(* ===== verification/Cluster_Detection.thy ===== *)
theory Cluster_Detection
  imports Cluster_Network
begin

text \<open>
  What the parts of the cluster do together (cluster/cluster.rs, cluster/heartbeat_receiver.rs,
  cluster/gossip.rs, cluster/node_ring.rs): a member that falls silent is detected by its monitor, removed
  there, and removed by every node that the gossip of the monitor reaches; and a cluster whose nodes have
  nothing new to tell each other monitors every node as configured.
\<close>

subsection \<open>Charges have receivers\<close>

text \<open>Every charge of a node has had a heartbeat receiver spawned for it.\<close>

definition charged :: "('u, 's, 'f) cluster \<Rightarrow> member set \<Rightarrow> bool" where
  "charged cl S \<longleftrightarrow> (case clr_state cl of In_Cluster ic \<Rightarrow> dom (ic_charges ic) \<subseteq> S | _ \<Rightarrow> True)"

lemma take_charges_spawned:
  "take_charges c ms old new out = (old', new', out') \<Longrightarrow> dom new \<subseteq> dom old0 \<union> spawned out \<Longrightarrow> dom old \<subseteq> dom old0 \<Longrightarrow>
   dom new' \<subseteq> dom old0 \<union> spawned out'"
proof (induction c ms old new out rule: take_charges.induct)
  case (2 c m ms old new out)
  show ?case
  proof (cases "old m")
    case None
    have d: "dom (new(m \<mapsto> from_clr (clr_name c) (m_id m))) \<subseteq>
        dom old0 \<union> spawned (out @ [Spawn_HBR (from_clr (clr_name c) (m_id m)) m (ns_member c)])"
      using "2.prems"(2) by auto
    have t: "take_charges c ms old (new(m \<mapsto> from_clr (clr_name c) (m_id m)))
        (out @ [Spawn_HBR (from_clr (clr_name c) (m_id m)) m (ns_member c)]) = (old', new', out')"
      using "2.prems"(1) None by (simp add: Let_def)
    show ?thesis by (rule "2.IH"(1)[OF None refl t d "2.prems"(3)])
  next
    case (Some h)
    have d: "dom (new(m \<mapsto> h)) \<subseteq> dom old0 \<union> spawned out" "dom (old(m := None)) \<subseteq> dom old0"
      using "2.prems"(2,3) Some by auto
    have t: "take_charges c ms (old(m := None)) (new(m \<mapsto> h)) out = (old', new', out')" using "2.prems"(1) Some by simp
    show ?thesis by (rule "2.IH"(2)[OF Some t d])
  qed
qed simp

lemma update_charged:
  assumes "update_charges_managers env c ic = Some (ic', out)" and "ic_charges ic' x = Some h" and "x \<notin> spawned out"
  shows "\<exists>h. ic_charges ic x = Some h"
proof -
  from assms(1) obtain cs old new out1 where t: "take_charges c cs (ic_charges ic) (\<lambda>_. None) [] = (old, new, out1)"
    and r: "ic_charges ic' = new" "spawned out = spawned out1"
    by (auto simp: update_charges_managers_def split: option.splits prod.splits)
  from take_charges_spawned[OF t, of "ic_charges ic"] r assms(2,3) show ?thesis by (auto simp: dom_def)
qed

lemma apply_events_charges:
  "apply_events env rid es (c, ic, ns) = Some (c', ic', ns') \<Longrightarrow> ic_charges ic' = ic_charges ic"
proof (induction es arbitrary: c ic ns)
  case (Cons e es)
  then show ?case
    by (cases e) (auto simp: Let_def split: prod.splits sum.splits if_splits dest!: Cons.IH)
qed simp

lemma round_spawns [simp]: "spawned (gossip_round env c ic G # out) = spawned out"
  by (simp add: gossip_round_def Let_def)

lemma ic_process_charged:
  assumes "ic_process env rid msg c ic rt = Some (c', ic', rt', out)"
  shows "dom (ic_charges ic') \<subseteq> dom (ic_charges ic) \<union> spawned out"
  using assms
  by (cases msg)
    (auto simp: ic_process_def ic_state_def ic_ping_def Let_def split: option.splits prod.splits if_splits
      dest!: apply_events_charges dest: update_charged)

lemma ic_down_charged:
  assumes "ic_down env m c ic rt = Some (c', ic', rt', out)"
  shows "dom (ic_charges ic') \<subseteq> dom (ic_charges ic) \<union> spawned out"
  using assms
  by (auto simp: ic_down_def Let_def split: option.splits machine_state.splits prod.splits sum.splits if_splits dest: update_charged)

lemma png_join_charged:
  assumes "png_join env g ms c rt = Some (c', st, rt', out)"
  shows "\<exists>ic. st = Some (In_Cluster ic) \<and> dom (ic_charges ic) \<subseteq> spawned out"
proof -
  obtain h rt1 where h: "schedule_gossip_timeout c rt = (h, rt1)" by (cases "schedule_gossip_timeout c rt")
  let ?ic = "\<lparr>ic_charges = (\<lambda>_. None), ic_managers = [], ic_gossip = g, ic_members = set ms,
     ic_ring = fold (ring_insert (env_hash env) (env_wyrng env)) ms (ring_new (replication_factor (clr_config c))), gossip_handle = h\<rparr>"
  from assms h obtain ic1 out1 nts where r: "update_charges_managers env c ?ic = Some (ic1, out1)" "st = Some (In_Cluster ic1)"
    "out = out1 @ [gossip_round env c ic1 {}] @ nts"
    by (auto simp: png_join_def Let_def split: option.splits prod.splits)
  have "dom (ic_charges ic1) \<subseteq> spawned out1" using update_charged[OF r(1)] by fastforce
  then show ?thesis unfolding r(2,3) by auto
qed

lemma png_process_charged:
  assumes "png_process env rid msg c rt = Some (c', st, rt', out)"
  shows "st = None \<or> (\<exists>ic. st = Some (In_Cluster ic) \<and> dom (ic_charges ic) \<subseteq> spawned out)"
  using assms
  by (cases msg) (auto simp: png_process_def Let_def split: if_splits dest!: png_join_charged)

lemma create_cluster_charged: "create_cluster env cl rt = (cl', rt', out) \<Longrightarrow> charged cl' S"
  by (auto simp: create_cluster_def alone_def charged_def split: prod.splits)

lemma recv_charged:
  assumes "charged cl S" and "cluster_recv env rid msg cl rt = Some (cl', rt', out)"
  shows "charged cl' (S \<union> spawned out)"
proof (cases msg)
  case (Intra_Msg m)
  with assms(2) have st: "state_process env rid m cl rt = Some (cl', rt', out)" by (simp add: cluster_recv_def Let_def)
  show ?thesis
  proof (cases "clr_state cl")
    case (In_Cluster ic)
    with st obtain c ic' where p: "ic_process env rid m (common cl) ic rt = Some (c, ic', rt', out)"
      "clr_state cl' = In_Cluster ic'"
      by (auto simp: state_process_def split: option.splits)
    with ic_process_charged[OF p(1)] assms(1) In_Cluster show ?thesis by (auto simp: charged_def)
  next
    case (Pinging png)
    with st obtain c new_state where p: "png_process env rid m (common cl) rt = Some (c, new_state, rt', out)"
      "clr_state cl' = unwrap_or new_state (Pinging png)"
      by (auto simp: state_process_def split: option.splits)
    from png_process_charged[OF p(1)] p(2) show ?thesis by (fastforce simp: charged_def)
  next
    case Left
    with st assms(1) show ?thesis by (auto simp: state_process_def charged_def)
  qed
next
  case (Downed m)
  show ?thesis
  proof (cases "clr_state cl")
    case (In_Cluster ic)
    with assms(2) Downed obtain c ic' where p: "ic_down env m (common cl) ic rt = Some (c, ic', rt', out)" "clr_state cl' = In_Cluster ic'"
      by (auto simp: cluster_recv_def Let_def split: option.splits)
    with ic_down_charged[OF p(1)] assms(1) In_Cluster show ?thesis by (auto simp: charged_def)
  qed (use assms Downed in \<open>auto simp: cluster_recv_def Let_def charged_def\<close>)
next
  case Ping_Timeout
  with assms show ?thesis
    by (auto simp: cluster_recv_def Let_def charged_def create_cluster_def alone_def split: clr_state.splits prod.splits if_splits)
qed (use assms in \<open>auto simp: cluster_recv_def Let_def charged_def split: clr_state.splits\<close>)

lemma reach_charged: "cluster_reach env U cl rt S \<Longrightarrow> charged cl S"
proof (induction rule: cluster_reach.induct)
  case (start cl sock name subrs fm cfg hcfg rid rt cl' rt' out)
  from start.hyps(4) show ?case
    by (auto simp: cluster_pre_start_def charged_def create_cluster_def alone_def split: prod.splits if_splits)
next
  case (recv cl rt S rid msg cl' rt' out)
  show ?case by (rule recv_charged[OF recv.IH recv.hyps(3)])
next
  case (timer cl rt S h)
  show ?case by (rule timer.IH)
qed

subsection \<open>From silence to removal\<close>

text \<open>The report of a heartbeat receiver on a member that is up.\<close>

lemma down_removes:
  assumes inv: "cluster_inv env U cl S" and st: "clr_state cl = In_Cluster ic" and m: "m \<in> S" "m \<in> ic_members ic"
  obtains cl' rt' out ic' picks where "cluster_recv env rid (Downed m) cl rt = Some (cl', rt', out)" "clr_state cl' = In_Cluster ic'"
    "ic_members ic' = ic_members ic - {m}" "om_get (states (ic_gossip ic')) m = Some Down" "known ic' = known ic"
    "To_Members (set (ic_managers ic') \<union> dom (ic_charges ic') \<union> {m} \<union> picks - {ns_member (common cl)}) (State_Msg (ic_gossip ic')) \<in> set out"
proof -
  from inv st have ii: "ic_inv env U (common cl) ic" and S: "S \<subseteq> known ic - {ns_member (common cl)}"
    by (simp_all add: cluster_inv_def)
  have up: "om_get (states (ic_gossip ic)) m = Some Up" using m(2) ic_invD(6)[OF ii] by (simp add: up_members_def)
  have "m \<in> known ic" "m \<noteq> ns_member (common cl)" using m(1) S by auto
  from ic_down_ok[OF ii this, of rt] obtain c' ic' rt' out where
    d: "ic_down env m (common cl) ic rt = Some (c', ic', rt', out)" "ic_inv env U c' ic'"
    by (auto simp: handler_ok_def)
  from d(1) up obtain ring' ic2 out2 nts where r: "ic' = ic2" "out = out2 @ [gossip_round env (common cl) ic2 {m}] @ nts"
    "update_charges_managers env (common cl) (ic\<lparr>ic_gossip := (ic_gossip ic)\<lparr>states := om_insert m Down (states (ic_gossip ic))\<rparr>,
       ic_ring := ring', ic_members := ic_members ic - {m}\<rparr>) = Some (ic2, out2)"
    by (auto simp: ic_down_def Let_def split: option.splits prod.splits sum.splits if_splits)
  note f = update_frame[OF r(3)]
  have g: "ic_gossip ic' = (ic_gossip ic)\<lparr>states := om_insert m Down (states (ic_gossip ic))\<rparr>" using f(3) r(1) by simp
  let ?picks = "env_choose env (ic_members ic2 - ({m} \<union> set (ic_managers ic2) \<union> dom (ic_charges ic2) \<union> {ns_member (common cl)}))
    (gossip_disperse (clr_config (common cl)))"
  have "gossip_round env (common cl) ic2 {m} =
      To_Members (set (ic_managers ic2) \<union> dom (ic_charges ic2) \<union> {m} \<union> ?picks - {ns_member (common cl)}) (State_Msg (ic_gossip ic2))"
    by (auto simp: gossip_round_def Let_def)
  then have eff: "To_Members (set (ic_managers ic') \<union> dom (ic_charges ic') \<union> {m} \<union> ?picks - {ns_member (common cl)}) (State_Msg (ic_gossip ic')) \<in> set out"
    by (simp add: r(1,2))
  have run: "cluster_recv env rid (Downed m) cl rt = Some (cl\<lparr>common := c', clr_state := In_Cluster ic'\<rparr>, rt', out)"
    by (simp add: cluster_recv_def Let_def st d(1))
  have k: "known ic' = known ic" using up by (auto simp: known_def g)
  have d': "om_get (states (ic_gossip ic')) m = Some Down" by (simp add: g)
  have mm: "ic_members ic' = ic_members ic - {m}" using f(1) r(1) by simp
  show thesis by (rule that[OF run _ mm d' k eff]) simp
qed

text \<open>Gossip in which a member is down.\<close>

lemma down_gossip_removes:
  assumes inv: "cluster_inv env U cl S" and ic: "clr_state cl = In_Cluster ic"
    and adm: "admissible rid U cl S (Intra_Msg (State_Msg g))" and m: "om_get (states g) m = Some Down"
  obtains cl' ic' rt' out where "cluster_recv env rid (Intra_Msg (State_Msg g)) cl rt = Some (cl', rt', out)"
    "clr_state cl' = In_Cluster ic'" "m \<notin> ic_members ic'" "ns_member (common cl') \<in> ic_members ic'"
proof -
  obtain cl' ic' rt' out where r: "cluster_recv env rid (Intra_Msg (State_Msg g)) cl rt = Some (cl', rt', out)"
    "clr_state cl' = In_Cluster ic'" "ic_inv env U (common cl') ic'"
    and g: "ic_gossip ic' = (if om_get (states (ic_gossip ic)) (ns_member (common cl)) = Some Up \<and>
         om_get (states g) (ns_member (common cl)) = Some Down
       then (let g' = fst (gossip_merge (ic_gossip ic) g) in
         g'\<lparr>states := om_insert (fresh_self rid (common cl)) Up (states g')\<rparr>)
       else fst (gossip_merge (ic_gossip ic) g))"
    by (rule state_msg_run[OF inv ic adm, of rt])
  from adm ic have "fresh_self rid (common cl) \<notin> gossip_known g"
    by (simp add: admissible_def state_admissible_def fresh_ok_def)
  with m have "fresh_self rid (common cl) \<noteq> m" by (auto simp: gossip_known_def)
  moreover have "max x (Some Down) = Some Down" for x :: "machine_state option"
  proof (cases x)
    case (Some s)
    then show ?thesis by (cases s) (simp_all add: max_def less_eq_machine_state_def)
  qed (simp add: max_def)
  ultimately have "om_get (states (ic_gossip ic')) m = Some Down"
    by (simp add: g Let_def om_get_gossip_merge m)
  then have "m \<notin> ic_members ic'" using ic_invD(6)[OF r(3)] by (simp add: up_members_def)
  then show thesis by (rule that[OF r(1,2) _ ic_invD(3)[OF r(3)]])
qed

text \<open>A heartbeat receiver that never hears of its charge.\<close>

lemma silence_reported:
  "\<exists>h outs. hbr_run F (hbr_spawn me m conf) (replicate (Suc (req_tries conf)) Silence) = Some (h, outs) \<and> Send_Downed m \<in> set outs"
proof -
  have "hbr_state (hbr_spawn me m conf) = Initial (req_tries conf)" "charge (hbr_spawn me m conf) = m"
    by (simp_all add: hbr_spawn_def)
  with hbr_silence_initial[of "hbr_spawn me m conf" "req_tries conf" F] show ?thesis by auto
qed

text \<open>
  Property C3.  A silent member is removed.  When a member sends no heartbeats, the receiver of a node that
  monitors it reports it after \<open>req_tries + 1\<close> timeouts; the node then removes it and tells its managers, its
  charges, and the member itself; and every node that gets that gossip, whatever it knew before, removes
  the member too.  If it is the member itself, it goes on under a new identity.
\<close>

theorem silent_member_removed:
  assumes "clr_net_reach env U net" and "\<forall>n. no_collisions (env_hash (env n)) (env_wyrng (env n)) U"
    and "cn_nodes net a = Some (cla, rta, Sa)" and "clr_state cla = In_Cluster ica"
    and "ic_charges ica m \<noteq> None"
  shows "\<exists>h outs cla' rta' outa ica' targets.
    hbr_run F (hbr_spawn (ns_member (common cla)) m conf) (replicate (Suc (req_tries conf)) Silence) = Some (h, outs) \<and>
    Send_Downed m \<in> set outs \<and>
    cluster_recv (env a) rid (Downed m) cla rta = Some (cla', rta', outa) \<and> clr_state cla' = In_Cluster ica' \<and>
    ic_members ica' = ic_members ica - {m} \<and> To_Members targets (State_Msg (ic_gossip ica')) \<in> set outa \<and>
    insert m (set (ic_managers ica') \<union> dom (ic_charges ica')) - {ns_member (common cla)} \<subseteq> targets \<and>
    (\<forall>b clb rtb Sb icb rid'. cn_nodes net b = Some (clb, rtb, Sb) \<and> clr_state clb = In_Cluster icb \<and> draws U net rid' clb \<longrightarrow>
       (\<exists>clb' rtb' outb icb'. cluster_recv (env b) rid' (Intra_Msg (State_Msg (ic_gossip ica'))) clb rtb = Some (clb', rtb', outb) \<and>
          clr_state clb' = In_Cluster icb' \<and> m \<notin> ic_members icb' \<and> ns_member (common clb') \<in> ic_members icb'))"
proof -
  have inv: "clr_net_inv env U net" by (rule clr_net_reach_inv) (use assms(1,2) in auto)
  have TU: "cn_taken net \<subseteq> U" using inv by (simp add: clr_net_inv_def)
  note ra = clr_net_invD[OF inv assms(3)]
  have mS: "m \<in> Sa" using reach_charged[OF ra(1)] assms(4,5) by (auto simp: charged_def)
  have mM: "m \<in> ic_members ica"
  proof -
    from cluster_reach_cluster_inv[OF ra(1)] assms(4) have ii: "ic_inv (env a) U (common cla) ica" by (simp add: cluster_inv_def)
    with assms(5) have "m \<in> set (charges_of (env a) (common cla) ica)" by (auto simp: ic_inv_def split: if_splits)
    with ii show ?thesis using ring_okD(5)[of "env a" U "common cla" ica] by (auto simp: ic_inv_def)
  qed
  obtain cla' rta' outa ica' picks where a: "cluster_recv (env a) rid (Downed m) cla rta = Some (cla', rta', outa)"
    "clr_state cla' = In_Cluster ica'" "ic_members ica' = ic_members ica - {m}" "om_get (states (ic_gossip ica')) m = Some Down"
    "known ica' = known ica"
    "To_Members (set (ic_managers ica') \<union> dom (ic_charges ica') \<union> {m} \<union> picks - {ns_member (common cla)}) (State_Msg (ic_gossip ica')) \<in> set outa"
    by (rule down_removes[OF cluster_reach_cluster_inv[OF ra(1)] assms(4) mS mM, of rid rta])
  have ka: "gossip_known (ic_gossip ica') \<subseteq> cn_taken net"
    using ra(2) assms(4) a(5) by (simp add: sound_node_def sound_def known_gossip)
  have others: "\<exists>clb' rtb' outb icb'. cluster_recv (env b) rid' (Intra_Msg (State_Msg (ic_gossip ica'))) clb rtb = Some (clb', rtb', outb) \<and>
      clr_state clb' = In_Cluster icb' \<and> m \<notin> ic_members icb' \<and> ns_member (common clb') \<in> ic_members icb'"
    if b: "cn_nodes net b = Some (clb, rtb, Sb)" "clr_state clb = In_Cluster icb" "draws U net rid' clb" for b clb rtb Sb icb rid'
  proof -
    note rb = clr_net_invD[OF inv b(1)]
    have "known icb \<subseteq> cn_taken net" using rb(2) b(2) by (simp add: sound_node_def sound_def known_gossip)
    with ka b(2,3) TU have adm: "admissible rid' U clb Sb (Intra_Msg (State_Msg (ic_gossip ica')))"
      by (auto simp: admissible_def state_admissible_def fresh_ok_def draws_def)
    show ?thesis
      by (rule down_gossip_removes[OF cluster_reach_cluster_inv[OF rb(1)] b(2) adm a(4), of rtb]) blast
  qed
  have others': "\<forall>b clb rtb Sb icb rid'. cn_nodes net b = Some (clb, rtb, Sb) \<and> clr_state clb = In_Cluster icb \<and> draws U net rid' clb \<longrightarrow>
       (\<exists>clb' rtb' outb icb'. cluster_recv (env b) rid' (Intra_Msg (State_Msg (ic_gossip ica'))) clb rtb = Some (clb', rtb', outb) \<and>
          clr_state clb' = In_Cluster icb' \<and> m \<notin> ic_members icb' \<and> ns_member (common clb') \<in> ic_members icb')"
    by (intro allI impI, elim conjE, rule others)
  obtain h outs where h: "hbr_run F (hbr_spawn (ns_member (common cla)) m conf) (replicate (Suc (req_tries conf)) Silence) = Some (h, outs)"
    "Send_Downed m \<in> set outs" using silence_reported by blast
  let ?t = "set (ic_managers ica') \<union> dom (ic_charges ica') \<union> {m} \<union> picks - {ns_member (common cla)}"
  have t: "insert m (set (ic_managers ica') \<union> dom (ic_charges ica')) - {ns_member (common cla)} \<subseteq> ?t" by blast
  show ?thesis
    by (intro exI[of _ h] exI[of _ outs] exI[of _ cla'] exI[of _ rta'] exI[of _ outa] exI[of _ ica'] exI[of _ ?t] conjI
        h a(1-3,6) t others')
qed


subsection \<open>A settled cluster\<close>

text \<open>No node would learn anything from the gossip of another one.\<close>

definition settled :: "('n, 'u, 's, 'f) clr_net \<Rightarrow> bool" where
  "settled net \<longleftrightarrow>
     (\<forall>a b cla rta Sa ica clb rtb Sb icb. cn_nodes net a = Some (cla, rta, Sa) \<and> clr_state cla = In_Cluster ica \<and>
        cn_nodes net b = Some (clb, rtb, Sb) \<and> clr_state clb = In_Cluster icb \<longrightarrow>
        fst (gossip_merge (ic_gossip ica) (ic_gossip icb)) = ic_gossip ica)"

text \<open>The nodes are configured alike.\<close>

definition alike :: "('n \<Rightarrow> ('u, 's) cluster_env) \<Rightarrow> 'n \<Rightarrow> ('u, 's, 'f) cluster \<Rightarrow> 'n \<Rightarrow> ('u, 's, 'f) cluster \<Rightarrow> bool" where
  "alike env a cla b clb \<longleftrightarrow>
     env_hash (env a) = env_hash (env b) \<and> env_wyrng (env a) = env_wyrng (env b) \<and> clr_name (common cla) = clr_name (common clb) \<and>
     replication_factor (clr_config (common cla)) = replication_factor (clr_config (common clb))"

lemma settled_same_gossip:
  assumes "settled net" and "cn_nodes net a = Some (cla, rta, Sa)" and "clr_state cla = In_Cluster ica"
    and "cn_nodes net b = Some (clb, rtb, Sb)" and "clr_state clb = In_Cluster icb"
  shows "ic_gossip ica = ic_gossip icb"
proof (rule gossip_eqI)
  fix m
  have "fst (gossip_merge (ic_gossip ica) (ic_gossip icb)) = ic_gossip ica" "fst (gossip_merge (ic_gossip icb) (ic_gossip ica)) = ic_gossip icb"
    using assms unfolding settled_def by blast+
  then have "max (om_get (states (ic_gossip ica)) m) (om_get (states (ic_gossip icb)) m) = om_get (states (ic_gossip ica)) m"
    "max (om_get (states (ic_gossip icb)) m) (om_get (states (ic_gossip ica)) m) = om_get (states (ic_gossip icb)) m"
    using om_get_gossip_merge[of "ic_gossip ica" "ic_gossip icb" m] om_get_gossip_merge[of "ic_gossip icb" "ic_gossip ica" m] by simp_all
  then show "om_get (states (ic_gossip ica)) m = om_get (states (ic_gossip icb)) m" by (metis max.commute)
qed

text \<open>
  Property C4.  A settled cluster watches itself.  In a network in which no node has news for another one,
  all nodes in the cluster agree on the members and, configured alike, on the ring; every node has exactly as
  many managers as configured, or all other members if they are fewer; and a node that is among them keeps a
  heartbeat receiver for it, to which the next heartbeat tick sends a heartbeat.
\<close>

theorem settled_cluster_watched:
  assumes "clr_net_reach env U net" and "\<forall>n. no_collisions (env_hash (env n)) (env_wyrng (env n)) U" and "settled net"
    and "cn_nodes net a = Some (cla, rta, Sa)" and "clr_state cla = In_Cluster ica"
    and "cn_nodes net b = Some (clb, rtb, Sb)" and "clr_state clb = In_Cluster icb" and "alike env a cla b clb"
  shows "ic_members ica = ic_members icb \<and> ic_ring ica = ic_ring icb \<and>
    distinct (ic_managers icb) \<and> set (ic_managers icb) \<subseteq> ic_members icb - {ns_member (common clb)} \<and>
    length (ic_managers icb) = min (replication_factor (clr_config (common clb))) (card (ic_members icb) - 1) \<and>
    (ns_member (common cla) \<in> set (ic_managers icb) \<longrightarrow>
       (\<exists>hbr rt' out. ic_charges ica (ns_member (common clb)) = Some hbr \<and>
          cluster_recv (env b) rid Heartbeat_Tick clb rtb = Some (clb, rt', out) \<and>
          Heartbeat_To (m_socket (ns_member (common cla))) (destination_new (variant_hbr_msg (env b)) (variant_hbr_msg (env b)) hbr)
            (hb_interval (clr_config (common clb))) (hb_interval_changes (common clb)) \<in> set out))"
proof -
  have inv: "clr_net_inv env U net" by (rule clr_net_reach_inv) (use assms(1,2) in auto)
  note ra = clr_net_invD(1)[OF inv assms(4)] and rb = clr_net_invD(1)[OF inv assms(6)]
  from cluster_reach_cluster_inv[OF ra] assms(5) have ia: "ic_inv (env a) U (common cla) ica" by (simp add: cluster_inv_def)
  from cluster_reach_cluster_inv[OF rb] assms(7) have ib: "ic_inv (env b) U (common clb) icb" by (simp add: cluster_inv_def)
  note da = ic_invD[OF ia] and db = ic_invD[OF ib]
  from assms(8) have e: "env_hash (env a) = env_hash (env b)" "env_wyrng (env a) = env_wyrng (env b)"
    "clr_name (common cla) = clr_name (common clb)"
    "replication_factor (clr_config (common cla)) = replication_factor (clr_config (common clb))"
    by (simp_all add: alike_def)
  have m: "ic_members ica = ic_members icb"
    using settled_same_gossip[OF assms(3-7)] da(6) db(6) by simp
  have ring: "ic_ring ica = ic_ring icb"
    by (rule ring_of_eqI[OF _ db(4)]) (use da(4,5) db(5) e m in simp_all)
  have "node_managers (env_hash (env b)) (ic_ring icb) (ns_member (common clb)) = Some (ic_managers icb)"
    using ib ring_okD(3)[of "env b" U "common clb" icb] by (simp add: ic_inv_def)
  with node_managers_spec[OF db(4,3)] db(5) have ms: "distinct (ic_managers icb)"
    "set (ic_managers icb) \<subseteq> ic_members icb - {ns_member (common clb)}"
    "length (ic_managers icb) = min (replication_factor (clr_config (common clb))) (card (ic_members icb) - 1)"
    by auto
  note meet = heartbeats_meet[OF ra assms(5) rb assms(7) e(1,2) m e(3,4), of rid]
  have "\<exists>hbr rt' out. ic_charges ica (ns_member (common clb)) = Some hbr \<and>
          cluster_recv (env b) rid Heartbeat_Tick clb rtb = Some (clb, rt', out) \<and>
          Heartbeat_To (m_socket (ns_member (common cla))) (destination_new (variant_hbr_msg (env b)) (variant_hbr_msg (env b)) hbr)
            (hb_interval (clr_config (common clb))) (hb_interval_changes (common clb)) \<in> set out"
    if "ns_member (common cla) \<in> set (ic_managers icb)"
  proof -
    from meet that obtain hbr where "ic_charges ica (ns_member (common clb)) = Some hbr" by blast
    with meet show ?thesis by blast
  qed
  with m ring ms show ?thesis by blast
qed


subsection \<open>Joining\<close>

text \<open>The answer of a node in the cluster to a ping.\<close>

lemma ping_answered:
  assumes inv: "cluster_inv env U cl S" and st: "clr_state cl = In_Cluster ic" and m: "m \<in> U" "m \<noteq> ns_member (common cl)"
    and alive: "om_get (states (ic_gossip ic)) m \<noteq> Some Down"
  obtains cl' rt' out ic' where "cluster_recv env rid (Intra_Msg (Ping m)) cl rt = Some (cl', rt', out)" "clr_state cl' = In_Cluster ic'"
    "om_get (states (ic_gossip ic')) m = Some Up" "ic_members ic' = insert m (ic_members ic)" "known ic' = insert m (known ic)"
    "(m_socket m, State_Msg (ic_gossip ic')) \<in> sent out" "ns_member (common cl') = ns_member (common cl)" "same_node (common cl) (common cl')"
proof -
  from inv st have ii: "ic_inv env U (common cl) ic" by (simp add: cluster_inv_def)
  from ic_ping_ok[OF ii m(1), of rt] obtain c' ic' rt' out where
    p: "ic_ping env m (common cl) ic rt = Some (c', ic', rt', out)" "ic_inv env U c' ic'" "same_node (common cl) c'"
    by (auto simp: handler_ok_def)
  let ?g = "if om_get (states (ic_gossip ic)) m = None then (ic_gossip ic)\<lparr>states := om_insert m Up (states (ic_gossip ic))\<rparr> else ic_gossip ic"
  have r: "ic_gossip ic' = ?g \<and> ns_member c' = ns_member (common cl) \<and> gossip_round env c' ic' {m} \<in> set out"
    using p(1) by (auto simp: ic_ping_def Let_def split: option.splits prod.splits if_splits dest: update_frame notify_state)
  have up: "om_get (states (ic_gossip ic)) m = None \<or> om_get (states (ic_gossip ic)) m = Some Up"
    using alive by (cases "om_get (states (ic_gossip ic)) m") (auto intro: machine_state.exhaust)
  have g: "om_get (states (ic_gossip ic')) m = Some Up" using r up by auto
  have k: "known ic' = insert m (known ic)" using r up by (auto simp: known_def)
  have mem: "ic_members ic' = insert m (ic_members ic)"
    using r up ic_invD(6)[OF ii] ic_invD(6)[OF p(2)] by (auto simp: up_members_def)
  have "(m_socket m, State_Msg (ic_gossip ic')) \<in> sent_by (gossip_round env c' ic' {m})"
    using m(2) r by (auto simp: gossip_round_def Let_def)
  then have s: "(m_socket m, State_Msg (ic_gossip ic')) \<in> sent out" using r by (auto simp: sent_def)
  have run: "cluster_recv env rid (Intra_Msg (Ping m)) cl rt = Some (cl\<lparr>common := c', clr_state := In_Cluster ic'\<rparr>, rt', out)"
    by (simp add: cluster_recv_def state_process_def st ic_process_def p(1))
  show thesis by (rule that[OF run _ g mem k s]) (use r p(3) in simp_all)
qed

text \<open>A node that waits for its seeds gets gossip in which it is up.\<close>

lemma gossip_joins:
  assumes inv: "cluster_inv env U cl S" and st: "clr_state cl = Pinging png" and g: "gossip_known g \<subseteq> U"
    and me: "om_get (states g) (ns_member (common cl)) = Some Up"
  obtains cl' rt' out ic where "cluster_recv env rid (Intra_Msg (State_Msg g)) cl rt = Some (cl', rt', out)" "clr_state cl' = In_Cluster ic"
    "ic_gossip ic = g" "ic_members ic = up_members g" "ns_member (common cl') = ns_member (common cl)" "same_node (common cl) (common cl')"
proof -
  have nc: "no_collisions (env_hash env) (env_wyrng env) U" using inv by (simp add: cluster_inv_def)
  let ?ms = "map fst (filter (\<lambda>e. snd e < Down) (entries (states g)))"
  have mem: "ns_member (common cl) \<in> set ?ms" unfolding up_members_entries using me by (simp add: up_members_def)
  obtain c' ic rt' out where j: "png_join env g ?ms (common cl) rt = Some (c', Some (In_Cluster ic), rt', out)"
    "ic_inv env U c' ic" "same_node (common cl) c'" "ns_member c' = ns_member (common cl)" "ic_gossip ic = g"
    by (rule png_join_ok[OF nc g up_members_entries mem, of rt])
  have "opt_filter (\<lambda>s. Down \<le> s) (om_get (states g) (ns_member (common cl))) = None"
    by (simp add: me opt_filter_def less_eq_machine_state_def)
  then have "png_process env rid (State_Msg g) (common cl) rt = Some (c', Some (In_Cluster ic), rt', out)"
    unfolding png_process_def intra_msg.case Let_def using j(1) me by simp
  then have run: "cluster_recv env rid (Intra_Msg (State_Msg g)) cl rt = Some (cl\<lparr>common := c', clr_state := In_Cluster ic\<rparr>, rt', out)"
    by (simp add: cluster_recv_def state_process_def st unwrap_or_def)
  show thesis by (rule that[OF run]) (use j(3-5) ic_invD(6)[OF j(2)] in simp_all)
qed

text \<open>
  Property C13.  A ping is enough to join.  When the ping of a node that waits for its seeds reaches a node in
  the cluster that does not hold it down, the answer is sent to its socket; and once it arrives, the node is in
  the cluster, with the same gossip state and the same members as the node that answered, itself among them.
\<close>

theorem ping_joins:
  assumes "clr_net_reach env U net" and "\<forall>n. no_collisions (env_hash (env n)) (env_wyrng (env n)) U"
    and "cn_nodes net a = Some (cla, rta, Sa)" and "clr_state cla = In_Cluster ica"
    and "cn_nodes net b = Some (clb, rtb, Sb)" and "clr_state clb = Pinging png"
    and "ns_member (common clb) \<noteq> ns_member (common cla)" and "om_get (states (ic_gossip ica)) (ns_member (common clb)) \<noteq> Some Down"
  shows "\<exists>cla' rta' outa ica' clb' rtb' outb icb'.
    cluster_recv (env a) rid (Intra_Msg (Ping (ns_member (common clb)))) cla rta = Some (cla', rta', outa) \<and> clr_state cla' = In_Cluster ica' \<and>
    (m_socket (ns_member (common clb)), State_Msg (ic_gossip ica')) \<in> sent outa \<and>
    cluster_recv (env b) rid' (Intra_Msg (State_Msg (ic_gossip ica'))) clb rtb = Some (clb', rtb', outb) \<and> clr_state clb' = In_Cluster icb' \<and>
    ic_gossip icb' = ic_gossip ica' \<and> ic_members icb' = ic_members ica' \<and>
    ic_members ica' = insert (ns_member (common clb)) (ic_members ica) \<and> ns_member (common clb') = ns_member (common clb)"
proof -
  let ?m = "ns_member (common clb)"
  have inv: "clr_net_inv env U net" by (rule clr_net_reach_inv) (use assms(1,2) in auto)
  note ra = clr_net_invD[OF inv assms(3)] and rb = clr_net_invD[OF inv assms(5)]
  note ia = cluster_reach_cluster_inv[OF ra(1)] and ib = cluster_reach_cluster_inv[OF rb(1)]
  have mU: "?m \<in> U" using ib by (simp add: cluster_inv_def)
  obtain cla' rta' outa ica' where a: "cluster_recv (env a) rid (Intra_Msg (Ping ?m)) cla rta = Some (cla', rta', outa)"
    "clr_state cla' = In_Cluster ica'" "om_get (states (ic_gossip ica')) ?m = Some Up" "ic_members ica' = insert ?m (ic_members ica)"
    "known ica' = insert ?m (known ica)" "(m_socket ?m, State_Msg (ic_gossip ica')) \<in> sent outa"
    by (rule ping_answered[OF ia assms(4) mU assms(7,8), of rid rta])
  from ia assms(4) have ii: "ic_inv (env a) U (common cla) ica" by (simp add: cluster_inv_def)
  have k: "gossip_known (ic_gossip ica') \<subseteq> U" using a(5) mU ic_invD(7)[OF ii] by (simp add: known_gossip)
  obtain clb' rtb' outb icb' where b: "cluster_recv (env b) rid' (Intra_Msg (State_Msg (ic_gossip ica'))) clb rtb = Some (clb', rtb', outb)"
    "clr_state clb' = In_Cluster icb'" "ic_gossip icb' = ic_gossip ica'" "ic_members icb' = up_members (ic_gossip ica')" "ns_member (common clb') = ?m"
    by (rule gossip_joins[OF ib assms(6) k a(3), of rid' rtb])
  have "om_get (states (ic_gossip ica)) ?m = None \<or> om_get (states (ic_gossip ica)) ?m = Some Up"
    using assms(8) by (cases "om_get (states (ic_gossip ica)) ?m") (auto intro: machine_state.exhaust)
  have "cluster_inv (env a) U cla' (Sa \<union> spawned outa)"
    using cluster_recv_inv[OF ia, of rid "Intra_Msg (Ping ?m)" rta] a(1) mU by (simp add: admissible_def state_admissible_def)
  then have "ic_inv (env a) U (common cla') ica'" using a(2) by (simp add: cluster_inv_def)
  from ic_invD(6)[OF this] b(4) have "ic_members icb' = ic_members ica'" by simp
  with a(1,2,4,6) b(1-3,5) show ?thesis by blast
qed

subsection \<open>Instance\<close>

text \<open>A node that pings its seed.\<close>

lemma net_pinging_node:
  assumes "s \<noteq> Socket (DNS ''node'') p 0"
  obtains cl rt png out where "cluster_pre_start sample_env (net_node i p {s}) net_runtime = (cl, rt, out)" "clr_state cl = Pinging png"
    "(s, Ping (net_member i p)) \<in> sent out" "spawned out = {}" "common cl = common (net_node i p {s})"
proof -
  let ?c = "common (net_node i p {s})"
  have seeds: "seed_nodes (clr_config ?c) = {s}" using assms by (simp add: net_node_def cluster_new_def Let_def)
  obtain h rt1 where h: "spawn_done net_runtime = (h, rt1)" by (cases "spawn_done net_runtime")
  obtain png rt2 out where p: "png_ping ?c \<lparr>png_count = of_nat (num_pings (clr_config ?c)), png_timeout = h\<rparr> rt1 = (png, rt2, out)"
    by (rule prod_cases3)
  then have out: "out = [To_Sockets {s} (Ping (net_member i p))]"
    by (auto simp: png_ping_def seeds net_node_member split: prod.splits)
  have "cluster_pre_start sample_env (net_node i p {s}) net_runtime =
      ((net_node i p {s})\<lparr>clr_state := Pinging png\<rparr>, snd (schedule Heartbeat_Timer (hb_interval (clr_config ?c)) rt2), out)"
    by (simp add: cluster_pre_start_def seeds h p)
  then show thesis by (rule that) (simp_all add: out)
qed

lemma net_node_fixed: "clr_config (common (net_node i p seeds)) = clr_config (common (net_node j q seeds'))\<lparr>seed_nodes := seeds - {Socket (DNS ''node'') p 0}\<rparr>"
  "clr_dest (common (net_node i p seeds)) = clr_dest (common (net_node j q seeds'))"
  "replication_factor (clr_config (common (net_node i p seeds))) = 2"
  by (simp_all add: net_node_def cluster_new_def Let_def default_cluster_config_def)

text \<open>A node alone in its cluster, and one that pings it.\<close>

lemma net_pinging:
  obtains net :: "(nat, nat, nat, nat) clr_net" and cla rta ica clb rtb png where
    "clr_net_reach (\<lambda>_. sample_env) net_universe net" "cn_nodes net = [0 \<mapsto> (cla, rta, {}), 1 \<mapsto> (clb, rtb, {})]"
    "clr_state cla = In_Cluster ica" "clr_state clb = Pinging png" "ic_gossip ica = \<lparr>states = om_of_list [(net_member 1 1, Up)]\<rparr>"
    "ns_member (common cla) = net_member 1 1" "ns_member (common clb) = net_member 2 2"
    "(m_socket (net_member 1 1), Ping (net_member 2 2)) \<in> cn_wire net" "cn_taken net = {net_member 1 1, net_member 2 2}"
    "same_node (common (net_node 1 1 {})) (common cla)" "same_node (common (net_node 2 2 {m_socket (net_member 1 1)})) (common clb)"
proof -
  obtain cla rta ica where a: "cluster_pre_start sample_env (net_node 1 1 {}) net_runtime = (cla, rta, [])"
    "clr_state cla = In_Cluster ica" "ic_gossip ica = \<lparr>states = om_of_list [(net_member 1 1, Up)]\<rparr>" "ns_member (common cla) = net_member 1 1"
    by (rule net_node_alone[of 1 1 3])
  have s: "m_socket (net_member 1 1) \<noteq> Socket (DNS ''node'') 2 0" by (simp add: net_member_def)
  obtain clb rtb png out where b: "cluster_pre_start sample_env (net_node 2 2 {m_socket (net_member 1 1)}) net_runtime = (clb, rtb, out)"
    "clr_state clb = Pinging png" "(m_socket (net_member 1 1), Ping (net_member 2 2)) \<in> sent out" "spawned out = {}"
    "common clb = common (net_node 2 2 {m_socket (net_member 1 1)})"
    by (rule net_pinging_node[OF s, of 2])
  let ?n1 = "advance 0 (cla, rta, spawned ([] :: (nat, nat) cluster_effect list)) ([] :: (nat, nat) cluster_effect list) (clr_net_start :: (nat, nat, nat, nat) clr_net)"
  let ?n2 = "advance 1 (clb, rtb, spawned out) out ?n1"
  have r1: "clr_net_reach (\<lambda>_. sample_env) net_universe ?n1"
    by (rule net_boot[OF clr_net_reach.start _ _ a(1)]) (simp_all add: clr_net_start_def net_universe_def)
  have r2: "clr_net_reach (\<lambda>_. sample_env) net_universe ?n2"
    by (rule net_boot[OF r1 _ _ b(1)]) (simp_all add: clr_net_start_def advance_def a(4) net_universe_def net_member_def)
  have mb: "ns_member (common clb) = net_member 2 2" by (simp add: b(5) net_node_member)
  have sa: "same_node (common (net_node 1 1 {})) (common cla)"
    using a(1) by (auto simp: same_node_def cluster_pre_start_def create_cluster_def notify_def Let_def net_node_def cluster_new_def split: prod.splits if_splits)
  show thesis
    by (rule that[OF r2 _ a(2) b(2) a(3,4) mb _ _ sa])
      (use b(5) in \<open>auto simp: advance_def clr_net_start_def a(4) net_node_member b(3,4)\<close>)
qed

theorem ping_joins_witness:
  "\<exists>(net :: (nat, nat, nat, nat) clr_net) cla rta clb rtb cla' rta' outa ica'. clr_net_reach (\<lambda>_. sample_env) net_universe net \<and>
     cn_nodes net 0 = Some (cla, rta, {}) \<and> cn_nodes net 1 = Some (clb, rtb, {}) \<and>
     cluster_recv sample_env 3 (Intra_Msg (Ping (net_member 2 2))) cla rta = Some (cla', rta', outa) \<and>
     clr_state cla' = In_Cluster ica' \<and> ic_members ica' = {net_member 1 1, net_member 2 2} \<and>
     (m_socket (net_member 2 2), State_Msg (ic_gossip ica')) \<in> sent outa"
proof -
  obtain net :: "(nat, nat, nat, nat) clr_net" and cla rta ica clb rtb png where
    n: "clr_net_reach (\<lambda>_. sample_env) net_universe net" "cn_nodes net = [0 \<mapsto> (cla, rta, {}), 1 \<mapsto> (clb, rtb, {})]"
    "clr_state cla = In_Cluster ica" "clr_state clb = Pinging png" "ic_gossip ica = \<lparr>states = om_of_list [(net_member 1 1, Up)]\<rparr>"
    "ns_member (common cla) = net_member 1 1" "ns_member (common clb) = net_member 2 2"
    by (rule net_pinging)
  have u: "\<forall>n::nat. no_collisions (env_hash sample_env) (env_wyrng sample_env) net_universe" using net_universe_safe by blast
  have k: "cn_nodes net 0 = Some (cla, rta, {})" "cn_nodes net 1 = Some (clb, rtb, {})" using n(2) by simp_all
  have "clr_net_inv (\<lambda>_. sample_env) net_universe net" by (rule clr_net_reach_inv) (use u n(1) in auto)
  from cluster_reach_cluster_inv[OF clr_net_invD(1)[OF this k(1)]] n(3) have "ic_inv sample_env net_universe (common cla) ica"
    by (simp add: cluster_inv_def)
  from ic_invD(6)[OF this] have mem: "ic_members ica = {net_member 1 1}"
    by (auto simp: up_members_def n(5) om_get_of_list split: if_splits)
  have "ns_member (common clb) \<noteq> ns_member (common cla)" "om_get (states (ic_gossip ica)) (ns_member (common clb)) \<noteq> Some Down"
    by (simp_all add: n(5-7) net_member_def om_get_of_list)
  from ping_joins[OF n(1) u k(1) n(3) k(2) n(4) this, of 3 4] mem n(7) have
    "\<exists>cla' rta' outa ica'. cluster_recv sample_env 3 (Intra_Msg (Ping (net_member 2 2))) cla rta = Some (cla', rta', outa) \<and>
     clr_state cla' = In_Cluster ica' \<and> ic_members ica' = {net_member 1 1, net_member 2 2} \<and>
     (m_socket (net_member 2 2), State_Msg (ic_gossip ica')) \<in> sent outa" by (auto simp: insert_commute)
  with n(1) k show ?thesis by blast
qed

text \<open>Both nodes after the ping and its answer.\<close>

lemma net_joined:
  obtains net :: "(nat, nat, nat, nat) clr_net" and cla rta Sa ica clb rtb Sb icb where
    "clr_net_reach (\<lambda>_. sample_env) net_universe net" "cn_nodes net = [0 \<mapsto> (cla, rta, Sa), 1 \<mapsto> (clb, rtb, Sb)]"
    "clr_state cla = In_Cluster ica" "clr_state clb = In_Cluster icb" "ic_gossip ica = ic_gossip icb"
    "ic_members icb = {net_member 1 1, net_member 2 2}" "ns_member (common cla) = net_member 1 1" "ns_member (common clb) = net_member 2 2"
    "same_node (common (net_node 1 1 {})) (common cla)" "same_node (common (net_node 2 2 {m_socket (net_member 1 1)})) (common clb)"
    "cn_taken net = {net_member 1 1, net_member 2 2}"
proof -
  let ?E = "\<lambda>_::nat. sample_env"
  obtain net :: "(nat, nat, nat, nat) clr_net" and cla rta ica clb rtb png where
    n: "clr_net_reach ?E net_universe net" "cn_nodes net = [0 \<mapsto> (cla, rta, {}), 1 \<mapsto> (clb, rtb, {})]"
    "clr_state cla = In_Cluster ica" "clr_state clb = Pinging png" "ic_gossip ica = \<lparr>states = om_of_list [(net_member 1 1, Up)]\<rparr>"
    "ns_member (common cla) = net_member 1 1" "ns_member (common clb) = net_member 2 2"
    "(m_socket (net_member 1 1), Ping (net_member 2 2)) \<in> cn_wire net" "cn_taken net = {net_member 1 1, net_member 2 2}"
    "same_node (common (net_node 1 1 {})) (common cla)" "same_node (common (net_node 2 2 {m_socket (net_member 1 1)})) (common clb)"
    by (rule net_pinging)
  have k: "cn_nodes net 0 = Some (cla, rta, {})" "cn_nodes net 1 = Some (clb, rtb, {})" using n(2) by simp_all
  have "clr_net_inv ?E net_universe net" by (rule clr_net_reach_inv) (use net_universe_safe n(1) in auto)
  note inv = clr_net_invD(1)[OF this]
  note ia = cluster_reach_cluster_inv[OF inv[OF k(1)]] and ib = cluster_reach_cluster_inv[OF inv[OF k(2)]]
  from ia n(3) have ii: "ic_inv sample_env net_universe (common cla) ica" by (simp add: cluster_inv_def)
  have mem: "ic_members ica = {net_member 1 1}" "known ica = {net_member 1 1}" using ic_invD(6)[OF ii]
    by (auto simp: up_members_def known_def n(5) om_get_of_list split: if_splits)
  have m2: "net_member 2 2 \<in> net_universe" "net_member 2 2 \<noteq> ns_member (common cla)" "om_get (states (ic_gossip ica)) (net_member 2 2) \<noteq> Some Down"
    by (simp_all add: net_universe_def n(5,6) om_get_of_list net_member_def)
  obtain cla' rta' outa ica' where a: "cluster_recv (?E 0) 3 (Intra_Msg (Ping (net_member 2 2))) cla rta = Some (cla', rta', outa)"
    "clr_state cla' = In_Cluster ica'" "om_get (states (ic_gossip ica')) (net_member 2 2) = Some Up"
    "ic_members ica' = insert (net_member 2 2) (ic_members ica)" "known ica' = insert (net_member 2 2) (known ica)"
    "(m_socket (net_member 2 2), State_Msg (ic_gossip ica')) \<in> sent outa" "ns_member (common cla') = ns_member (common cla)" "same_node (common cla) (common cla')"
    by (rule ping_answered[OF ia n(3) m2, of 3 rta]) blast
  let ?n1 = "advance 0 (cla', rta', {} \<union> spawned outa) outa (net\<lparr>cn_reported := cn_reported net \<union> reports (Intra_Msg (Ping (net_member 2 2)) :: (nat, nat, nat) cluster_msg)\<rparr>)"
  have d: "draws net_universe net 3 cla" by (simp add: draws_def fresh_self_def n(6,9)) (simp add: net_universe_def net_member_def)
  have r1: "clr_net_reach ?E net_universe ?n1"
    by (rule clr_net_reach.recv[OF n(1) k(1) _ d a(1)]) (simp add: arrives_def n(6,8))
  have k1: "cn_nodes ?n1 1 = Some (clb, rtb, {})" "(m_socket (net_member 2 2), State_Msg (ic_gossip ica')) \<in> cn_wire ?n1"
    "cn_taken ?n1 = cn_taken net"
    using k(2) a(6,7) n(6,9) by (simp_all add: advance_def insert_absorb)
  have g: "gossip_known (ic_gossip ica') \<subseteq> net_universe" using a(5) mem(2) by (simp add: known_gossip net_universe_def)
  obtain clb' rtb' outb icb' where b: "cluster_recv (?E 1) 4 (Intra_Msg (State_Msg (ic_gossip ica'))) clb rtb = Some (clb', rtb', outb)"
    "clr_state clb' = In_Cluster icb'" "ic_gossip icb' = ic_gossip ica'" "ic_members icb' = up_members (ic_gossip ica')"
    "ns_member (common clb') = ns_member (common clb)" "same_node (common clb) (common clb')"
    by (rule gossip_joins[OF ib n(4) g, of 4 rtb]) (use a(3) n(7) in simp_all)
  let ?n2 = "advance 1 (clb', rtb', {} \<union> spawned outb) outb (?n1\<lparr>cn_reported := cn_reported ?n1 \<union> reports (Intra_Msg (State_Msg (ic_gossip ica')) :: (nat, nat, nat) cluster_msg)\<rparr>)"
  have d': "draws net_universe ?n1 4 clb" unfolding draws_def k1(3) n(9) fresh_self_def n(7) by (simp add: net_universe_def net_member_def)
  have ar: "arrives ?n1 (clb, rtb, {}) (Intra_Msg (State_Msg (ic_gossip ica')))" using k1(2) by (simp add: arrives_def n(7))
  note r2 = clr_net_reach.recv[OF r1 k1(1) ar d' b(1)]
  have nodes: "cn_nodes ?n2 = [0 \<mapsto> (cla', rta', spawned outa), 1 \<mapsto> (clb', rtb', spawned outb)]"
    by (auto simp: advance_def n(2))
  have "cluster_inv (?E 0) net_universe cla' ({} \<union> spawned outa)"
    using cluster_recv_inv[OF ia, of 3 "Intra_Msg (Ping (net_member 2 2))" rta] a(1) m2(1) by (simp add: admissible_def state_admissible_def)
  then have "ic_inv sample_env net_universe (common cla') ica'" using a(2) by (simp add: cluster_inv_def)
  from ic_invD(6)[OF this] a(4) mem b(4) have mb: "ic_members icb' = {net_member 1 1, net_member 2 2}" by auto
  have sn: "same_node (common (net_node 1 1 {})) (common cla')" "same_node (common (net_node 2 2 {m_socket (net_member 1 1)})) (common clb')"
    using n(10,11) a(8) b(6) by (simp_all add: same_node_def)
  have tk: "cn_taken ?n2 = {net_member 1 1, net_member 2 2}" by (auto simp: advance_def a(7) b(5) n(6,7,9))
  show thesis
    by (rule that[OF r2 nodes a(2) b(2) b(3)[symmetric] mb _ _ sn tk]) (simp_all add: a(7) b(5) n(6,7))
qed

lemma net_joined_facts:
  obtains net :: "(nat, nat, nat, nat) clr_net" and cla rta Sa ica clb rtb Sb icb where
    "clr_net_reach (\<lambda>_. sample_env) net_universe net" "cn_nodes net = [0 \<mapsto> (cla, rta, Sa), 1 \<mapsto> (clb, rtb, Sb)]"
    "clr_state cla = In_Cluster ica" "clr_state clb = In_Cluster icb" "ic_gossip ica = ic_gossip icb" "settled net"
    "alike (\<lambda>_::nat. sample_env) 0 cla 1 clb" "ic_managers ica = [net_member 2 2]" "ic_managers icb = [net_member 1 1]"
    "ic_charges ica (net_member 2 2) \<noteq> None" "ns_member (common cla) = net_member 1 1" "ns_member (common clb) = net_member 2 2"
    "cn_taken net = {net_member 1 1, net_member 2 2}" "ic_members icb = {net_member 1 1, net_member 2 2}"
proof -
  obtain net :: "(nat, nat, nat, nat) clr_net" and cla rta Sa ica clb rtb Sb icb where
    n: "clr_net_reach (\<lambda>_. sample_env) net_universe net" "cn_nodes net = [0 \<mapsto> (cla, rta, Sa), 1 \<mapsto> (clb, rtb, Sb)]"
    "clr_state cla = In_Cluster ica" "clr_state clb = In_Cluster icb" "ic_gossip ica = ic_gossip icb"
    "ic_members icb = {net_member 1 1, net_member 2 2}" "ns_member (common cla) = net_member 1 1" "ns_member (common clb) = net_member 2 2"
    "same_node (common (net_node 1 1 {})) (common cla)" "same_node (common (net_node 2 2 {m_socket (net_member 1 1)})) (common clb)"
    "cn_taken net = {net_member 1 1, net_member 2 2}"
    by (rule net_joined)
  have k: "cn_nodes net 0 = Some (cla, rta, Sa)" "cn_nodes net 1 = Some (clb, rtb, Sb)" using n(2) by simp_all
  have st: "settled net" unfolding settled_def n(2) using n(3-5) merge_absorbs by (auto split: if_splits)
  have rep: "replication_factor (clr_config (common cla)) = 2" "replication_factor (clr_config (common clb)) = 2"
    using n(9,10) net_node_fixed(3) by (simp_all add: same_node_def)
  have al: "alike (\<lambda>_::nat. sample_env) 0 cla 1 clb"
    using n(9,10) net_node_fixed(2)[of 1 1 "{}" 2 2 "{m_socket (net_member 1 1)}"] rep by (simp add: alike_def same_node_def clr_name_def)
  have "clr_net_inv (\<lambda>_. sample_env) net_universe net" by (rule clr_net_reach_inv) (use net_universe_safe n(1) in auto)
  note r = clr_net_invD(1)[OF this k(1)] clr_net_invD(1)[OF this k(2)]
  from cluster_reach_cluster_inv[OF r(1)] n(3) have ia: "ic_inv sample_env net_universe (common cla) ica" by (simp add: cluster_inv_def)
  from cluster_reach_cluster_inv[OF r(2)] n(4) have ib: "ic_inv sample_env net_universe (common clb) icb" by (simp add: cluster_inv_def)
  have mm: "ic_members ica = ic_members icb" using ic_invD(6)[OF ia] ic_invD(6)[OF ib] n(5) by simp
  note ma = mm[unfolded n(6)]
  have nc: "no_collisions (env_hash sample_env) (env_wyrng sample_env) {net_member 1 1, net_member 2 2}"
    by (rule no_collisions_subset[OF net_universe_safe]) (simp add: net_universe_def)
  have ne: "net_member 1 1 \<noteq> net_member 2 2" by (simp add: net_member_def)
  have reps: "1 \<le> rep_factor (ic_ring ica)" "1 \<le> rep_factor (ic_ring icb)" using ic_invD(5)[OF ia] ic_invD(5)[OF ib] rep by simp_all
  have ra: "ring_of (env_hash sample_env) (env_wyrng sample_env) {net_member 1 1, net_member 2 2} (ic_ring ica)"
    and rb: "ring_of (env_hash sample_env) (env_wyrng sample_env) {net_member 2 2, net_member 1 1} (ic_ring icb)"
    using ic_invD(4)[OF ia] ic_invD(4)[OF ib] by (simp_all add: ma n(6) insert_commute)
  have "node_managers (env_hash sample_env) (ic_ring ica) (ns_member (common cla)) = Some (ic_managers ica)"
    "node_managers (env_hash sample_env) (ic_ring icb) (ns_member (common clb)) = Some (ic_managers icb)"
    using ia ib ring_okD(3) by (fastforce simp: ic_inv_def)+
  then have man: "ic_managers ica = [net_member 2 2]" "ic_managers icb = [net_member 1 1]"
    using two_member_ring(1)[OF ra nc ne reps(1)] two_member_ring(1)[OF rb nc[unfolded insert_commute[of "net_member 1 1"]] ne[symmetric] reps(2)]
    by (simp_all add: n(7,8))
  have nm: "clr_name (common cla) = clr_name (common clb)" using al by (simp add: alike_def)
  from heartbeats_meet[OF r(1) n(3) r(2) n(4) refl refl mm nm] rep man n(7,8) have "ic_charges ica (net_member 2 2) \<noteq> None" by simp
  then show thesis by (rule that[OF n(1-5) st al man _ n(7,8,11,6)])
qed

theorem settled_cluster_watched_witness:
  "\<exists>(net :: (nat, nat, nat, nat) clr_net) cla rta Sa ica clb rtb Sb icb hbr. clr_net_reach (\<lambda>_. sample_env) net_universe net \<and>
     cn_nodes net 0 = Some (cla, rta, Sa) \<and> cn_nodes net 1 = Some (clb, rtb, Sb) \<and> settled net \<and>
     clr_state cla = In_Cluster ica \<and> clr_state clb = In_Cluster icb \<and> ic_members ica = ic_members icb \<and>
     ic_charges ica (ns_member (common clb)) = Some hbr"
proof -
  obtain net :: "(nat, nat, nat, nat) clr_net" and cla rta Sa ica clb rtb Sb icb where
    f: "clr_net_reach (\<lambda>_. sample_env) net_universe net" "cn_nodes net = [0 \<mapsto> (cla, rta, Sa), 1 \<mapsto> (clb, rtb, Sb)]"
    "clr_state cla = In_Cluster ica" "clr_state clb = In_Cluster icb" "settled net" "alike (\<lambda>_::nat. sample_env) 0 cla 1 clb"
    "ic_managers icb = [net_member 1 1]" "ns_member (common cla) = net_member 1 1"
    by (rule net_joined_facts)
  have n: "clr_net_reach (\<lambda>_. sample_env) net_universe net" "cn_nodes net 0 = Some (cla, rta, Sa)" "cn_nodes net 1 = Some (clb, rtb, Sb)"
    "clr_state cla = In_Cluster ica" "clr_state clb = In_Cluster icb" "settled net" "alike (\<lambda>_::nat. sample_env) 0 cla 1 clb"
    "ns_member (common cla) \<in> set (ic_managers icb)"
    using f by simp_all
  have u: "\<forall>n::nat. no_collisions (env_hash sample_env) (env_wyrng sample_env) net_universe" using net_universe_safe by blast
  from settled_cluster_watched[OF n(1) u n(6,2,4,3,5,7), of 0] n(8) obtain hbr where
    "ic_members ica = ic_members icb" "ic_charges ica (ns_member (common clb)) = Some hbr" by blast
  with n(1-6) show ?thesis by blast
qed

theorem silent_member_removed_witness:
  "\<exists>(net :: (nat, nat, nat, nat) clr_net) cla rta Sa ica cla' rta' outa ica'. clr_net_reach (\<lambda>_. sample_env) net_universe net \<and>
     cn_nodes net 0 = Some (cla, rta, Sa) \<and> clr_state cla = In_Cluster ica \<and>
     cluster_recv sample_env 3 (Downed (net_member 2 2)) cla rta = Some (cla', rta', outa) \<and> clr_state cla' = In_Cluster ica' \<and>
     ic_members ica' = ic_members ica - {net_member 2 2}"
proof -
  obtain net :: "(nat, nat, nat, nat) clr_net" and cla rta Sa ica clb rtb Sb where
    f: "clr_net_reach (\<lambda>_. sample_env) net_universe net" "cn_nodes net = [0 \<mapsto> (cla, rta, Sa), 1 \<mapsto> (clb, rtb, Sb)]"
    "clr_state cla = In_Cluster ica" "ic_charges ica (net_member 2 2) \<noteq> None"
    by (rule net_joined_facts)
  have n: "clr_net_reach (\<lambda>_. sample_env) net_universe net" "cn_nodes net 0 = Some (cla, rta, Sa)"
    "clr_state cla = In_Cluster ica" "ic_charges ica (net_member 2 2) \<noteq> None" using f by simp_all
  have u: "\<forall>n::nat. no_collisions (env_hash sample_env) (env_wyrng sample_env) net_universe" using net_universe_safe by blast
  obtain cla' rta' outa ica' where r: "cluster_recv sample_env 3 (Downed (net_member 2 2)) cla rta = Some (cla', rta', outa)"
    "clr_state cla' = In_Cluster ica'" "ic_members ica' = ic_members ica - {net_member 2 2}"
    using silent_member_removed[OF n(1) u n(2-4), where F = "undefined :: nat f64_ops" and conf = sample_hbr_config and rid = 3]
    by (elim exE conjE) (rule that)
  show ?thesis
    by (intro exI[of _ net] exI[of _ cla] exI[of _ rta] exI[of _ Sa] exI[of _ ica] exI[of _ cla'] exI[of _ rta'] exI[of _ outa]
        exI[of _ ica'] conjI n(1-3) r)
qed

end
