(* ===== verification/Cluster_Spread.thy ===== *)
theory Cluster_Spread
  imports Cluster_Detection
begin

text \<open>
  How far gossip spreads (cluster/cluster.rs, cluster/gossip.rs).  A run in which gossip timers fire and the gossip of
  nodes arrives at other nodes, in any order, is described by who has heard from whom, directly or through
  others; what a node knows is then exactly what the nodes it has heard from knew.  Once every node has
  heard from the same nodes, the cluster is settled.
\<close>

subsection \<open>Runs of gossip\<close>

definition gossip_of :: "('n, 'u, 's, 'f) clr_net \<Rightarrow> 'n \<Rightarrow> gossip option" where
  "gossip_of net n =
     (case cn_nodes net n of
        None \<Rightarrow> None
      | Some (cl, _, _) \<Rightarrow> (case clr_state cl of In_Cluster ic \<Rightarrow> Some (ic_gossip ic) | _ \<Rightarrow> None))"

definition identity_of :: "('n, 'u, 's, 'f) clr_net \<Rightarrow> 'n \<Rightarrow> member option" where
  "identity_of net n = map_option (\<lambda>(cl, _, _). ns_member (common cl)) (cn_nodes net n)"

text \<open>
  The timer of a node fires, or its current gossip arrives at another node; the pairs list the senders
  and receivers of what has arrived.
\<close>

inductive gossip_run ::
    "('n \<Rightarrow> ('u, 's) cluster_env) \<Rightarrow> member set \<Rightarrow> ('n, 'u, 's, 'f) clr_net \<Rightarrow> ('n \<times> 'n) list \<Rightarrow> ('n, 'u, 's, 'f) clr_net \<Rightarrow> bool"
    for env U net where
  start: "gossip_run env U net [] net"
| tick: "gossip_run env U net ps net1 \<Longrightarrow> cn_nodes net1 n = Some (cl, rt, S) \<Longrightarrow> draws U net1 rid cl \<Longrightarrow>
    cluster_recv (env n) rid Gossip_Timeout cl rt = Some (cl', rt', out) \<Longrightarrow>
    gossip_run env U net ps (advance n (cl', rt', S \<union> spawned out) out net1)"
| deliver: "gossip_run env U net ps net1 \<Longrightarrow> gossip_of net1 s = Some g \<Longrightarrow> cn_nodes net1 r = Some (cl, rt, S) \<Longrightarrow>
    clr_state cl = In_Cluster ic \<Longrightarrow> arrives net1 (cl, rt, S) (Intra_Msg (State_Msg g)) \<Longrightarrow> draws U net1 rid cl \<Longrightarrow>
    cluster_recv (env r) rid (Intra_Msg (State_Msg g)) cl rt = Some (cl', rt', out) \<Longrightarrow>
    gossip_run env U net (ps @ [(s, r)]) (advance r (cl', rt', S \<union> spawned out) out net1)"

text \<open>Whom a node has heard from, directly or through others.\<close>

definition heard :: "('n \<times> 'n) list \<Rightarrow> 'n \<Rightarrow> 'n set" where
  "heard ps = fold (\<lambda>(s, r) h. h(r := h r \<union> h s)) ps (\<lambda>n. {n})"

definition knows :: "('n, 'u, 's, 'f) clr_net \<Rightarrow> 'n \<Rightarrow> member set" where
  "knows net n = (case gossip_of net n of None \<Rightarrow> {} | Some g \<Rightarrow> gossip_known g)"

definition holds_down :: "('n, 'u, 's, 'f) clr_net \<Rightarrow> 'n \<Rightarrow> member set" where
  "holds_down net n = (case gossip_of net n of None \<Rightarrow> {} | Some g \<Rightarrow> downs g)"

text \<open>No node of the network is held down by one.\<close>

definition none_down :: "('n, 'u, 's, 'f) clr_net \<Rightarrow> bool" where
  "none_down net \<longleftrightarrow> (\<forall>a b m. identity_of net a = Some m \<longrightarrow> m \<notin> holds_down net b)"

lemma heard_simps [simp]: "heard [] n = {n}"
  "heard (ps @ [(s, r)]) n = (if n = r then heard ps r \<union> heard ps s else heard ps n)"
  by (simp_all add: heard_def)

lemma gossip_run_reach: "gossip_run env U net ps net' \<Longrightarrow> clr_net_reach env U net \<Longrightarrow> clr_net_reach env U net'"
proof (induction rule: gossip_run.induct)
  case (tick ps net1 n cl rt S rid cl' rt' out)
  have "arrives net1 (cl, rt, S) Gossip_Timeout" by (simp add: arrives_def)
  from clr_net_reach.recv[OF tick.IH[OF tick.prems] tick.hyps(2) this tick.hyps(3,4)] show ?case by (simp add: reports_def)
next
  case (deliver ps net1 s g r cl rt S ic rid cl' rt' out)
  from clr_net_reach.recv[OF deliver.IH[OF deliver.prems] deliver.hyps(3,5,6,7)] show ?case by (simp add: reports_def)
qed

lemma downs_merge_eq: "downs (fst (gossip_merge a b)) = downs a \<union> downs b"
proof -
  have "max x y = Some Down \<longleftrightarrow> x = Some Down \<or> y = Some Down" for x y :: "machine_state option"
  proof -
    have top: "z \<le> Some Down" for z :: "machine_state option"
      by (cases z) (simp_all add: less_eq_machine_state_def)
    then show ?thesis by (auto simp: max_def intro: antisym)
  qed
  then show ?thesis by (auto simp: downs_def om_get_gossip_merge)
qed

lemma gossip_known_downs_eqI:
  assumes "gossip_known a = gossip_known b" and "downs a = downs b"
  shows "a = b"
proof (rule gossip_eqI)
  fix m
  have "om_get (states a) m = None \<longleftrightarrow> om_get (states b) m = None" "om_get (states a) m = Some Down \<longleftrightarrow> om_get (states b) m = Some Down"
    using assms unfolding gossip_known_def downs_def by blast+
  then show "om_get (states a) m = om_get (states b) m"
    by (metis machine_state.exhaust option.exhaust)
qed

lemma advance_of [simp]:
  "gossip_of (advance n (cl, rt, S) out net) k =
     (if k = n then (case clr_state cl of In_Cluster ic \<Rightarrow> Some (ic_gossip ic) | _ \<Rightarrow> None) else gossip_of net k)"
  "identity_of (advance n (cl, rt, S) out net) k = (if k = n then Some (ns_member (common cl)) else identity_of net k)"
  by (simp_all add: gossip_of_def identity_of_def advance_def)

text \<open>What a node knows after a run, from what was known before.\<close>

lemma gossip_run_knows:
  assumes run: "gossip_run env U net ps net'" and net: "clr_net_reach env U net"
    and nc: "\<forall>n. no_collisions (env_hash (env n)) (env_wyrng (env n)) U" and nd: "none_down net"
  shows "identity_of net' = identity_of net \<and>
     (\<forall>n. (gossip_of net' n = None \<longleftrightarrow> gossip_of net n = None) \<and>
        knows net' n = (\<Union>m\<in>heard ps n. knows net m) \<and> holds_down net' n = (\<Union>m\<in>heard ps n. holds_down net m))"
  using run
proof (induction rule: gossip_run.induct)
  case start
  then show ?case by simp
next
  case (tick ps net1 n cl rt S rid cl' rt' out)
  have cl: "cl' = cl" using tick.hyps(4) by (auto simp: cluster_recv_def Let_def split: clr_state.splits)
  have same: "gossip_of (advance n (cl', rt', S \<union> spawned out) out net1) = gossip_of net1"
    "identity_of (advance n (cl', rt', S \<union> spawned out) out net1) = identity_of net1"
    using tick.hyps(2) by (auto simp: fun_eq_iff cl) (simp_all add: gossip_of_def identity_of_def)
  then show ?case using tick.IH by (simp add: knows_def holds_down_def)
next
  case (deliver ps net1 s g r cl rt S ic rid cl' rt' out)
  let ?net2 = "advance r (cl', rt', S \<union> spawned out) out net1"
  have inv: "clr_net_inv env U net1" by (rule clr_net_reach_inv) (use gossip_run_reach[OF deliver.hyps(1) net] nc in auto)
  note adm = arrives_admissible(1)[OF inv deliver.hyps(3,5,6)]
  note ir = cluster_reach_cluster_inv[OF clr_net_invD(1)[OF inv deliver.hyps(3)]]
  have gr: "gossip_of net1 r = Some (ic_gossip ic)" using deliver.hyps(3,4) by (simp add: gossip_of_def)
  have me: "identity_of net r = Some (ns_member (common cl))"
    using deliver.IH deliver.hyps(3) by (metis (mono_tags, lifting) identity_of_def option.map(2) prod.case)
  have "holds_down net1 s = downs g" by (simp add: holds_down_def deliver.hyps(2))
  then have "downs g = (\<Union>m\<in>heard ps s. holds_down net m)" using deliver.IH by simp
  with nd me have alive: "om_get (states g) (ns_member (common cl)) \<noteq> Some Down"
    unfolding none_down_def downs_def by blast
  obtain cl2 ic2 rt2 out2 where m: "cluster_recv (env r) rid (Intra_Msg (State_Msg g)) cl rt = Some (cl2, rt2, out2)"
    "clr_state cl2 = In_Cluster ic2" "ic_gossip ic2 = fst (gossip_merge (ic_gossip ic) g)" "ns_member (common cl2) = ns_member (common cl)"
    by (rule state_msg_run[OF ir deliver.hyps(4) adm, of rt]) (use alive in simp)
  have cl': "cl' = cl2" using m(1) deliver.hyps(7) by simp
  have g': "gossip_of ?net2 = (gossip_of net1)(r \<mapsto> fst (gossip_merge (ic_gossip ic) g))"
    by (rule ext) (simp add: cl' m(2,3))
  have id': "identity_of ?net2 = identity_of net1"
    by (rule ext) (use deliver.hyps(3) in \<open>simp add: cl' m(4)\<close>, simp add: identity_of_def)
  have k: "knows ?net2 r = knows net1 r \<union> knows net1 s" "holds_down ?net2 r = holds_down net1 r \<union> holds_down net1 s"
    by (simp_all add: knows_def holds_down_def g' gr deliver.hyps(2) known_merge downs_merge_eq)
  have o: "knows ?net2 n = knows net1 n" "holds_down ?net2 n = holds_down net1 n" if "n \<noteq> r" for n
    using that by (simp_all add: knows_def holds_down_def g')
  have "gossip_of ?net2 n = None \<longleftrightarrow> gossip_of net1 n = None" for n by (simp add: g' gr)
  then show ?case using deliver.IH k o id' by (auto simp del: advance_of)
qed

text \<open>
  Property C11.  Gossip settles a cluster.  From a network in which no node is held down, let gossip timers fire and
  the gossip of nodes arrive at others, in any order and as often as it likes.  Then every node keeps its
  identity; it knows exactly the members that the nodes it has heard from, directly or through others, knew,
  and holds down exactly those that they held down; and as soon as all nodes in the cluster have heard from the same
  nodes, the network is settled.
\<close>

theorem gossip_settles:
  assumes "clr_net_reach env U net" and "\<forall>n. no_collisions (env_hash (env n)) (env_wyrng (env n)) U"
    and "none_down net" and "gossip_run env U net ps net'"
  shows "clr_net_reach env U net' \<and> identity_of net' = identity_of net \<and>
    (\<forall>n. knows net' n = (\<Union>m\<in>heard ps n. knows net m) \<and> holds_down net' n = (\<Union>m\<in>heard ps n. holds_down net m)) \<and>
    ((\<forall>n m. gossip_of net n \<noteq> None \<and> gossip_of net m \<noteq> None \<longrightarrow> heard ps n = heard ps m) \<longrightarrow> settled net')"
proof -
  note k = gossip_run_knows[OF assms(4,1,2,3)]
  have "settled net'" if all: "\<forall>n m. gossip_of net n \<noteq> None \<and> gossip_of net m \<noteq> None \<longrightarrow> heard ps n = heard ps m"
  proof -
    have "fst (gossip_merge (ic_gossip ica) (ic_gossip icb)) = ic_gossip ica"
      if h: "cn_nodes net' a = Some (cla, rta, Sa)" "clr_state cla = In_Cluster ica" "cn_nodes net' b = Some (clb, rtb, Sb)" "clr_state clb = In_Cluster icb"
      for a b cla rta Sa ica clb rtb Sb icb
    proof -
      have g: "gossip_of net' a = Some (ic_gossip ica)" "gossip_of net' b = Some (ic_gossip icb)" using h by (simp_all add: gossip_of_def)
      then have "gossip_of net a \<noteq> None" "gossip_of net b \<noteq> None" using k by (metis option.distinct(1))+
      then have "heard ps a = heard ps b" using all by blast
      then have "knows net' a = knows net' b" "holds_down net' a = holds_down net' b" using k by simp_all
      then have "ic_gossip ica = ic_gossip icb" by (intro gossip_known_downs_eqI) (simp_all add: knows_def holds_down_def g)
      then show ?thesis by (simp add: merge_absorbs)
    qed
    then show ?thesis unfolding settled_def by blast
  qed
  with k gossip_run_reach[OF assms(4,1)] show ?thesis by blast
qed

subsection \<open>Instance\<close>

text \<open>A timer that fires sends the gossip to the managers.\<close>

lemma tick_sends:
  assumes "clr_state cl = In_Cluster ic" and "m \<in> set (ic_managers ic)" and "m \<noteq> ns_member (common cl)"
  obtains rt' out where "cluster_recv env rid Gossip_Timeout cl rt = Some (cl, rt', out)" "(m_socket m, State_Msg (ic_gossip ic)) \<in> sent out"
proof -
  have "(m_socket m, State_Msg (ic_gossip ic)) \<in> sent [gossip_round env (common cl) ic {}, gossip_reqs env (common cl) ic]"
    using assms(2,3) by (auto simp: gossip_round_def Let_def)
  moreover have "cluster_recv env rid Gossip_Timeout cl rt =
      Some (cl, snd (schedule_gossip_timeout (common cl) rt), [gossip_round env (common cl) ic {}, gossip_reqs env (common cl) ic])"
    by (simp add: cluster_recv_def Let_def assms(1))
  ultimately show thesis using that by blast
qed

text \<open>Gossip that a node knows already.\<close>

lemma same_gossip_delivered:
  assumes inv: "cluster_inv env U cl S" and ic: "clr_state cl = In_Cluster ic" and adm: "admissible rid U cl S (Intra_Msg (State_Msg (ic_gossip ic)))"
  obtains cl' rt' out ic' where "cluster_recv env rid (Intra_Msg (State_Msg (ic_gossip ic))) cl rt = Some (cl', rt', out)"
    "clr_state cl' = In_Cluster ic'" "ic_gossip ic' = ic_gossip ic" "ns_member (common cl') = ns_member (common cl)"
proof -
  have "om_get (states (ic_gossip ic)) (ns_member (common cl)) = Some Up"
    using inv ic ic_invD(3,6)[of env U "common cl" ic] by (simp add: cluster_inv_def up_members_def)
  then show thesis
    using state_msg_run[OF inv ic adm, of rt thesis] that by (auto simp: merge_absorbs)
qed

theorem gossip_settles_witness:
  "\<exists>(net :: (nat, nat, nat, nat) clr_net) net'. clr_net_reach (\<lambda>_. sample_env) net_universe net \<and> gossip_of net 0 \<noteq> None \<and> gossip_of net 1 \<noteq> None \<and>
     gossip_run (\<lambda>_. sample_env) net_universe net [(0, 1), (1, 0)] net' \<and> knows net' 1 = knows net 0 \<union> knows net 1 \<and> settled net'"
proof -
  let ?E = "\<lambda>_::nat. sample_env"
  obtain net :: "(nat, nat, nat, nat) clr_net" and cla rta Sa ica clb rtb Sb icb where
    n: "clr_net_reach ?E net_universe net" "cn_nodes net = [0 \<mapsto> (cla, rta, Sa), 1 \<mapsto> (clb, rtb, Sb)]"
    "clr_state cla = In_Cluster ica" "clr_state clb = In_Cluster icb" "ic_gossip ica = ic_gossip icb"
    "ic_managers ica = [net_member 2 2]" "ic_managers icb = [net_member 1 1]"
    "ns_member (common cla) = net_member 1 1" "ns_member (common clb) = net_member 2 2"
    "cn_taken net = {net_member 1 1, net_member 2 2}" "ic_members icb = {net_member 1 1, net_member 2 2}"
    by (rule net_joined_facts)
  have u: "\<forall>n::nat. no_collisions (env_hash (?E n)) (env_wyrng (?E n)) net_universe" using net_universe_safe by blast
  have ne: "net_member 1 1 \<noteq> net_member 2 2" by (simp add: net_member_def)
  have dr: "draws net_universe N 3 cla" "draws net_universe N 4 clb" if "cn_taken N = cn_taken net" for N :: "(nat, nat, nat, nat) clr_net"
    unfolding draws_def that n(10) fresh_self_def n(8,9) by (simp_all add: net_universe_def net_member_def)
  let ?g = "ic_gossip ica"
  have gn: "gossip_of net = [0 \<mapsto> ?g, 1 \<mapsto> ?g]" by (auto simp: gossip_of_def n(2-4) n(5)[symmetric])
  obtain rta1 outa where ta: "cluster_recv (?E 0) 3 Gossip_Timeout cla rta = Some (cla, rta1, outa)" "(m_socket (net_member 2 2), State_Msg ?g) \<in> sent outa"
    by (rule tick_sends[OF n(3), of "net_member 2 2"]) (use ne in \<open>simp_all add: n(6,8)\<close>)
  obtain rtb1 outb where tb: "cluster_recv (?E 1) 4 Gossip_Timeout clb rtb = Some (clb, rtb1, outb)" "(m_socket (net_member 1 1), State_Msg ?g) \<in> sent outb"
    by (rule tick_sends[OF n(4), of "net_member 1 1"]) (use ne in \<open>simp_all add: n(5,7,9)\<close>)
  let ?n1 = "advance 0 (cla, rta1, Sa \<union> spawned outa) outa net"
  let ?n2 = "advance 1 (clb, rtb1, Sb \<union> spawned outb) outb ?n1"
  have r1: "gossip_run ?E net_universe net [] ?n1"
    by (rule gossip_run.tick[OF gossip_run.start _ dr(1) ta(1)]) (simp_all add: n(2))
  have k1: "cn_nodes ?n1 1 = Some (clb, rtb, Sb)" "cn_taken ?n1 = cn_taken net" by (auto simp: advance_def n(2,8,10))
  have r2: "gossip_run ?E net_universe net [] ?n2" by (rule gossip_run.tick[OF r1 k1(1) dr(2)[OF k1(2)] tb(1)])
  have k2: "cn_nodes ?n2 0 = Some (cla, rta1, Sa \<union> spawned outa)" "cn_nodes ?n2 1 = Some (clb, rtb1, Sb \<union> spawned outb)"
    "cn_taken ?n2 = cn_taken net" by (auto simp: advance_def n(2,8,9,10))
  have w2: "(m_socket (net_member 2 2), State_Msg ?g) \<in> cn_wire ?n2" "(m_socket (net_member 1 1), State_Msg ?g) \<in> cn_wire ?n2"
    using ta(2) tb(2) by (simp_all add: advance_def)
  note i2 = clr_net_reach_inv[OF _ gossip_run_reach[OF r2 n(1)], OF net_universe_safe]
  have ar2: "arrives ?n2 (clb, rtb1, Sb \<union> spawned outb) (Intra_Msg (State_Msg (ic_gossip icb)))" using w2(1) by (simp add: arrives_def n(9) n(5)[symmetric])
  obtain clb3 rtb3 outb3 icb3 where b3: "cluster_recv (?E 1) 4 (Intra_Msg (State_Msg (ic_gossip icb))) clb rtb1 = Some (clb3, rtb3, outb3)"
    "clr_state clb3 = In_Cluster icb3" "ic_gossip icb3 = ic_gossip icb" "ns_member (common clb3) = ns_member (common clb)"
    by (rule same_gossip_delivered[OF cluster_reach_cluster_inv[OF clr_net_invD(1)[OF i2 k2(2)]] n(4) arrives_admissible(1)[OF i2 k2(2) ar2 dr(2)[OF k2(3)]], of rtb1])
  let ?n3 = "advance 1 (clb3, rtb3, (Sb \<union> spawned outb) \<union> spawned outb3) outb3 ?n2"
  have s2: "gossip_of ?n2 0 = Some (ic_gossip icb)" by (simp add: n(3,5))
  have r3: "gossip_run ?E net_universe net ([] @ [(0, 1)]) ?n3" by (rule gossip_run.deliver[OF r2 s2 k2(2) n(4) ar2 dr(2)[OF k2(3)] b3(1)])
  have k3: "cn_nodes ?n3 0 = Some (cla, rta1, Sa \<union> spawned outa)" "cn_taken ?n3 = cn_taken net"
    by (auto simp: advance_def n(2,8,9,10) b3(4))
  have w3: "(m_socket (net_member 1 1), State_Msg ?g) \<in> cn_wire ?n3" using tb(2) by (simp add: advance_def)
  note i3 = clr_net_reach_inv[OF _ gossip_run_reach[OF r3 n(1)], OF net_universe_safe]
  have ar3: "arrives ?n3 (cla, rta1, Sa \<union> spawned outa) (Intra_Msg (State_Msg ?g))" using w3 by (simp add: arrives_def n(8))
  obtain cla4 rta4 outa4 ica4 where a4: "cluster_recv (?E 0) 3 (Intra_Msg (State_Msg ?g)) cla rta1 = Some (cla4, rta4, outa4)"
    "clr_state cla4 = In_Cluster ica4"
    by (rule same_gossip_delivered[OF cluster_reach_cluster_inv[OF clr_net_invD(1)[OF i3 k3(1)]] n(3) arrives_admissible(1)[OF i3 k3(1) ar3 dr(1)[OF k3(2)]], of rta1])
  have s3: "gossip_of ?n3 1 = Some ?g" by (simp add: b3(2,3) n(5))
  let ?n4 = "advance 0 (cla4, rta4, (Sa \<union> spawned outa) \<union> spawned outa4) outa4 ?n3"
  have r4: "gossip_run ?E net_universe net [(0, 1), (1, 0)] ?n4"
    using gossip_run.deliver[OF r3 s3 k3(1) n(3) ar3 dr(1)[OF k3(2)] a4(1)] by simp
  have h: "heard [(0::nat, 1), (1, 0)] 0 = {0, 1}" "heard [(0::nat, 1), (1, 0)] 1 = {0, 1}" by (auto simp: heard_def)
  have "clr_net_inv ?E net_universe net" by (rule clr_net_reach_inv) (use u n(1) in auto)
  from cluster_reach_cluster_inv[OF clr_net_invD(1)[OF this, of 1]] have "cluster_inv (?E 1) net_universe clb Sb" by (simp add: n(2))
  then have "ic_members icb = up_members ?g" using n(4,5) ic_invD(6) by (fastforce simp: cluster_inv_def)
  then have up: "{net_member 1 1, net_member 2 2} \<inter> downs ?g = {}" by (auto simp: n(11) up_members_def downs_def)
  have nd: "none_down net"
    using up by (auto simp: none_down_def identity_of_def holds_down_def gn n(2,8,9) split: if_splits)
  from gossip_settles[OF n(1) u nd r4] h gn have "settled ?n4" "knows ?n4 1 = knows net 0 \<union> knows net 1" by (auto split: if_splits)
  with n(1) r4 gn show ?thesis by (intro exI[of _ net] exI[of _ ?n4]) simp
qed

end
