(* ===== verification/Node_Services.thy ===== *)
theory Node_Services
  imports Node_Spawn Testkit
begin

text \<open>
  The services of a node and its timers (core/node.rs).  The registry and the logger are actors that every
  actor context needs and that need a context themselves, so their tasks are started first and wait for the
  node on a oneshot channel; \<open>new_priv\<close> sends it to them, one after the other, while the scheduler may poll
  either task at any time.  \<open>schedule\<close> and \<open>schedule_local_msg\<close> spawn a task that sleeps and then acts.
\<close>

subsection \<open>Services\<close>

datatype 'n oneshot = Unsent | Delivered 'n

datatype 'n service_life = Awaiting_Node | Serving 'n

record ('u, 's, 'n) service =
  svc_name :: "'u actor_id"
  svc_box :: "('u, 's) mailbox"
  svc_node :: "'n oneshot"
  svc_life :: "'n service_life"

text \<open>The task holds the receiving halves of the mailbox and of the oneshot; the caller gets the sending halves.\<close>

definition start_codependent :: "'u \<Rightarrow> string \<Rightarrow> ('u, 's, 'n) service" where
  "start_codependent variant_S name =
     \<lparr>svc_name = Actor_Id variant_S name, svc_box = \<lparr>mbox_open = True, mbox_queue = []\<rparr>, svc_node = Unsent, svc_life = Awaiting_Node\<rparr>"

text \<open>\<open>node_rx.await\<close>: with the node in the channel, the task goes on to \<open>unit_single\<close>.\<close>

definition poll_service :: "('u, 's, 'n) service \<Rightarrow> ('u, 's, 'n) service" where
  "poll_service svc =
     (case (svc_life svc, svc_node svc) of
        (Awaiting_Node, Delivered n) \<Rightarrow> svc\<lparr>svc_life := Serving n\<rparr>
      | _ \<Rightarrow> svc)"

text \<open>The task of a service that has its node: \<open>unit_single\<close> on the messages that have come so far.\<close>

definition service_task :: "('u, 's, 'n) service \<Rightarrow> ('u, 's) single_task option" where
  "service_task svc =
     (case svc_life svc of
        Serving _ \<Rightarrow> Some \<lparr>st_phase = Starting, st_rx = mbox_queue (svc_box svc), st_calls = []\<rparr>
      | Awaiting_Node \<Rightarrow> None)"

text \<open>\<open>Sender::send\<close> of the oneshot gives the value back when nobody waits for it any more.\<close>

definition node_tx_send :: "'n \<Rightarrow> ('u, 's, 'n) service \<Rightarrow> 'n + ('u, 's, 'n) service" where
  "node_tx_send n svc =
     (case svc_life svc of Awaiting_Node \<Rightarrow> Inr (svc\<lparr>svc_node := Delivered n\<rparr>) | Serving _ \<Rightarrow> Inl n)"

datatype service_id = Registry_Service | Logger_Service

record ('u, 'r, 'l, 'n) services =
  registry_service :: "('u, 'r, 'n) service"
  logger_service :: "('u, 'l, 'n) service"
  udp_receiver_spawned :: bool

fun poll :: "service_id \<Rightarrow> ('u, 'r, 'l, 'n) services \<Rightarrow> ('u, 'r, 'l, 'n) services" where
  "poll Registry_Service s = s\<lparr>registry_service := poll_service (registry_service s)\<rparr>"
| "poll Logger_Service s = s\<lparr>logger_service := poll_service (logger_service s)\<rparr>"

definition polls :: "service_id list \<Rightarrow> ('u, 'r, 'l, 'n) services \<Rightarrow> ('u, 'r, 'l, 'n) services" where
  "polls ids s = fold poll ids s"

datatype new_error = Not_Found string

text \<open>\<open>new_priv\<close>; the lists are what the scheduler polls before each of its steps.\<close>

definition new_priv ::
    "'u \<Rightarrow> 'u \<Rightarrow> 'n \<Rightarrow> service_id list \<Rightarrow> service_id list \<Rightarrow> service_id list \<Rightarrow> new_error + ('u, 'r, 'l, 'n) services" where
  "new_priv variant_reg variant_log node ps qs rs =
     (let s = polls ps \<lparr>registry_service = start_codependent variant_reg ''registry'',
            logger_service = start_codependent variant_log ''node_logger'', udp_receiver_spawned = False\<rparr> in
      case node_tx_send node (registry_service s) of
        Inl _ \<Rightarrow> Inl (Not_Found ''Registry'')
      | Inr reg \<Rightarrow>
          (let s = polls qs (s\<lparr>registry_service := reg\<rparr>) in
           case node_tx_send node (logger_service s) of
             Inl _ \<Rightarrow> Inl (Not_Found ''Logger'')
           | Inr lgr \<Rightarrow> Inr ((polls rs (s\<lparr>logger_service := lgr\<rparr>))\<lparr>udp_receiver_spawned := True\<rparr>)))"

text \<open>\<open>Node::registry\<close> and \<open>Node::log\<close>.\<close>

definition node_registry :: "'r \<Rightarrow> ('u, 'r, 'l, 'n) services \<Rightarrow> bool \<times> ('u, 'r, 'l, 'n) services" where
  "node_registry msg s =
     (case local_send (create_local id) msg (svc_box (registry_service s)) of
        (ok, b) \<Rightarrow> (ok, s\<lparr>registry_service := (registry_service s)\<lparr>svc_box := b\<rparr>\<rparr>))"

definition node_log :: "'l \<Rightarrow> ('u, 'r, 'l, 'n) services \<Rightarrow> bool \<times> ('u, 'r, 'l, 'n) services" where
  "node_log msg s =
     (case local_send (create_local id) msg (svc_box (logger_service s)) of
        (ok, b) \<Rightarrow> (ok, s\<lparr>logger_service := (logger_service s)\<lparr>svc_box := b\<rparr>\<rparr>))"

text \<open>What happens on a new node, with the results of the sends.\<close>

datatype ('r, 'l) service_event = Polled service_id | To_Registry 'r | To_Logger 'l

fun services_run :: "('r, 'l) service_event list \<Rightarrow> ('u, 'r, 'l, 'n) services \<Rightarrow> bool list \<times> ('u, 'r, 'l, 'n) services" where
  "services_run [] s = ([], s)"
| "services_run (Polled i # es) s = services_run es (poll i s)"
| "services_run (To_Registry m # es) s =
     (case node_registry m s of (ok, s1) \<Rightarrow> (case services_run es s1 of (oks, s2) \<Rightarrow> (ok # oks, s2)))"
| "services_run (To_Logger m # es) s =
     (case node_log m s of (ok, s1) \<Rightarrow> (case services_run es s1 of (oks, s2) \<Rightarrow> (ok # oks, s2)))"

definition logged :: "('r, 'l) service_event list \<Rightarrow> 'l list" where
  "logged es = List.map_filter (\<lambda>e. case e of To_Logger m \<Rightarrow> Some m | _ \<Rightarrow> None) es"

definition commanded :: "('r, 'l) service_event list \<Rightarrow> 'r list" where
  "commanded es = List.map_filter (\<lambda>e. case e of To_Registry m \<Rightarrow> Some m | _ \<Rightarrow> None) es"

text \<open>A service whose node has been sent, and that has taken nothing from its mailbox yet.\<close>

definition ready :: "'n \<Rightarrow> 's list \<Rightarrow> ('u, 's, 'n) service \<Rightarrow> bool" where
  "ready n ms svc \<longleftrightarrow> svc_box svc = \<lparr>mbox_open = True, mbox_queue = map (Msg \<circ> Local_Msg) ms\<rparr> \<and>
     svc_node svc = Delivered n \<and> svc_life svc \<in> {Awaiting_Node, Serving n}"

definition fresh :: "('u, 's, 'n) service \<Rightarrow> bool" where
  "fresh svc \<longleftrightarrow> svc_box svc = \<lparr>mbox_open = True, mbox_queue = []\<rparr> \<and> svc_node svc = Unsent \<and> svc_life svc = Awaiting_Node"

lemma poll_service_simps [simp]:
  "fresh svc \<Longrightarrow> poll_service svc = svc" "ready n ms svc \<Longrightarrow> ready n ms (poll_service svc)"
  "ready n ms svc \<Longrightarrow> svc_life (poll_service svc) = Serving n"
  by (auto simp: poll_service_def fresh_def ready_def)

lemma node_tx_fresh: "fresh svc \<Longrightarrow> \<exists>svc'. node_tx_send n svc = Inr svc' \<and> ready n [] svc'"
  by (simp add: node_tx_send_def fresh_def ready_def)

lemma start_fresh: "fresh (start_codependent v name)"
  by (simp add: start_codependent_def fresh_def)

lemma polls_fresh: "fresh (registry_service s) \<Longrightarrow> fresh (logger_service s) \<Longrightarrow> polls ids s = s"
proof (induction ids)
  case (Cons i ids)
  then have "poll i s = s" by (cases i) simp_all
  with Cons show ?case by (simp add: polls_def)
qed (simp add: polls_def)

lemma poll_ready:
  "ready n ms (registry_service s) \<Longrightarrow> ready n ms (registry_service (poll i s))"
  "fresh (logger_service s) \<Longrightarrow> fresh (logger_service (poll i s))"
  "ready n ks (logger_service s) \<Longrightarrow> ready n ks (logger_service (poll i s))"
  by (cases i; simp)+

lemma polls_ready:
  "ready n ms (registry_service s) \<Longrightarrow> ready n ms (registry_service (polls ids s))"
  "fresh (logger_service s) \<Longrightarrow> fresh (logger_service (polls ids s))"
  "ready n ks (logger_service s) \<Longrightarrow> ready n ks (logger_service (polls ids s))"
  unfolding polls_def by (induction ids arbitrary: s) (simp_all add: poll_ready)

lemma new_priv_ready:
  "\<exists>s :: ('u, 'r, 'l, 'n) services. new_priv vr vl node ps qs rs = Inr s \<and> ready node [] (registry_service s) \<and> ready node [] (logger_service s) \<and> udp_receiver_spawned s"
proof -
  let ?s = "\<lparr>registry_service = start_codependent vr ''registry'', logger_service = start_codependent vl ''node_logger'', udp_receiver_spawned = False\<rparr> :: ('u, 'r, 'l, 'n) services"
  obtain reg :: "('u, 'r, 'n) service" where reg: "node_tx_send node (start_codependent vr ''registry'') = Inr reg" "ready node [] reg"
    using node_tx_fresh[where n = node, OF start_fresh[where v = vr and name = "''registry''"]] by (elim exE conjE) (rule that)
  let ?t = "polls qs (?s\<lparr>registry_service := reg\<rparr>)"
  have t: "ready node [] (registry_service ?t)" "fresh (logger_service ?t)" by (simp_all add: polls_ready reg(2) start_fresh)
  obtain lgr :: "('u, 'l, 'n) service" where lgr: "node_tx_send node (logger_service ?t) = Inr lgr" "ready node [] lgr" using node_tx_fresh[OF t(2)] by blast
  have "new_priv vr vl node ps qs rs = Inr ((polls rs (?t\<lparr>logger_service := lgr\<rparr>))\<lparr>udp_receiver_spawned := True\<rparr>)"
    using reg(1) lgr(1) by (simp add: new_priv_def polls_fresh start_fresh Let_def)
  then show ?thesis using t(1) lgr(2) by (simp add: polls_ready)
qed

lemma send_ready:
  assumes "ready n ks (registry_service s)" and "ready n ms (logger_service s)"
  shows "fst (node_registry k s) \<and> ready n (ks @ [k]) (registry_service (snd (node_registry k s))) \<and>
      ready n ms (logger_service (snd (node_registry k s)))"
    and "fst (node_log m s) \<and> ready n ks (registry_service (snd (node_log m s))) \<and> ready n (ms @ [m]) (logger_service (snd (node_log m s)))"
  using assms
  by (auto simp: node_registry_def node_log_def ready_def local_send_def create_local_def mailbox_send_def local_actor_msg_convert_def)

lemma services_run_ready:
  assumes "ready n ks (registry_service s)" and "ready n ms (logger_service s)" and "services_run es s = (oks, s')"
  shows "False \<notin> set oks" and "ready n (ks @ commanded es) (registry_service s')" and "ready n (ms @ logged es) (logger_service s')"
proof -
  have "False \<notin> set oks \<and> ready n (ks @ commanded es) (registry_service s') \<and> ready n (ms @ logged es) (logger_service s')"
    using assms
  proof (induction es s arbitrary: ks ms oks s' rule: services_run.induct)
    case (1 s)
    then show ?case by (simp add: commanded_def logged_def)
  next
    case (2 i es s)
    from "2.IH"[of ks ms oks s'] "2.prems" show ?case by (simp add: poll_ready commanded_def logged_def)
  next
    case (3 k es s)
    obtain ok s1 where r: "node_registry k s = (ok, s1)" by (cases "node_registry k s")
    from send_ready(1)[OF "3.prems"(1,2), of k] r have s1: "ok" "ready n (ks @ [k]) (registry_service s1)" "ready n ms (logger_service s1)" by simp_all
    obtain oks' where o: "services_run es s1 = (oks', s')" "oks = ok # oks'" using "3.prems"(3) r by (auto split: prod.splits)
    from "3.IH"[OF r[symmetric] s1(2,3) o(1)] s1(1) o(2) show ?case by (simp add: commanded_def logged_def)
  next
    case (4 m es s)
    obtain ok s1 where r: "node_log m s = (ok, s1)" by (cases "node_log m s")
    from send_ready(2)[OF "4.prems"(1,2), of m] r have s1: "ok" "ready n ks (registry_service s1)" "ready n (ms @ [m]) (logger_service s1)" by simp_all
    obtain oks' where o: "services_run es s1 = (oks', s')" "oks = ok # oks'" using "4.prems"(3) r by (auto split: prod.splits)
    from "4.IH"[OF r[symmetric] s1(2,3) o(1)] s1(1) o(2) show ?case by (simp add: commanded_def logged_def)
  qed
  then show "False \<notin> set oks" "ready n (ks @ commanded es) (registry_service s')" "ready n (ms @ logged es) (logger_service s')" by auto
qed


text \<open>The task of a service, some steps on.\<close>

fun unit_single_steps :: "('u, 's) deserializer \<Rightarrow> nat \<Rightarrow> ('u, 's) single_task \<Rightarrow> ('u, 's) single_task option" where
  "unit_single_steps deser 0 t = Some t"
| "unit_single_steps deser (Suc k) t =
     (case unit_single_step deser t of None \<Rightarrow> None | Some t' \<Rightarrow> unit_single_steps deser k t')"

lemma run_all_calls:
  "unit_single_steps deser (Suc (length ms)) \<lparr>st_phase = Starting, st_rx = map (Msg \<circ> Local_Msg) ms, st_calls = []\<rparr> =
     Some \<lparr>st_phase = Running, st_rx = [], st_calls = Pre_Start # map Recv ms\<rparr>"
proof -
  have "unit_single_steps deser (length ms) \<lparr>st_phase = Running, st_rx = map (Msg \<circ> Local_Msg) ms, st_calls = cs\<rparr> =
      Some \<lparr>st_phase = Running, st_rx = [], st_calls = cs @ map Recv ms\<rparr>" for cs
    by (induction ms arbitrary: cs) (simp_all add: unit_single_step_def)
  then show ?thesis by (simp add: unit_single_step_def)
qed

lemma ready_task:
  assumes "ready n ms svc"
  shows "\<exists>t. service_task (poll_service svc) = Some t \<and>
     unit_single_steps deser (Suc (length ms)) t = Some \<lparr>st_phase = Running, st_rx = [], st_calls = Pre_Start # map Recv ms\<rparr>"
proof -
  from assms have "svc_life (poll_service svc) = Serving n" "ready n ms (poll_service svc)" by simp_all
  then have "service_task (poll_service svc) = Some \<lparr>st_phase = Starting, st_rx = map (Msg \<circ> Local_Msg) ms, st_calls = []\<rparr>"
    by (simp add: service_task_def ready_def)
  with run_all_calls show ?thesis by blast
qed

text \<open>
  Fact.  A new node is complete.  Whatever the scheduler polls while the node is made, its construction
  succeeds and the receiver of datagrams is spawned; every message that is later sent to the registry or the
  logger is accepted, even before their tasks have got the node; and once the task of either is polled, it
  serves the node and calls \<open>pre_start\<close> and then \<open>recv\<close> with all of its messages in the order they were sent.
\<close>

theorem node_services_complete:
  "\<exists>s :: ('u, 'r, 'l, 'n) services. new_priv variant_reg variant_log node ps qs rs = Inr s \<and> udp_receiver_spawned s \<and>
     (\<forall>es oks s'. services_run es s = (oks, s') \<longrightarrow>
        False \<notin> set oks \<and>
        (\<exists>t. service_task (registry_service (poll Registry_Service s')) = Some t \<and>
           unit_single_steps deser_reg (Suc (length (commanded es))) t =
             Some \<lparr>st_phase = Running, st_rx = [], st_calls = Pre_Start # map Recv (commanded es)\<rparr>) \<and>
        (\<exists>t. service_task (logger_service (poll Logger_Service s')) = Some t \<and>
           unit_single_steps deser_log (Suc (length (logged es))) t =
             Some \<lparr>st_phase = Running, st_rx = [], st_calls = Pre_Start # map Recv (logged es)\<rparr>))"
proof -
  obtain s :: "('u, 'r, 'l, 'n) services" where s: "new_priv variant_reg variant_log node ps qs rs = Inr s" "ready node [] (registry_service s)"
    "ready node [] (logger_service s)" "udp_receiver_spawned s"
    using new_priv_ready[of variant_reg variant_log node ps qs rs] by blast
  have r: "False \<notin> set oks" "ready node (commanded es) (registry_service s')" "ready node (logged es) (logger_service s')"
    if "services_run es s = (oks, s')" for es oks s'
    using services_run_ready[OF s(2,3) that] by simp_all
  show ?thesis
  proof (intro exI[of _ s] conjI allI impI s(1,4))
    fix es oks s'
    assume run: "services_run es s = (oks, s')"
    have polled: "registry_service (poll Registry_Service s') = poll_service (registry_service s')"
      "logger_service (poll Logger_Service s') = poll_service (logger_service s')" by simp_all
    show "False \<notin> set oks" by (rule r(1)[OF run])
    show "\<exists>t. service_task (registry_service (poll Registry_Service s')) = Some t \<and>
           unit_single_steps deser_reg (Suc (length (commanded es))) t =
             Some \<lparr>st_phase = Running, st_rx = [], st_calls = Pre_Start # map Recv (commanded es)\<rparr>"
      unfolding polled by (rule ready_task[OF r(2)[OF run]])
    show "\<exists>t. service_task (logger_service (poll Logger_Service s')) = Some t \<and>
           unit_single_steps deser_log (Suc (length (logged es))) t =
             Some \<lparr>st_phase = Running, st_rx = [], st_calls = Pre_Start # map Recv (logged es)\<rparr>"
      unfolding polled by (rule ready_task[OF r(3)[OF run]])
  qed
qed

subsection \<open>Timers\<close>

text \<open>
  The sleeping tasks of a node, each with the instant it wakes up at and what it then does to the world; the
  result of a local message is whether it was accepted.  \<open>JoinHandle::abort\<close> ends a task that sleeps.
\<close>

record 'w node_timers =
  tm_now :: duration
  tm_next :: nat
  tm_sleeping :: "(nat \<times> duration \<times> ('w \<Rightarrow> bool \<times> 'w)) list"

definition node_schedule :: "duration \<Rightarrow> ('w \<Rightarrow> bool \<times> 'w) \<Rightarrow> 'w node_timers \<Rightarrow> nat \<times> 'w node_timers" where
  "node_schedule dur act t =
     (tm_next t, t\<lparr>tm_next := Suc (tm_next t), tm_sleeping := tm_sleeping t @ [(tm_next t, tm_now t + dur, act)]\<rparr>)"

definition schedule_local_msg :: "duration \<Rightarrow> ('t, 'w) local_ref \<Rightarrow> 't \<Rightarrow> 'w node_timers \<Rightarrow> nat \<times> 'w node_timers" where
  "schedule_local_msg dur r msg t = node_schedule dur (local_send r msg) t"

datatype timer_step = Elapse duration | Wake nat | Abort nat

text \<open>A run of the scheduler: a task wakes up when its time has come; the handles of those that did, with their results.\<close>

fun timers_run :: "timer_step list \<Rightarrow> 'w node_timers \<Rightarrow> 'w \<Rightarrow> ('w node_timers \<times> 'w \<times> (nat \<times> bool) list) option" where
  "timers_run [] t w = Some (t, w, [])"
| "timers_run (Elapse d # ss) t w = timers_run ss (t\<lparr>tm_now := tm_now t + d\<rparr>) w"
| "timers_run (Abort h # ss) t w = timers_run ss (t\<lparr>tm_sleeping := filter (\<lambda>e. fst e \<noteq> h) (tm_sleeping t)\<rparr>) w"
| "timers_run (Wake h # ss) t w =
     (case map_of (tm_sleeping t) h of
        None \<Rightarrow> None
      | Some (due, act) \<Rightarrow>
          (if tm_now t < due then None
           else (case act w of (ok, w1) \<Rightarrow>
             map_option (\<lambda>(t', w', woken). (t', w', (h, ok) # woken))
               (timers_run ss (t\<lparr>tm_sleeping := filter (\<lambda>e. fst e \<noteq> h) (tm_sleeping t)\<rparr>) w1))))"


definition timers_ok :: "'w node_timers \<Rightarrow> bool" where
  "timers_ok t \<longleftrightarrow> distinct (map fst (tm_sleeping t)) \<and> (\<forall>e\<in>set (tm_sleeping t). fst e < tm_next t)"

definition wakes :: "nat \<Rightarrow> (nat \<times> bool) list \<Rightarrow> nat" where
  "wakes h woken = length (filter (\<lambda>e. fst e = h) woken)"

lemma map_of_filter_other: "h' \<noteq> h \<Longrightarrow> map_of (filter (\<lambda>e. fst e \<noteq> h') xs) h = map_of xs h"
  by (induction xs) auto

lemma map_of_filter_self [simp]: "map_of (filter (\<lambda>e. fst e \<noteq> h) xs) h = None"
  by (induction xs) auto

lemma wakes_simps [simp]: "wakes h [] = 0" "wakes h ((h', ok) # ws) = (if h' = h then Suc (wakes h ws) else wakes h ws)"
  by (simp_all add: wakes_def)

lemma wake_cases:
  assumes "timers_run (Wake h # ss) t w = Some (t', w', woken)"
  obtains due act ok w1 ws where "map_of (tm_sleeping t) h = Some (due, act)" "\<not> tm_now t < due" "act w = (ok, w1)"
    "timers_run ss (t\<lparr>tm_sleeping := filter (\<lambda>e. fst e \<noteq> h) (tm_sleeping t)\<rparr>) w1 = Some (t', w', ws)" "woken = (h, ok) # ws"
  using assms by (auto split: option.splits prod.splits if_splits)

text \<open>A task that does not sleep never wakes up, and one that sleeps does so once, in time.\<close>

lemma timers_run_task:
  "timers_run ss t w = Some (t', w', woken) \<Longrightarrow> tm_now t \<le> tm_now t' \<and>
   (case map_of (tm_sleeping t) h of
      None \<Rightarrow> wakes h woken = 0 \<and> map_of (tm_sleeping t') h = None
    | Some (due, act) \<Rightarrow>
        wakes h woken = 0 \<and> map_of (tm_sleeping t') h = Some (due, act) \<and> Abort h \<notin> set ss \<or>
        wakes h woken = 0 \<and> map_of (tm_sleeping t') h = None \<and> Abort h \<in> set ss \<or>
        wakes h woken = 1 \<and> map_of (tm_sleeping t') h = None \<and> due \<le> tm_now t')"
proof (induction ss t w arbitrary: t' w' woken rule: timers_run.induct)
  case (1 t w)
  then show ?case by (simp split: option.split prod.split)
next
  case (2 d ss t w)
  from "2.IH"[of t' w' woken] "2.prems" show ?case by (auto split: option.splits)
next
  case (3 h' ss t w)
  from "3.IH"[of t' w' woken] "3.prems" show ?case
    by (cases "h' = h") (auto simp: map_of_filter_other split: option.splits)
next
  case (4 h' ss t w)
  from "4.prems" show ?case
  proof (cases rule: wake_cases)
    case (1 due act ok w1 ws)
    from "4.IH"[OF 1(1) refl 1(2) 1(3)[symmetric] 1(4)] 1(1,2,5) show ?thesis
      by (cases "h' = h") (auto simp: map_of_filter_other split: option.splits)
  qed
qed

text \<open>
  Fact.  A scheduled message is sent once, in time.  When a message has been scheduled for a local
  actor, its task wakes up at most once in whatever follows, never before the delay is over; an abort before
  that prevents it for good; and as long as neither has happened, the task can wake up as soon as the delay
  is over, and then sends exactly this message to the actor, with the result of the send as its own.
\<close>

theorem scheduled_message_sent_once:
  assumes "timers_ok t" and "schedule_local_msg dur r msg t = (h, t1)" and "timers_run ss t1 w = Some (t', w', woken)"
  shows "wakes h woken \<le> 1 \<and> (wakes h woken = 1 \<longrightarrow> tm_now t + dur \<le> tm_now t') \<and>
    (wakes h woken = 0 \<and> Abort h \<notin> set ss \<and> tm_now t + dur \<le> tm_now t' \<longrightarrow>
       (\<exists>t2. timers_run [Wake h] t' w' = Some (t2, snd (local_send r msg w'), [(h, fst (local_send r msg w'))]))) \<and>
    (wakes h woken = 1 \<or> Abort h \<in> set ss \<longrightarrow> timers_run [Wake h] t' w' = None)"
proof -
  from assms(2) have h: "h = tm_next t" and t1: "tm_sleeping t1 = tm_sleeping t @ [(h, tm_now t + dur, local_send r msg)]"
    by (auto simp: schedule_local_msg_def node_schedule_def)
  have "map_of (tm_sleeping t) h = None" using assms(1) h by (auto simp: timers_ok_def map_of_eq_None_iff)
  then have "map_of (tm_sleeping t1) h = Some (tm_now t + dur, local_send r msg)" by (simp add: t1 map_add_def)
  with timers_run_task[OF assms(3), of h] consider
      "wakes h woken = 0" "map_of (tm_sleeping t') h = Some (tm_now t + dur, local_send r msg)" "Abort h \<notin> set ss"
    | "wakes h woken = 0" "map_of (tm_sleeping t') h = None" "Abort h \<in> set ss"
    | "wakes h woken = 1" "map_of (tm_sleeping t') h = None" "tm_now t + dur \<le> tm_now t'" by auto
  then show ?thesis by cases (auto split: prod.split)
qed

text \<open>A mailbox to which a message is scheduled.\<close>

lemma timers_ok_start: "timers_ok \<lparr>tm_now = 0, tm_next = 0, tm_sleeping = []\<rparr>"
  by (simp add: timers_ok_def)

theorem scheduled_message_sent_once_witness:
  "\<exists>t1 t2 w2. schedule_local_msg 5 (create_local id) (7 :: nat) \<lparr>tm_now = 0, tm_next = 0, tm_sleeping = []\<rparr> = (0, t1) \<and>
     timers_run [Elapse 5] t1 (\<lparr>mbox_open = True, mbox_queue = []\<rparr> :: (nat, nat) mailbox) = Some (t2, w2, []) \<and>
     (\<exists>t3. timers_run [Wake 0] t2 w2 = Some (t3, \<lparr>mbox_open = True, mbox_queue = [Msg (Local_Msg 7)]\<rparr>, [(0, True)]))"
proof -
  let ?t = "\<lparr>tm_now = 0, tm_next = 0, tm_sleeping = []\<rparr> :: (nat, nat) mailbox node_timers"
  let ?w = "\<lparr>mbox_open = True, mbox_queue = []\<rparr> :: (nat, nat) mailbox"
  let ?t1 = "\<lparr>tm_now = 0, tm_next = 1, tm_sleeping = [(0, 5, local_send (create_local id) 7)]\<rparr> :: (nat, nat) mailbox node_timers"
  have s: "schedule_local_msg 5 (create_local id) 7 ?t = (0, ?t1)" by (simp add: schedule_local_msg_def node_schedule_def)
  have r: "timers_run [Elapse 5] ?t1 ?w = Some (?t1\<lparr>tm_now := 5\<rparr>, ?w, [])" by simp
  have "local_send (create_local id) 7 ?w = (True, \<lparr>mbox_open = True, mbox_queue = [Msg (Local_Msg 7)]\<rparr>)"
    by (simp add: local_send_def create_local_def mailbox_send_def local_actor_msg_convert_def)
  with scheduled_message_sent_once[OF timers_ok_start s r] s r show ?thesis by simp
qed

end
