(* ===== verification/Unit_Tests.thy ===== *)
theory Unit_Tests
  imports Ring_Monitoring Gossip Devices_State Unify_Macro
begin

text \<open>
  The unit tests that the source files carry, as functions on the model: each definition is the body of a test
  with its data, and is true where the test passes.  They are evaluated on the model, so that the model
  is held against the same expectations as the code.  The test of the ring against fixed values of wyhash
  and the test of the interval storage, which only prints, are left out.
\<close>

subsection \<open>Device table\<close>

definition E_0_1_100 :: device_entry where
  "E_0_1_100 = Device_Entry 0 (Some (Device_Interval 1 (from_millis 100)))"

definition E_0_0_50 :: device_entry where
  "E_0_0_50 = Device_Entry 0 (Some (Device_Interval 0 (from_millis 50)))"

definition E_0_0_100 :: device_entry where
  "E_0_0_100 = Device_Entry 0 (Some (Device_Interval 0 (from_millis 100)))"

definition E_1_NONE :: device_entry where
  "E_1_NONE = Device_Entry 1 None"

definition E_1_0_100 :: device_entry where
  "E_1_0_100 = Device_Entry 1 (Some (Device_Interval 0 (from_millis 100)))"

lemmas test_entries = E_0_1_100_def E_0_0_50_def E_0_0_100_def E_1_NONE_def E_1_0_100_def

definition test_device :: "u16 \<Rightarrow> device" where
  "test_device p = Device (socket_new (DNS ''localhost'') p 0)"

definition devices_state_join_test :: bool where
  "devices_state_join_test =
     (let d = test_device;
        a = om_of_list [(d 0, E_0_1_100), (d 1, E_0_0_50), (d 2, E_0_0_50), (d 3, E_0_0_100), (d 4, E_1_NONE),
              (d 5, E_0_0_100), (d 6, E_1_NONE), (d 7, E_1_0_100), (d 8, E_1_0_100)];
        b = om_of_list [(d 0, E_0_0_50), (d 1, E_0_1_100), (d 2, E_0_0_100), (d 3, E_0_0_50), (d 4, E_0_0_100),
              (d 5, E_1_NONE), (d 6, E_1_0_100), (d 7, E_1_NONE), (d 9, E_1_0_100)];
        c = om_of_list [(d 0, E_0_1_100), (d 1, E_0_1_100), (d 2, E_0_0_50), (d 3, E_0_0_50), (d 4, E_1_NONE),
              (d 5, E_1_NONE), (d 6, E_1_0_100), (d 7, E_1_0_100), (d 8, E_1_0_100), (d 9, E_1_0_100)]
      in entries (devices_join a b) = entries c)"

definition devices_state_deltas_test :: bool where
  "devices_state_deltas_test =
     (let d = test_device;
        a = om_of_list [(d 0, E_1_NONE), (d 1, E_0_0_50), (d 2, E_0_0_50), (d 3, E_0_0_100), (d 4, E_1_NONE),
              (d 5, E_0_0_100), (d 6, E_1_NONE), (d 7, E_0_0_50), (d 8, E_0_0_50)];
        c = om_of_list [(d 0, E_1_NONE), (d 1, E_0_1_100), (d 2, E_0_0_50), (d 3, E_0_0_50), (d 4, E_1_NONE),
              (d 5, E_1_NONE), (d 6, E_1_0_100), (d 7, E_0_0_50), (d 8, E_0_0_50), (d 9, E_0_0_100)];
        mutations = [Put (d 1) (the (entry_interval E_0_1_100)), Put (d 3) (the (entry_interval E_0_0_50)),
          Remove (d 4), Remove (d 5), Put (d 6) (the (entry_interval E_1_0_100)), Put (d 7) (the (entry_interval E_0_0_50)),
          Put (d 8) (the (entry_interval E_0_0_100)), Put (d 9) (the (entry_interval E_0_0_100)), Remove (d 10)];
        exp_deltas = [om_insert (d 1) E_0_1_100 om_empty, om_insert (d 3) E_0_0_50 om_empty, devices_minimum,
          om_insert (d 5) E_1_NONE om_empty, om_insert (d 6) E_1_0_100 om_empty, devices_minimum, devices_minimum,
          om_insert (d 9) E_0_0_100 om_empty, devices_minimum];
        deltas = map (\<lambda>m. device_mutator_apply m a) mutations;
        j = fold (\<lambda>x acc. devices_join acc x) deltas devices_minimum
      in map entries deltas = map entries exp_deltas \<and> entries (devices_join j a) = entries c)"

lemma test_device_order [simp]: "test_device p < test_device q \<longleftrightarrow> p < q" "test_device p = test_device q \<longleftrightarrow> p = q"
  by (auto simp: test_device_def socket_new_def less_device_def less_socket_def less_eq_socket_def)

lemma max_interval:
  "max (Device_Interval c d) (Device_Interval c' d') =
     (if c < c' \<or> c = c' \<and> d' \<le> d then Device_Interval c' d' else Device_Interval c d)"
  by (auto simp: max_def device_interval_le_iff)

text \<open>
  Fact.  The tests \<open>devices_state_join_test\<close> and \<open>devices_state_deltas_test\<close> of devices_state.rs pass on the model.
\<close>

theorem devices_state_tests_pass: "devices_state_join_test" "devices_state_deltas_test"
proof -
  show "devices_state_join_test"
    by (simp add: devices_state_join_test_def Let_def om_of_list_def devices_join_def om_union_with_def om_get_entries
      test_entries max_device_entry max_interval from_millis_def)
  let ?d = test_device
  let ?a = "om_of_list [(?d 0, E_1_NONE), (?d 1, E_0_0_50), (?d 2, E_0_0_50), (?d 3, E_0_0_100), (?d 4, E_1_NONE),
              (?d 5, E_0_0_100), (?d 6, E_1_NONE), (?d 7, E_0_0_50), (?d 8, E_0_0_50)]"
  let ?ds = "[om_insert (?d 1) E_0_1_100 om_empty, om_insert (?d 3) E_0_0_50 om_empty, devices_minimum,
          om_insert (?d 5) E_1_NONE om_empty, om_insert (?d 6) E_1_0_100 om_empty, devices_minimum, devices_minimum,
          om_insert (?d 9) E_0_0_100 om_empty, devices_minimum]"
  have get: "om_get ?a (?d 1) = Some E_0_0_50" "om_get ?a (?d 3) = Some E_0_0_100" "om_get ?a (?d 4) = Some E_1_NONE"
    "om_get ?a (?d 5) = Some E_0_0_100" "om_get ?a (?d 6) = Some E_1_NONE" "om_get ?a (?d 7) = Some E_0_0_50"
    "om_get ?a (?d 8) = Some E_0_0_50" "om_get ?a (?d 9) = None" "om_get ?a (?d 10) = None"
    by (simp_all add: om_get_of_list)
  have deltas: "map (\<lambda>m. device_mutator_apply m ?a) [Put (?d 1) (the (entry_interval E_0_1_100)), Put (?d 3) (the (entry_interval E_0_0_50)),
          Remove (?d 4), Remove (?d 5), Put (?d 6) (the (entry_interval E_1_0_100)), Put (?d 7) (the (entry_interval E_0_0_50)),
          Put (?d 8) (the (entry_interval E_0_0_100)), Put (?d 9) (the (entry_interval E_0_0_100)), Remove (?d 10)] = ?ds"
    by (simp add: get) (simp add: test_entries device_interval_le_iff from_millis_def devices_minimum_def)
  have unit: "devices_join s (om_insert k v om_empty) = om_insert k (case om_get s k of None \<Rightarrow> v | Some w \<Rightarrow> max w v) s" for s k v
    by (rule om_eqI) (simp split: option.split)
  have none: "devices_join s devices_minimum = s" for s by (rule om_eqI) simp
  let ?j = "om_of_list [(?d 1, E_0_1_100), (?d 3, E_0_0_50), (?d 5, E_1_NONE), (?d 6, E_1_0_100), (?d 9, E_0_0_100)]"
  have j: "fold (\<lambda>x acc. devices_join acc x) ?ds devices_minimum = ?j"
    by (simp add: unit none om_of_list_def) (simp add: devices_minimum_def)
  have "entries (devices_join ?j ?a) = entries (om_of_list [(?d 0, E_1_NONE), (?d 1, E_0_1_100), (?d 2, E_0_0_50), (?d 3, E_0_0_50),
      (?d 4, E_1_NONE), (?d 5, E_1_NONE), (?d 6, E_1_0_100), (?d 7, E_0_0_50), (?d 8, E_0_0_50), (?d 9, E_0_0_100)])"
    by (simp add: om_of_list_def devices_join_def om_union_with_def om_get_entries test_entries max_device_entry max_interval from_millis_def)
  then show "devices_state_deltas_test" unfolding devices_state_deltas_test_def Let_def deltas j by simp
qed

subsection \<open>Gossip\<close>

definition test_gossip_member :: "u16 \<Rightarrow> member" where
  "test_gossip_member x = Member (socket_new (DNS ''localhost'') x 0) (ucast x) ((ucast x - 5000) div 2 + 2)"

definition test_gossip_merge :: bool where
  "test_gossip_merge =
     (let m = (\<lambda>i. test_gossip_member (5000 + i));
        local = \<lparr>states = om_of_list [(m 0, Up), (m 2, Up), (m 4, Up), (m 5, Up), (m 6, Down), (m 7, Up)]\<rparr>;
        recvd = \<lparr>states = om_of_list [(m 1, Up), (m 2, Up), (m 3, Up), (m 5, Up), (m 6, Up), (m 7, Down), (m 8, Up)]\<rparr>;
        expected_local = om_of_list [(m 0, Up), (m 1, Up), (m 2, Up), (m 3, Up), (m 4, Up), (m 5, Up), (m 6, Down),
          (m 7, Down), (m 8, Up)];
        expected_changes = [Added (m 1), Added (m 3), Removed (m 7), Added (m 8)]
      in case gossip_merge local recvd of (local', changes) \<Rightarrow>
           entries (states local') = entries expected_local \<and> changes = expected_changes)"

lemma test_member_order [simp]:
  "test_gossip_member x < test_gossip_member y \<longleftrightarrow> x < y" "test_gossip_member x = test_gossip_member y \<longleftrightarrow> x = y"
  by (auto simp: test_gossip_member_def socket_new_def less_member_def less_eq_member_def less_eq_socket_def less_le_not_le)

text \<open>
  Fact.  The test \<open>test_gossip_merge\<close> of gossip.rs passes on the model.
\<close>

theorem test_gossip_merge_passes: "test_gossip_merge"
  by (simp add: test_gossip_merge_def Let_def om_of_list_def gossip_merge_def)

subsection \<open>Ring\<close>

definition test_ring_member :: "u16 \<Rightarrow> u64 \<Rightarrow> member" where
  "test_ring_member p i = Member (socket_new (DNS ''localhost'') p 0) i 3"

definition test_not_in_ring :: "(member \<Rightarrow> u64) \<Rightarrow> (u64 \<Rightarrow> u64) \<Rightarrow> bool" where
  "test_not_in_ring hash wyrng =
     (let m = test_ring_member 4000 8;
        other = test_ring_member 4001 453;
        ring1 = ring_insert hash wyrng m (ring_new 3);
        ring2 = ring_insert hash wyrng other ring1
      in charges hash wyrng ring1 other = None \<and> node_managers hash ring1 other = None \<and>
        charges hash wyrng ring2 other = Some [m] \<and> node_managers hash ring2 other = Some [m] \<and>
        charges hash wyrng ring2 m = Some [other] \<and> node_managers hash ring2 m = Some [other])"

text \<open>
  Fact.  The test \<open>test_not_in_ring\<close> of node_ring.rs passes on the model, with every hash function that keeps
  the two members apart.
\<close>

theorem test_not_in_ring_passes:
  assumes nc: "no_collisions hash wyrng {test_ring_member 4000 8, test_ring_member 4001 453}"
  shows "test_not_in_ring hash wyrng"
proof -
  let ?m = "test_ring_member 4000 8" and ?o = "test_ring_member 4001 453"
  let ?r1 = "ring_insert hash wyrng ?m (ring_new 3)"
  let ?r2 = "ring_insert hash wyrng ?o ?r1"
  have ne: "?m \<noteq> ?o" by (simp add: test_ring_member_def socket_new_def)
  have r1: "ring_of hash wyrng {?m} ?r1"
    using ring_of_insert[OF ring_of_new, of hash wyrng ?m] no_collisions_subset[OF nc] by simp
  have eq: "insert ?o {?m} = {?o, ?m}" "{?m, ?o} = {?o, ?m}" by auto
  have r2: "ring_of hash wyrng {?o, ?m} ?r2"
    using ring_of_insert[OF r1, of ?o] nc by (simp add: insert_commute)
  have rep: "1 \<le> rep_factor ?r2" by (simp add: ring_new_def)
  note c = nc[unfolded eq(2)]
  note o = two_member_ring[OF r2 c ne[symmetric] rep]
  note m = two_member_ring[OF r2[unfolded insert_commute[of ?o]] nc ne rep]
  have "\<not> contains hash ?r1 ?o" using ring_of_contains[OF r1] ne by simp
  then have "charges hash wyrng ?r1 ?o = None" "node_managers hash ?r1 ?o = None"
    by (simp_all add: charges_def node_managers_def)
  with o m show ?thesis by (simp add: test_not_in_ring_def Let_def)
qed

subsection \<open>Headers\<close>

definition test_datagram_header_serde :: bool where
  "test_datagram_header_serde =
     (let header = \<lparr>msg_id = 0x0f0e0d0c0b0a0908, seq_num = 0x90f4, max_seq_num = 0xea01, msg_size = 0x8b5d7015,
            dest_size = 0x8531, intp = Message\<rparr> in
      case header_put header (replicate header_size 0) of
        None \<Rightarrow> False
      | Some buf \<Rightarrow> header_try_from buf = Some header)"

text \<open>
  Fact.  The test \<open>test_datagram_header_serde\<close> of packets.rs passes on the model.
\<close>

theorem test_datagram_header_serde_passes: "test_datagram_header_serde"
  by (simp add: test_datagram_header_serde_def header_put_def header_try_from_bytes header_ok_def)

subsection \<open>References\<close>

definition test_foo :: "string derive_input" where
  "test_foo = \<lparr>di_ident = ''Foo'', di_generics = [], di_attrs = [Attribute ''derive'' Unparenthesised],
     di_data = Enum_Data [Input_Variant ''One'' [Attribute ''aurum'' No_Tokens] (Unnamed [''String''])]\<rparr>"

definition test_bar :: "string derive_input" where
  "test_bar = \<lparr>di_ident = ''Bar'', di_generics = [], di_attrs = [Attribute ''derive'' Unparenthesised],
     di_data = Enum_Data [Input_Variant ''One'' [Attribute ''aurum'' No_Tokens] (Unnamed [''String'']),
       Input_Variant ''Two'' [Attribute ''aurum'' No_Tokens] (Unnamed [''i32''])]\<rparr>"

definition test_quz :: "string unify_entry list" where
  "test_quz = [Entry ''unified_name'' (Name_Value ''pub'' ''Quz''), Entry ''root_types'' (Types_Value [''Foo'', ''Bar'']),
     Entry ''interfaces'' (Types_Value [''String'', ''i32''])]"

text \<open>
  The codec of references is a parameter; what it carries of a reference is its socket and its destination.
  \<open>impl\<close> is what \<open>AurumInterface\<close> generates for a type, \<open>code\<close> what \<open>unify\<close> generates.
\<close>

definition actor_ref_valid_test ::
    "(string \<Rightarrow> string interface_code) \<Rightarrow> string unified_code \<Rightarrow> (socket \<times> string destination \<Rightarrow> 'b) \<Rightarrow>
     ('b \<Rightarrow> (socket \<times> string destination) option) \<Rightarrow> bool" where
  "actor_ref_valid_test impl code enc dec =
     (let variant = (\<lambda>t. the (variant_of code t));
        foo = (actor_ref_new (variant ''Foo'') (variant ''Foo'') ''foo'' (socket_new (DNS ''localhost'') 0 0) :: (string, unit) actor_ref);
        ser = enc (ref_socket foo, ref_dest foo)
      in case dec ser of
           None \<Rightarrow> False
         | Some (_, d) \<Rightarrow>
             (let valid = (\<lambda>t. destination_valid (unified_has_interface impl code) (variant t) d) in
              \<not> valid ''Bar'' \<and> \<not> valid ''i32'' \<and> valid ''Foo'' \<and> valid ''String''))"

lemma test_foo_expansion:
  "aurum_interface (\<lambda>n _. n) test_foo =
     Some (Inr \<lparr>from_impls = [(''One'', None, ''String'')], interfaces = [''String'', ''Foo''], bounds = [''String'', ''Foo'']\<rparr>)"
  by (simp add: aurum_interface_def derive_def test_foo_def variant_get_def properties_get_def
      syn_parse_properties_def properties_parse_def default_properties_def expand_def from_impl_def first_type_def)

lemma test_bar_expansion:
  "aurum_interface (\<lambda>n _. n) test_bar =
     Some (Inr \<lparr>from_impls = [(''One'', None, ''String''), (''Two'', None, ''i32'')], interfaces = [''String'', ''i32'', ''Bar''],
       bounds = [''String'', ''i32'', ''Bar'']\<rparr>)"
  by (simp add: aurum_interface_def derive_def test_bar_def variant_get_def properties_get_def
      syn_parse_properties_def properties_parse_def default_properties_def expand_def from_impl_def first_type_def)

text \<open>
  Fact.  The test \<open>actor_ref_valid_test\<close> of actor_ref.rs passes on the model, with the code that the macros
  generate for its types and every codec that decodes what it has encoded.
\<close>

theorem actor_ref_valid_test_passes:
  assumes "aurum_interface (\<lambda>n _. n) test_foo = Some (Inr (impl ''Foo''))" and "unify_impl flog id test_quz = Inr code"
    and "flog_close flog" and "\<forall>x. dec (enc x) = Some x"
  shows "actor_ref_valid_test impl code enc dec"
proof -
  let ?u = "\<lparr>unified_vis = ''pub'', unified_name = ''Quz'', root_types = [''Foo'', ''Bar''], unify_interfaces = [''String'', ''i32'']\<rparr>"
  have p: "unify_parse test_quz = Inr ?u" by (simp add: unify_parse_def test_quz_def)
  have d: "distinct (all_types id ?u)" by (simp add: all_types_def library_roots_def library_interfaces_def)
  have S: "''Foo'' \<in> set (map id library_roots @ root_types ?u)" by simp
  have ifs: "interfaces (impl ''Foo'') = [''String'', ''Foo'']" using assms(1) unfolding test_foo_expansion by (metis interface_code.select_convs(2) option.inject sum.inject(2))
  have sub: "set (interfaces (impl ''Foo'')) \<subseteq> set (all_types id ?u)" by (simp add: ifs all_types_def)
  have h: "unified_has_interface impl code (the (variant_of code ''Foo'')) (the (variant_of code t)) \<longleftrightarrow> t \<in> {''String'', ''Foo''}"
    if "t \<in> {''Foo'', ''Bar'', ''String'', ''i32''}" for t
  proof -
    have "t \<in> set (all_types id ?u)" using that by (auto simp: all_types_def)
    from has_interface_iff(1)[where impl = impl, OF assms(2,3) p d S this sub] show ?thesis by (simp add: ifs)
  qed
  show ?thesis
    using assms(4) h by (simp add: actor_ref_valid_test_def Let_def actor_ref_new_def destination_valid_def destination_new_def)
qed

subsection \<open>Instances\<close>

lemma all_less_3: "(\<forall>i<(3::nat). P i) \<longleftrightarrow> P 0 \<and> P 1 \<and> P 2"
  by (auto simp: less_Suc_eq numeral_3_eq_3 numeral_2_eq_2)

theorem test_not_in_ring_passes_witness: "test_not_in_ring m_id (\<lambda>k. k + 1)"
proof (rule test_not_in_ring_passes)
  have n: "num_vnodes (test_ring_member p i) = 3" "m_id (test_ring_member p i) = i" "m_vnodes (test_ring_member p i) = 3" for p i
    by (simp_all add: test_ring_member_def num_vnodes_def)
  have k: "((\<lambda>k. k + 1) ^^ 2) x = x + 2" for x :: u64 by (simp add: numeral_2_eq_2)
  show "no_collisions m_id (\<lambda>k. k + 1) {test_ring_member 4000 8, test_ring_member 4001 453}"
    unfolding no_collisions_def vnode_key_def ball_simps n all_less_3 by (simp add: n k)
qed

theorem actor_ref_valid_test_passes_witness:
  "\<exists>code. unify_impl exact_log id test_quz = Inr code \<and>
     actor_ref_valid_test (\<lambda>_. \<lparr>from_impls = [(''One'', None, ''String'')], interfaces = [''String'', ''Foo''],
       bounds = [''String'', ''Foo'']\<rparr>) code id Some"
proof -
  have "unify_parse test_quz \<noteq> Inl e" for e by (simp add: unify_parse_def test_quz_def)
  then obtain code where c: "unify_impl exact_log id test_quz = Inr code"
    by (cases "unify_parse test_quz") (auto simp: unify_impl_def Let_def)
  have "actor_ref_valid_test (\<lambda>_. \<lparr>from_impls = [(''One'', None, ''String'')], interfaces = [''String'', ''Foo''],
       bounds = [''String'', ''Foo'']\<rparr>) code id Some"
    by (rule actor_ref_valid_test_passes[OF _ c exact_log_close]) (simp_all add: test_foo_expansion)
  with c show ?thesis by blast
qed

end
