(* ===== verification/Spec2Isabelle.thy ===== *)
theory Spec2Isabelle
  imports Ring_Monitoring Gossip Devices_State Udp_Receiver Actor_Registry Actor_Tasks
    Interval_Storage Heartbeat_Receiver Testkit Cluster_Replicas Device_Server
    Remote_Delivery Node_Spawn Actor_Panics Device_Service Cluster_Spread Node_Services
    Unit_Tests
begin

text \<open>
  A verification development for aurum_actors, a library of actors with remote messages, clusters and
  replicated data, written in Rust (aurum_actors/src below).

  \<^bold>\<open>The program.\<close>  A node runs actors.  An actor is a task that takes messages from its mailbox and calls the
  handlers of the actor (core/actor.rs, core/actor_tasks_*.rs).  Remote messages are packed into UDP
  datagrams (core/udp_serial.rs, core/packets.rs), reassembled by one receiver per node
  (core/udp_receiver.rs) and given by the registry (core/registry.rs) to the mailbox of the actor they
  name.  Two procedural macros (aurum_actors_macros/src) generate the code that decodes a message for an actor:
  \<open>AurumInterface\<close> for each type of messages, \<open>unify\<close> for the unified type of the application.  On top of it
  are the cluster actor (cluster/cluster.rs), which keeps a consistent-hashing ring of the members (cluster/node_ring.rs), spreads member states by gossip (cluster/gossip.rs) and spawns a
  heartbeat receiver for every member it monitors (cluster/heartbeat_receiver.rs); the actor that
  replicates a CRDT among the members (cluster/crdt/causal.rs); and the device service, with a client on
  every device, a server on every member and one monitor for each device
  (cluster/devices/client.rs, server.rs, heartbeat_request_sender.rs).

  \<^bold>\<open>Conventions.\<close>  A handler is a function from the state, the message and the values that the code draws from
  outside (random identifiers, times, references of spawned actors) to the new state and the list of its
  effects (messages, spawned and stopped actors, timers) in the order of the code.  \<open>None\<close> is a panic.  The
  handlers of the device service give an \<open>outcome\<close> (\<open>Prelude\<close>): the effects they have had, and then their new
  state, a panic, or a loop that does not end.  A datagram that a handler sends is an effect that succeeds;
  that \<open>Node::udp\<close> panics on a socket whose name does not resolve is modelled in \<open>Testkit\<close> only.  A
  \<open>Duration\<close> is a natural number of nanoseconds; where the code doubles one, the panic above \<open>Duration::MAX\<close> is
  modelled (\<open>dur_double\<close>).  Mutable state is a record, an enum a datatype, \<open>u8\<close> to \<open>u64\<close> are
  words and wrap; \<open>usize\<close> is \<open>nat\<close> where it counts elements in memory and a 64-bit word where the code
  decrements it.  A \<open>HashMap\<close> is a map, a \<open>HashSet\<close> a set, a \<open>BTreeMap\<close> or an \<open>im::OrdMap\<close> the type \<open>omap\<close> of
  \<open>Ordered_Map\<close>.  Code that is not part of the repository is a parameter: the hash function and generator
  of wyhash, the codec (serde_cbor), \<open>f64\<close> arithmetic and the normal distribution, name resolution, random
  choice, and the iteration order of hash sets.

  \<^bold>\<open>Theories.\<close>
  \<^item> \<open>Prelude\<close>, \<open>Ordered_Map\<close>, \<open>Semilattice\<close>: shared types and lemmas; the \<open>crdt\<close> interface.
  \<^item> \<open>Remoting\<close>, \<open>Members\<close>: sockets, destinations and references; members, events and configurations.
  \<^item> \<open>Packets\<close>, \<open>Udp_Serial\<close>, \<open>Udp_Receiver\<close>: headers, splitting into datagrams, reassembly.  A message
    whose datagrams arrive in any order among those of others is forwarded exactly once and complete.
  \<^item> \<open>Actor_Registry\<close>, \<open>Actor_Tasks\<close>: mailboxes, registry, and the tasks that run an actor.  The
    two-task implementation is free of panics and deadlocks and makes the same calls as one task.
  \<^item> \<open>Node_Spawn\<close>: nodes, spawning, and the registration of tasks: a registered actor is bound in the registry
    from its first call to its last, as long as the registry itself has not panicked.  \<open>Actor_Panics\<close>: what a panic in a handler leaves of an actor on two tasks.
    \<open>Node_Services\<close>: the registry, the logger and the timers of a node, from its construction on.
  \<^item> \<open>Interface_Macro\<close>, \<open>Unify_Macro\<close>: the macros, as functions on syntax, and the functions they generate;
    every type has a variant of its own, and valid destinations are the ones that can be decoded.
  \<^item> \<open>Remote_Delivery\<close>: a remote message from the sender to the call of the actor.
  \<^item> \<open>Node_Ring\<close>, \<open>Ring_Monitoring\<close>: the ring; \<open>charges\<close> is the inverse of \<open>node_managers\<close>.
  \<^item> \<open>Gossip\<close>: the merge is the pointwise maximum and its events are the differences.
  \<^item> \<open>Interval_Storage\<close>, \<open>Heartbeat_Receiver\<close>: the window of intervals and the downing of a member.
  \<^item> \<open>Cluster\<close> (the actor), \<open>Cluster_Correct\<close> and \<open>Cluster_Invariant\<close> (the invariant that ring, members,
    gossip state, charges and managers agree, and freedom of panics), \<open>Cluster_Contract\<close> (what members
    and subscribers may rely on), \<open>Cluster_Instances\<close> (a concrete node).  \<open>Cluster_Network\<close>: many nodes over
    an unreliable network: none panics, gossip spreads no rumours, and an exchange of it settles two nodes.
    \<open>Cluster_Detection\<close>: a silent member is detected and removed, a ping is enough to join, and a cluster in
    which nobody has news monitors every node as configured.  \<open>Cluster_Spread\<close>: what nodes know after any exchange of
    gossip, and that it settles the cluster.
  \<^item> \<open>Causal\<close> (the actor), \<open>Causal_Correct\<close> (its acknowledgements), \<open>Causal_Network\<close> (replicas that exchange
    messages over a network that loses, duplicates and reorders), \<open>Causal_Convergence\<close>,
    \<open>Causal_Instances\<close>, \<open>Cluster_Replicas\<close> (what the cluster actor tells is what a replica expects).
  \<^item> \<open>Devices_State\<close>: the table of devices as a CRDT.
  \<^item> \<open>Frequency_Buffer\<close>, \<open>Device_Client\<close>, \<open>Request_Sender\<close>, \<open>Device_Server\<close>: the device service.
    \<open>Device_Service\<close>: an interval on its way from a server through the replicated table to the subscribers.
  \<^item> \<open>Testkit\<close>: simulated failures, the choice of how a datagram is sent, logging.
  \<^item> \<open>Unit_Tests\<close>: the tests in the source files, evaluated on the model.

  \<^bold>\<open>Runs.\<close>  State machines are inductive predicates over the handlers (\<open>cluster_reach\<close>, \<open>clr_net_reach\<close>, \<open>gossip_run\<close>, \<open>net_reach\<close>,
  \<open>double_run\<close>, \<open>node_run\<close>, \<open>orphan_run\<close>, \<open>server_reach\<close>, \<open>sender_life\<close>); their invariants are proved by rule induction and the
  properties are read off the invariants.  Handlers need no fuel: the only loop of the code that may not
  end is \<open>fb_make_room\<close>, a partial function in which \<open>None\<close> is not returning; the client that calls it then
  diverges.  Clocks and counters of
  64 bits are assumed not to be used up where a property needs it, as a hypothesis of the property.
  \<open>registry_drain\<close> takes as many steps as there are commands, which is shown to be enough.

  \<^bold>\<open>Not modelled.\<close>  The tokio runtime (threads, sockets, timers) except for the effects the handlers have on
  it; the parser of Rust syntax and the text of the generated code; \<open>LocalRef::panic\<close>; formatting of log
  lines, Debug and Display output; parsing of IP addresses and the DNS lookup, which are parameters; the tests that
  need the values of wyhash or only print, and the tests and benchmarks outside the source files.
\<close>

end
